(* ===== verification/Prelude.thy ===== *)
theory Prelude
  imports Main "HOL-Library.Word" "HOL-Library.Monad_Syntax"
begin

unbundle bit_operations_syntax

text \<open>
  The shared vocabulary of the development: the C integer types as words of
  their width, C arrays as lists whose accesses are checked, and the generic
  facts on lists, options and words that the components use.

  Every access to a C array goes through \<open>arr_get\<close>, \<open>arr_set\<close>, \<open>mem_copy\<close>
  or \<open>mem_set\<close>. Each returns \<open>None\<close> where the C access is outside the
  object, which is undefined behaviour in C, so that "never reads or writes out
  of bounds" is the theorem that the modelled function never returns \<open>None\<close>.
\<close>

section \<open>Types\<close>

type_synonym u8 = "8 word"
type_synonym u16 = "16 word"
type_synonym u32 = "32 word"
type_synonym u64 = "64 word"

text \<open>\<open>mem\<close> collects the facts that decide array accesses, \<open>step_simps\<close> the ones
  that evaluate one step of a component on a known state.\<close>

named_theorems mem
named_theorems step_simps

section \<open>Checked arrays\<close>

definition arr_get :: "'a list \<Rightarrow> nat \<Rightarrow> 'a option" where
  "arr_get xs i = (if i < length xs then Some (xs ! i) else None)"

definition arr_set :: "'a list \<Rightarrow> nat \<Rightarrow> 'a \<Rightarrow> 'a list option" where
  "arr_set xs i v = (if i < length xs then Some (xs[i := v]) else None)"

text \<open>\<open>mem_copy dst d src s n\<close> is \<open>memcpy(&dst[d], &src[s], n)\<close>.\<close>

definition mem_copy :: "'a list \<Rightarrow> nat \<Rightarrow> 'a list \<Rightarrow> nat \<Rightarrow> nat \<Rightarrow> 'a list option" where
  "mem_copy dst d src s n =
     (if d + n \<le> length dst \<and> s + n \<le> length src
      then Some (take d dst @ take n (drop s src) @ drop (d + n) dst)
      else None)"

text \<open>\<open>mem_set dst v n\<close> is \<open>memset(dst, v, n)\<close>.\<close>

definition mem_set :: "'a list \<Rightarrow> 'a \<Rightarrow> nat \<Rightarrow> 'a list option" where
  "mem_set dst v n =
     (if n \<le> length dst then Some (replicate n v @ drop n dst) else None)"

lemma arr_get_Some [mem]: "i < length xs \<Longrightarrow> arr_get xs i = Some (xs ! i)"
  by (simp add: arr_get_def)

lemma arr_get_eq_Some: "arr_get xs i = Some v \<longleftrightarrow> i < length xs \<and> xs ! i = v"
  by (auto simp: arr_get_def)

lemma arr_set_Some [mem]: "i < length xs \<Longrightarrow> arr_set xs i v = Some (xs[i := v])"
  by (simp add: arr_set_def)

lemma arr_set_eq_Some: "arr_set xs i v = Some ys \<longleftrightarrow> i < length xs \<and> ys = xs[i := v]"
  by (auto simp: arr_set_def)

lemma mem_copy_Some [mem]:
  "d + n \<le> length dst \<Longrightarrow> s + n \<le> length src \<Longrightarrow>
   mem_copy dst d src s n = Some (take d dst @ take n (drop s src) @ drop (d + n) dst)"
  by (simp add: mem_copy_def)

lemma mem_copy_length: "mem_copy dst d src s n = Some r \<Longrightarrow> length r = length dst"
  by (auto simp: mem_copy_def split: if_splits)

lemma mem_copy_prefix:
  "mem_copy dst d src s n = Some r \<Longrightarrow> take (d + n) r = take d dst @ take n (drop s src)"
  by (auto simp: mem_copy_def split: if_splits)

lemma mem_set_Some [mem]:
  "n \<le> length dst \<Longrightarrow> mem_set dst v n = Some (replicate n v @ drop n dst)"
  by (simp add: mem_set_def)

section \<open>Lists\<close>

lemma take_Suc_update: "i < length xs \<Longrightarrow> take (Suc i) (xs[i := v]) = take i xs @ [v]"
  by (simp add: take_Suc_conv_app_nth)

lemma list_update_same_take: "take i (xs[i := v]) = take i xs"
  by simp

lemma map_nth_upt_shift:
  "i + n \<le> length xs \<Longrightarrow> map ((!) xs) [i..<i + n] = take n (drop i xs)"
  by (rule nth_equalityI) auto

section \<open>Words\<close>

lemma unat_add_lt: "unat a + unat b < 2 ^ LENGTH('a) \<Longrightarrow> unat (a + b) = unat a + unat b"
  for a b :: "'a::len word"
  by (simp add: unat_word_ariths)

lemma unat_Suc_lt: "unat a + 1 < 2 ^ LENGTH('a) \<Longrightarrow> unat (a + 1) = unat a + 1"
  for a :: "'a::len word"
  by (simp add: unat_word_ariths)

lemma unat_Suc_below: "unat a < unat b \<Longrightarrow> unat (a + 1) = Suc (unat a)"
  for a b :: "'a::len word"
proof -
  assume "unat a < unat b"
  then have "unat a + 1 < 2 ^ LENGTH('a)"
    using unsigned_less [of b, where ?'a = nat] by linarith
  then show ?thesis
    by (simp add: unat_Suc_lt)
qed

lemma unat_mult_lt: "unat a * unat b < 2 ^ LENGTH('a) \<Longrightarrow> unat (a * b) = unat a * unat b"
  for a b :: "'a::len word"
  by (simp add: unat_word_ariths)

lemma unat_minus_le: "b \<le> a \<Longrightarrow> unat (a - b) = unat a - unat b"
  for a b :: "'a::len word"
  by (rule unat_sub)

lemma and_bit_nonzero: "x AND push_bit n 1 \<noteq> 0 \<longleftrightarrow> bit x n"
  for x :: "'a::len word"
  using and_exp_eq_0_iff_not_bit [of x n] by (simp add: push_bit_eq_mult)

lemma word_xor_eq_0: "a XOR b = 0 \<longleftrightarrow> a = b"
  for a b :: "'a::len word"
  by (auto simp: bit_eq_iff [where ?'a = "'a word"] bit_simps)

lemma word_xor_cancel_left: "c XOR a = c XOR b \<longleftrightarrow> a = b"
  for a b c :: "'a::len word"
  by (metis xor.assoc xor.left_neutral xor_self_eq)

lemma word_xor_cancel_right: "a XOR c = b XOR c \<longleftrightarrow> a = b"
  for a b c :: "'a::len word"
  by (simp add: word_xor_cancel_left xor.commute [of _ c])

text \<open>The high and low byte of a 16-bit value determine it.\<close>

lemma byte_pair_inj:
  "push_bit 8 (ucast x) XOR ucast y = push_bit 8 (ucast x') XOR (ucast y' :: u16) \<longleftrightarrow>
   x = x' \<and> y = y'"
  for x y x' y' :: u8
proof
  assume e: "push_bit 8 (ucast x) XOR ucast y = push_bit 8 (ucast x') XOR (ucast y' :: u16)"
  have "x = x'"
  proof (rule bit_word_eqI)
    fix n assume "n < LENGTH(8)"
    then show "bit x n \<longleftrightarrow> bit x' n"
      using arg_cong [OF e, of "\<lambda>w. bit w (n + 8)"]
      by (auto simp: bit_simps dest: bit_imp_le_length)
  qed
  moreover have "y = y'"
  proof (rule bit_word_eqI)
    fix n assume "n < LENGTH(8)"
    then show "bit y n \<longleftrightarrow> bit y' n"
      using arg_cong [OF e, of "\<lambda>w. bit w n"] by (auto simp: bit_simps)
  qed
  ultimately show "x = x' \<and> y = y'" ..
qed simp

text \<open>Splitting a 16-bit value into its bytes and joining them again.\<close>

lemma byte_join:
  "ucast lo OR push_bit 8 (ucast hi) = c \<longleftrightarrow> lo = ucast c \<and> hi = ucast (drop_bit 8 c)"
  for lo hi :: u8 and c :: u16
proof
  have l: "ucast (ucast lo OR push_bit 8 (ucast hi) :: u16) = lo"
    by (rule bit_word_eqI) (auto simp: bit_simps)
  have h: "ucast (drop_bit 8 (ucast lo OR push_bit 8 (ucast hi) :: u16)) = hi"
    by (rule bit_word_eqI) (auto simp: bit_simps dest: bit_imp_le_length)
  show "ucast lo OR push_bit 8 (ucast hi) = c \<Longrightarrow> lo = ucast c \<and> hi = ucast (drop_bit 8 c)"
    by (metis l h)
next
  show "lo = ucast c \<and> hi = ucast (drop_bit 8 c) \<Longrightarrow> ucast lo OR push_bit 8 (ucast hi) = c"
    by (rule bit_word_eqI) (auto simp: bit_simps)
qed

text \<open>C conversions between widths, and products that may wrap.\<close>

lemma unat_widen: "unat (ucast a :: u64) = unat a" for a :: u32
  using unsigned_less [of a, where ?'a = nat] by (simp add: unsigned_ucast_eq take_bit_nat_eq_self)

lemma widen_eq_0 [simp]: "(ucast a :: u64) = 0 \<longleftrightarrow> a = 0" for a :: u32
  by (simp add: word_unat_eq_iff [where ?'a = 64] word_unat_eq_iff [where ?'a = 32] unat_widen
      del: word_unat_eq_iff unat_eq_zero)

lemma unat_mult_le: "unat (a * b) \<le> unat a * unat b" for a b :: "'a::len word"
  by (simp add: unat_word_ariths)

lemma unat_ucast_le: "unat (ucast a :: 'b::len word) \<le> unat a" for a :: "'a::len word"
  by (simp add: unsigned_ucast_eq)

text \<open>Counting a byte index up to a bound of at most 64.\<close>

lemma unat_next_index:
  fixes i n :: u8
  assumes "unat i < unat n" "unat n \<le> 64"
  shows "unat (i + 1) = unat i + 1" "n \<le> i + 1 \<longleftrightarrow> unat n = unat i + 1"
proof -
  show 1: "unat (i + 1) = unat i + 1"
    using assms by (intro unat_Suc_lt) simp
  show "n \<le> i + 1 \<longleftrightarrow> unat n = unat i + 1"
    using assms by (auto simp: word_le_nat_alt 1)
qed

section \<open>Arithmetic and loops of C\<close>

text \<open>\<open>udiv\<close> is C's unsigned division: dividing by zero is undefined. \<open>u32_for lo hi body\<close>
  is the loop \<open>for (uint32_t i = lo; i <= hi; i++)\<close>, whose body answers the new state and
  whether it leaves by \<open>break\<close>. With \<open>hi = 0xFFFFFFFF\<close> the condition never fails, so a loop
  whose body never breaks does not end, and its value is \<open>None\<close>.\<close>

definition udiv :: "'a::len word \<Rightarrow> 'a word \<Rightarrow> 'a word option" where
  "udiv a b = (if b = 0 then None else Some (a div b))"

partial_function (option) u32_for ::
    "u32 \<Rightarrow> u32 \<Rightarrow> (u32 \<Rightarrow> 's \<Rightarrow> ('s \<times> bool) option) \<Rightarrow> 's \<Rightarrow> 's option" where
  "u32_for i hi body s =
     (if i \<le> hi
      then do { (s', brk) \<leftarrow> body i s;
                if brk then Some s' else u32_for (i + 1) hi body s' }
      else Some s)"

text \<open>A bounded loop ends, and an invariant carries its result.\<close>

lemma u32_for_rule:
  fixes hi :: u32
  assumes "unat hi + 1 < 2 ^ 32"
    and "I (unat lo) s"
    and step: "\<And>i s. \<lbrakk> lo \<le> i; i \<le> hi; I (unat i) s \<rbrakk> \<Longrightarrow>
      \<exists>s' brk. body i s = Some (s', brk) \<and> (if brk then Q s' else I (unat i + 1) s')"
    and fin: "\<And>n s. \<lbrakk> I n s; unat hi < n \<rbrakk> \<Longrightarrow> Q s"
  shows "\<exists>s'. u32_for lo hi body s = Some s' \<and> Q s'"
  using assms(2,3)
proof (induction "unat hi + 1 - unat lo" arbitrary: lo s rule: less_induct)
  case less
  show ?case
  proof (cases "lo \<le> hi")
    case False
    then show ?thesis
      using fin [OF less.prems(1)] by (subst u32_for.simps) (simp add: word_le_nat_alt)
  next
    case True
    obtain s' brk where b: "body lo s = Some (s', brk)"
      "if brk then Q s' else I (unat lo + 1) s'"
      using less.prems(2) [OF order_refl True less.prems(1)] by blast
    show ?thesis
    proof (cases brk)
      case True
      then show ?thesis
        using b \<open>lo \<le> hi\<close> by (subst u32_for.simps) simp
    next
      case False
      have u: "unat (lo + 1) = unat lo + 1"
        using True assms(1) by (intro unat_Suc_lt) (simp add: word_le_nat_alt)
      have "\<exists>s''. u32_for (lo + 1) hi body s' = Some s'' \<and> Q s''"
        using True b False
        by (intro less.hyps less.prems(2)) (auto simp: u word_le_nat_alt)
      then show ?thesis
        using b \<open>lo \<le> hi\<close> False by (subst u32_for.simps) simp
    qed
  qed
qed

lemma u32_for_go:
  "i \<le> hi \<Longrightarrow> u32_for i hi body s =
    do { (s', brk) \<leftarrow> body i s; if brk then Some s' else u32_for (i + 1) hi body s' }"
  by (simp add: u32_for.simps)

lemma u32_for_stop: "\<not> i \<le> hi \<Longrightarrow> u32_for i hi body s = Some s"
  by (simp add: u32_for.simps)

text \<open>\<open>push_bit\<close> and \<open>drop_bit\<close> by a numeral are evaluated on numerals only.\<close>

declare push_bit_Suc [simp del]

end
