(* ===== verification/Mmio.thy ===== *)
theory Mmio
  imports Prelude
begin

unbundle bit_operations_syntax

text \<open>
  Memory-mapped registers. A driver is a function on the history of its accesses: every volatile
  read and write is an event, in program order, and no access is merged or dropped. The hardware
  is code the repository does not contain, so it is a parameter: a device answers a read with a
  value that may depend on the whole history before it.
\<close>

section \<open>Accesses\<close>

datatype io_event = Rd u32 u32 | Wr u32 u32 | Wr8 u32 u8

type_synonym io_trace = "io_event list"
type_synonym device = "io_trace \<Rightarrow> u32 \<Rightarrow> u32"

definition reg_read :: "device \<Rightarrow> u32 \<Rightarrow> io_trace \<Rightarrow> u32 \<times> io_trace" where
  "reg_read dev a t = (dev t a, t @ [Rd a (dev t a)])"

definition reg_write :: "u32 \<Rightarrow> u32 \<Rightarrow> io_trace \<Rightarrow> io_trace" where
  "reg_write a v t = t @ [Wr a v]"

text \<open>\<open>REG |= m\<close>, \<open>REG &= ~m\<close> and \<open>REG = (REG & ~off) | on\<close>.\<close>

definition reg_set :: "device \<Rightarrow> u32 \<Rightarrow> u32 \<Rightarrow> io_trace \<Rightarrow> io_trace" where
  "reg_set dev a m t = (case reg_read dev a t of (v, t) \<Rightarrow> reg_write a (v OR m) t)"

definition reg_clear :: "device \<Rightarrow> u32 \<Rightarrow> u32 \<Rightarrow> io_trace \<Rightarrow> io_trace" where
  "reg_clear dev a m t = (case reg_read dev a t of (v, t) \<Rightarrow> reg_write a (v AND NOT m) t)"

definition reg_modify :: "device \<Rightarrow> u32 \<Rightarrow> u32 \<Rightarrow> u32 \<Rightarrow> io_trace \<Rightarrow> io_trace" where
  "reg_modify dev a off on t =
     (case reg_read dev a t of (v, t) \<Rightarrow> reg_write a ((v AND NOT off) OR on) t)"

lemmas reg_simps = reg_read_def reg_write_def reg_set_def reg_clear_def reg_modify_def

text \<open>\<open>(uint8_t)(v & 0xFF)\<close>.\<close>

lemma ucast_low_byte [simp]: "ucast (v AND 0xFF) = (ucast v :: u8)" for v :: u32
proof -
  have m: "(0xFF :: u32) = mask 8"
    by (simp add: mask_eq_exp_minus_1)
  show ?thesis
    unfolding m by (rule bit_word_eqI) (auto simp: bit_simps)
qed

section \<open>What a history says\<close>

text \<open>The values written to a register, and the values read from it, in order.\<close>

fun writes_to :: "u32 \<Rightarrow> io_trace \<Rightarrow> u32 list" where
  "writes_to a [] = []"
| "writes_to a (Wr b v # t) = (if b = a then v # writes_to a t else writes_to a t)"
| "writes_to a (e # t) = writes_to a t"

fun reads_of :: "u32 \<Rightarrow> io_trace \<Rightarrow> u32 list" where
  "reads_of a [] = []"
| "reads_of a (Rd b v # t) = (if b = a then v # reads_of a t else reads_of a t)"
| "reads_of a (e # t) = reads_of a t"

definition only_reads :: "u32 \<Rightarrow> io_trace \<Rightarrow> bool" where
  "only_reads a t \<longleftrightarrow> (\<forall>e \<in> set t. \<exists>v. e = Rd a v)"

lemma only_reads_simps [simp]:
  "only_reads a []" "only_reads a (e # t) \<longleftrightarrow> (\<exists>v. e = Rd a v) \<and> only_reads a t"
  "only_reads a (s @ t) \<longleftrightarrow> only_reads a s \<and> only_reads a t"
  by (auto simp: only_reads_def)

lemma writes_to_append [simp]: "writes_to a (s @ t) = writes_to a s @ writes_to a t"
  by (induction a s rule: writes_to.induct) auto

lemma reads_of_append [simp]: "reads_of a (s @ t) = reads_of a s @ reads_of a t"
  by (induction a s rule: reads_of.induct) auto

lemma only_reads_writes: "only_reads a t \<Longrightarrow> writes_to b t = []"
  by (induction b t rule: writes_to.induct) auto

lemma only_reads_reads: "only_reads a t \<Longrightarrow> a \<noteq> b \<Longrightarrow> reads_of b t = []"
  by (induction b t rule: reads_of.induct) auto

text \<open>What one access adds to a history.\<close>

named_theorems traffic

lemma reg_write_traffic [traffic]:
  "writes_to a (reg_write b v t) = writes_to a t @ (if b = a then [v] else [])"
  "reads_of a (reg_write b v t) = reads_of a t"
  by (simp_all add: reg_write_def)

lemma reg_read_traffic [traffic]:
  "writes_to a (snd (reg_read dev b t)) = writes_to a t"
  "reads_of a (snd (reg_read dev b t)) = reads_of a t @ (if b = a then [dev t b] else [])"
  by (simp_all add: reg_read_def)

lemma reg_set_traffic [traffic]:
  "writes_to a (reg_set dev b m t) = writes_to a t @ (if b = a then [dev t b OR m] else [])"
  by (simp add: reg_set_def reg_read_def reg_write_def)

lemma reg_clear_traffic [traffic]:
  "writes_to a (reg_clear dev b m t) = writes_to a t @ (if b = a then [dev t b AND NOT m] else [])"
  by (simp add: reg_clear_def reg_read_def reg_write_def)

lemma reg_modify_traffic [traffic]:
  "writes_to a (reg_modify dev b off on t) =
     writes_to a t @ (if b = a then [(dev t b AND NOT off) OR on] else [])"
  by (simp add: reg_modify_def reg_read_def reg_write_def)

text \<open>A read-modify-write adds one read and one write.\<close>

lemma reg_set_adds: "\<exists>v. reg_set dev a m t = t @ [Rd a v, Wr a (v OR m)]"
  by (simp add: reg_simps)

lemma reg_modify_adds: "\<exists>v. reg_modify dev a off on t = t @ [Rd a v, Wr a ((v AND NOT off) OR on)]"
  by (simp add: reg_simps)

section \<open>Bounded polling\<close>

text \<open>\<open>uint32_t n = k + 1; while (!p(REG)) { if (--n == 0) return false; } return true;\<close>\<close>

fun poll :: "device \<Rightarrow> u32 \<Rightarrow> (u32 \<Rightarrow> bool) \<Rightarrow> nat \<Rightarrow> io_trace \<Rightarrow> bool \<times> io_trace" where
  "poll dev a p k t =
     (case reg_read dev a t of (v, t) \<Rightarrow>
        if p v then (True, t) else case k of 0 \<Rightarrow> (False, t) | Suc k \<Rightarrow> poll dev a p k t)"

declare poll.simps [simp del]

lemma poll_spec:
  "\<exists>evs. poll dev a p k t = (ok, t @ evs) \<and> only_reads a evs \<and> 1 \<le> length evs \<and> length evs \<le> k + 1 \<and>
     (ok \<longrightarrow> (\<exists>v. last evs = Rd a v \<and> p v))"
  if "ok = fst (poll dev a p k t)"
  using that
proof (induction k arbitrary: t ok)
  case 0
  then show ?case
    by (auto simp: poll.simps reg_read_def)
next
  case (Suc k)
  show ?case
  proof (cases "p (dev t a)")
    case True
    then show ?thesis
      using Suc.prems by (simp add: poll.simps [of _ _ _ "Suc k"] reg_read_def)
  next
    case False
    let ?e = "Rd a (dev t a)"
    have e: "poll dev a p (Suc k) t = poll dev a p k (t @ [?e])"
      using False by (subst poll.simps) (simp add: reg_read_def)
    obtain evs where evs: "poll dev a p k (t @ [?e]) = (ok, (t @ [?e]) @ evs)" "only_reads a evs"
      "1 \<le> length evs" "length evs \<le> k + 1" "ok \<longrightarrow> (\<exists>v. last evs = Rd a v \<and> p v)"
      using Suc.IH [of ok "t @ [?e]"] Suc.prems e by metis
    show ?thesis
      by (rule exI [of _ "?e # evs"]) (use evs e in auto)
  qed
qed

section \<open>Unbounded polling\<close>

text \<open>\<open>while (p(REG)) { }\<close>: a device that keeps the condition never lets it end.\<close>

partial_function (option) spin_while :: "device \<Rightarrow> u32 \<Rightarrow> (u32 \<Rightarrow> bool) \<Rightarrow> io_trace \<Rightarrow> io_trace option" where
  "spin_while dev a p t =
     (case reg_read dev a t of (v, t) \<Rightarrow> if p v then spin_while dev a p t else Some t)"

text \<open>The history after \<open>n\<close> more reads of a register; a device is ready for a condition when
  some number of reads always ends it.\<close>

fun after_reads :: "device \<Rightarrow> u32 \<Rightarrow> nat \<Rightarrow> io_trace \<Rightarrow> io_trace" where
  "after_reads dev a 0 t = t"
| "after_reads dev a (Suc n) t = after_reads dev a n (t @ [Rd a (dev t a)])"

definition gives_way :: "device \<Rightarrow> u32 \<Rightarrow> (u32 \<Rightarrow> bool) \<Rightarrow> bool" where
  "gives_way dev a p \<longleftrightarrow> (\<forall>t. \<exists>n. \<not> p (dev (after_reads dev a n t) a))"

lemma spin_while_ends:
  assumes "\<not> p (dev (after_reads dev a n t) a)"
  shows "\<exists>evs. spin_while dev a p t = Some (t @ evs) \<and> only_reads a evs \<and> evs \<noteq> [] \<and>
    (\<exists>v. last evs = Rd a v \<and> \<not> p v)"
  using assms
proof (induction n arbitrary: t)
  case 0
  then show ?case
    by (subst spin_while.simps) (simp add: reg_read_def)
next
  case (Suc n)
  show ?case
  proof (cases "p (dev t a)")
    case False
    then show ?thesis
      by (subst spin_while.simps) (simp add: reg_read_def)
  next
    case True
    let ?e = "Rd a (dev t a)"
    obtain evs where "spin_while dev a p (t @ [?e]) = Some ((t @ [?e]) @ evs)" "only_reads a evs" "evs \<noteq> []"
      "\<exists>v. last evs = Rd a v \<and> \<not> p v"
      using Suc.IH [of "t @ [?e]"] Suc.prems by auto
    then show ?thesis
      using True by (subst spin_while.simps) (auto simp: reg_read_def intro!: exI [of _ "?e # evs"])
  qed
qed

lemma gives_way_ends:
  assumes "gives_way dev a p"
  obtains evs where "spin_while dev a p t = Some (t @ evs)" "only_reads a evs"
  using assms spin_while_ends unfolding gives_way_def by metis

text \<open>The loop returns exactly when the condition fails after some number of reads.\<close>

lemma spin_while_stuck:
  assumes "spin_while dev a p t = Some t'"
  shows "\<exists>n. \<not> p (dev (after_reads dev a n t) a)"
  using assms
proof (rule spin_while.raw_induct [where P = "\<lambda>dev a p t t'. \<exists>n. \<not> p (dev (after_reads dev a n t) a)", rotated])
  fix spin dev a p t t'
  assume IH: "\<And>dev a p t t'. spin dev a p t = Some t' \<Longrightarrow> \<exists>n. \<not> p (dev (after_reads dev a n t) a)"
    and s: "(case reg_read dev a t of (v, t) \<Rightarrow> if p v then spin dev a p t else Some t) = Some t'"
  show "\<exists>n. \<not> p (dev (after_reads dev a n t) a)"
  proof (cases "p (dev t a)")
    case False
    then show ?thesis
      by (intro exI [of _ 0]) simp
  next
    case True
    then have "spin dev a p (t @ [Rd a (dev t a)]) = Some t'"
      using s by (simp add: reg_read_def)
    then obtain n where "\<not> p (dev (after_reads dev a n (t @ [Rd a (dev t a)])) a)"
      using IH by blast
    then show ?thesis
      by (intro exI [of _ "Suc n"]) simp
  qed
qed

lemma spin_while_returns:
  "(\<exists>t'. spin_while dev a p t = Some t') \<longleftrightarrow> (\<exists>n. \<not> p (dev (after_reads dev a n t) a))"
  using spin_while_stuck spin_while_ends by metis

end
