(* ===== verification/Lm3s6965_Regs.thy ===== *)
theory Lm3s6965_Regs
  imports Mmio
begin

unbundle bit_operations_syntax

text \<open>
  The register addresses and bits of \<open>src/code/qemu-cortex-m/common/lm3s6965.h\<close>.
\<close>

definition SYSCTL_RCGC1 :: u32 where "SYSCTL_RCGC1 = 0x400FE104"
definition SYSCTL_RCGC2 :: u32 where "SYSCTL_RCGC2 = 0x400FE108"
definition RCGC1_UART0 :: u32 where "RCGC1_UART0 = push_bit 0 1"
definition RCGC2_GPIOA :: u32 where "RCGC2_GPIOA = push_bit 0 1"
definition RCGC2_GPIOF :: u32 where "RCGC2_GPIOF = push_bit 5 1"

definition UART0_BASE :: u32 where "UART0_BASE = 0x4000C000"
definition UART0_DR :: u32 where "UART0_DR = UART0_BASE + 0x000"
definition UART0_FR :: u32 where "UART0_FR = UART0_BASE + 0x018"
definition UART0_IBRD :: u32 where "UART0_IBRD = UART0_BASE + 0x024"
definition UART0_FBRD :: u32 where "UART0_FBRD = UART0_BASE + 0x028"
definition UART0_LCRH :: u32 where "UART0_LCRH = UART0_BASE + 0x02C"
definition UART0_CTL :: u32 where "UART0_CTL = UART0_BASE + 0x030"
definition UART0_IM :: u32 where "UART0_IM = UART0_BASE + 0x038"
definition UART0_MIS :: u32 where "UART0_MIS = UART0_BASE + 0x040"
definition UART0_ICR :: u32 where "UART0_ICR = UART0_BASE + 0x044"

definition UART_FR_RXFE :: u32 where "UART_FR_RXFE = push_bit 4 1"
definition UART_FR_TXFF :: u32 where "UART_FR_TXFF = push_bit 5 1"
definition UART_FR_BUSY :: u32 where "UART_FR_BUSY = push_bit 3 1"
definition UART_LCRH_WLEN8 :: u32 where "UART_LCRH_WLEN8 = push_bit 5 3"
definition UART_LCRH_FEN :: u32 where "UART_LCRH_FEN = push_bit 4 1"
definition UART_CTL_UARTEN :: u32 where "UART_CTL_UARTEN = push_bit 0 1"
definition UART_CTL_TXE :: u32 where "UART_CTL_TXE = push_bit 8 1"
definition UART_CTL_RXE :: u32 where "UART_CTL_RXE = push_bit 9 1"
definition UART_IM_RXIM :: u32 where "UART_IM_RXIM = push_bit 4 1"
definition UART_IM_RTIM :: u32 where "UART_IM_RTIM = push_bit 6 1"

definition GPIOF_BASE :: u32 where "GPIOF_BASE = 0x40025000"
definition GPIOF_DATA_BITS :: "u32 \<Rightarrow> u32" where "GPIOF_DATA_BITS m = GPIOF_BASE + push_bit 2 m"
definition GPIOF_DIR :: u32 where "GPIOF_DIR = GPIOF_BASE + 0x400"
definition GPIOF_DEN :: u32 where "GPIOF_DEN = GPIOF_BASE + 0x51C"

definition SYSTICK_CTRL :: u32 where "SYSTICK_CTRL = 0xE000E010"
definition SYSTICK_LOAD :: u32 where "SYSTICK_LOAD = 0xE000E014"
definition SYSTICK_VAL :: u32 where "SYSTICK_VAL = 0xE000E018"
definition SYSTICK_CTRL_ENABLE :: u32 where "SYSTICK_CTRL_ENABLE = push_bit 0 1"
definition SYSTICK_CTRL_TICKINT :: u32 where "SYSTICK_CTRL_TICKINT = push_bit 1 1"
definition SYSTICK_CTRL_CLKSOURCE :: u32 where "SYSTICK_CTRL_CLKSOURCE = push_bit 2 1"

definition NVIC_ISER0 :: u32 where "NVIC_ISER0 = 0xE000E100"
definition NVIC_ICER0 :: u32 where "NVIC_ICER0 = 0xE000E180"
definition NVIC_IPR :: "nat \<Rightarrow> u32" where "NVIC_IPR n = 0xE000E400 + of_nat n"
definition SCB_AIRCR :: u32 where "SCB_AIRCR = 0xE000ED0C"
definition SCB_SHPR3 :: u32 where "SCB_SHPR3 = 0xE000ED20"
definition IRQ_UART0 :: nat where "IRQ_UART0 = 5"

definition SYSTEM_CLOCK_HZ :: u32 where "SYSTEM_CLOCK_HZ = 12000000"

lemmas uart_regs = UART0_BASE_def UART0_DR_def UART0_FR_def UART0_IBRD_def UART0_FBRD_def
  UART0_LCRH_def UART0_CTL_def UART0_IM_def UART0_ICR_def SYSCTL_RCGC1_def SYSCTL_RCGC2_def

lemmas core_regs = SYSTICK_CTRL_def SYSTICK_LOAD_def SYSTICK_VAL_def NVIC_ISER0_def NVIC_IPR_def

text \<open>The data register of port F is a window of 256 words, one for each mask of its eight pins; the
  windows of different masks differ and all lie below the direction register.\<close>

lemma gpiof_data_window:
  assumes "m < 256" and "m' < 256"
  shows "GPIOF_DATA_BITS m < GPIOF_DIR" "GPIOF_DATA_BITS m = GPIOF_DATA_BITS m' \<longleftrightarrow> m = m'"
proof -
  have u: "unat (GPIOF_DATA_BITS k) = 0x40025000 + 4 * unat k" if "k < 256" for k :: u32
    using that by (simp add: GPIOF_DATA_BITS_def GPIOF_BASE_def push_bit_eq_mult unat_word_ariths word_less_nat_alt)
  show "GPIOF_DATA_BITS m < GPIOF_DIR"
    using u [OF assms(1)] assms(1) by (simp add: word_less_nat_alt GPIOF_DIR_def GPIOF_BASE_def)
  show "GPIOF_DATA_BITS m = GPIOF_DATA_BITS m' \<longleftrightarrow> m = m'"
    using u [OF assms(1)] u [OF assms(2)] by (auto simp: word_unat_eq_iff)
qed

lemma uart_fr_dr [simp]: "UART0_FR \<noteq> UART0_DR" "UART0_DR \<noteq> UART0_FR"
  by (simp_all add: uart_regs)

end
