(* ===== verification/Uart.thy ===== *)
theory Uart
  imports Lm3s6965_Regs
begin

unbundle bit_operations_syntax

text \<open>
  The blocking serial output of \<open>src/code/qemu-cortex-m/common/uart.c\<close>. A C string pointer is the
  rest of the array it points into, its terminator included; running off the array is \<open>None\<close>,
  as is waiting for ever in \<open>uart_putc\<close>. \<open>char\<close> is unsigned, as on ARM.
\<close>

section \<open>The driver\<close>

definition cstr :: "string \<Rightarrow> u8 list" where
  "cstr s = map of_char s @ [0]"

definition cline :: "string \<Rightarrow> u8 list" where
  "cline s = map of_char s @ [10, 0]"

definition uart_init :: "device \<Rightarrow> u32 \<Rightarrow> io_trace \<Rightarrow> io_trace option" where
  "uart_init dev baud t =
     (let t = reg_set dev SYSCTL_RCGC1 RCGC1_UART0 t;
          t = reg_set dev SYSCTL_RCGC2 RCGC2_GPIOA t;
          t = reg_write UART0_CTL 0 t
      in do {
        div64 \<leftarrow> udiv (SYSTEM_CLOCK_HZ * 4) baud;
        let t = reg_write UART0_IBRD (div64 div 64) t;
        let t = reg_write UART0_FBRD (div64 mod 64) t;
        let t = reg_write UART0_LCRH (UART_LCRH_WLEN8 OR UART_LCRH_FEN) t;
        Some (reg_write UART0_CTL (UART_CTL_UARTEN OR UART_CTL_TXE OR UART_CTL_RXE) t)
      })"

definition tx_full :: "u32 \<Rightarrow> bool" where
  "tx_full v \<longleftrightarrow> v AND UART_FR_TXFF \<noteq> 0"

definition uart_putc :: "device \<Rightarrow> u8 \<Rightarrow> io_trace \<Rightarrow> io_trace option" where
  "uart_putc dev c t = do { t \<leftarrow> spin_while dev UART0_FR tx_full t; Some (reg_write UART0_DR (ucast c) t) }"

fun uart_puts :: "device \<Rightarrow> u8 list \<Rightarrow> io_trace \<Rightarrow> io_trace option" where
  "uart_puts dev [] t = None"
| "uart_puts dev (c # s) t =
     (if c \<noteq> 0
      then do {
        t \<leftarrow> (if c = 10 then uart_putc dev 13 t else Some t);
        t \<leftarrow> uart_putc dev c t;
        uart_puts dev s t
      }
      else Some t)"

definition uart_getc_nonblocking :: "device \<Rightarrow> io_trace \<Rightarrow> int \<times> io_trace" where
  "uart_getc_nonblocking dev t =
     (case reg_read dev UART0_FR t of (v, t) \<Rightarrow>
      if v AND UART_FR_RXFE \<noteq> 0 then (- 1, t)
      else case reg_read dev UART0_DR t of (v, t) \<Rightarrow> (sint (v AND 0xFF), t))"

text \<open>The digits are written from the end of the buffer; its bytes before them are never read, so
  that they start as 0 here does not matter.\<close>

function u32_digits :: "u32 \<Rightarrow> nat \<Rightarrow> u8 list \<Rightarrow> (nat \<times> u8 list) option" where
  "u32_digits v i buf =
     (if v \<noteq> 0 \<and> i > 0
      then do {
        buf \<leftarrow> arr_set buf (i - 1) (ucast (48 + v mod 10));
        u32_digits (v div 10) (i - 1) buf
      }
      else Some (i, buf))"
  by auto
termination
  by (relation "measure (\<lambda>(v, i, buf). i)") auto

declare u32_digits.simps [simp del]

definition uart_put_u32 :: "device \<Rightarrow> u32 \<Rightarrow> io_trace \<Rightarrow> io_trace option" where
  "uart_put_u32 dev v t = do {
     buf \<leftarrow> arr_set (replicate 11 0) 10 0;
     if v = 0 then uart_putc dev 48 t
     else do {
       (i, buf) \<leftarrow> u32_digits v 10 buf;
       uart_puts dev (drop i buf) t
     }
   }"

definition hex_chars :: "u8 list" where
  "hex_chars = cstr ''0123456789ABCDEF''"

function hex_loop :: "device \<Rightarrow> u32 \<Rightarrow> int \<Rightarrow> io_trace \<Rightarrow> io_trace option" where
  "hex_loop dev v shift t =
     (if shift \<ge> 0
      then do {
        c \<leftarrow> arr_get hex_chars (unat (drop_bit (nat shift) v AND 0xF));
        t \<leftarrow> uart_putc dev c t;
        hex_loop dev v (shift - 4) t
      }
      else Some t)"
  by auto
termination
  by (relation "measure (\<lambda>(dev, v, shift, t). nat (shift + 4))") auto

declare hex_loop.simps [simp del]

definition uart_put_hex32 :: "device \<Rightarrow> u32 \<Rightarrow> io_trace \<Rightarrow> io_trace option" where
  "uart_put_hex32 dev v t = do { t \<leftarrow> uart_puts dev (cstr ''0x'') t; hex_loop dev v 28 t }"

definition uart_put_hex8 :: "device \<Rightarrow> u8 \<Rightarrow> io_trace \<Rightarrow> io_trace option" where
  "uart_put_hex8 dev v t = do {
     c \<leftarrow> arr_get hex_chars (unat (drop_bit 4 v AND 0xF));
     t \<leftarrow> uart_putc dev c t;
     c \<leftarrow> arr_get hex_chars (unat (v AND 0xF));
     uart_putc dev c t
   }"

section \<open>What a routine prints\<close>

text \<open>\<open>uart_ready\<close> says that the transmit queue never stays full for ever. Under it, \<open>prints dev f out\<close>
  says that \<open>f\<close> returns from every history and puts exactly the bytes \<open>out\<close> in the data register,
  with no other access than reads of the flag register.\<close>

definition uart_ready :: "device \<Rightarrow> bool" where
  "uart_ready dev \<longleftrightarrow> gives_way dev UART0_FR tx_full"

definition uart_only :: "io_trace \<Rightarrow> bool" where
  "uart_only t \<longleftrightarrow> (\<forall>e \<in> set t. (\<exists>v. e = Rd UART0_FR v) \<or> (\<exists>v. e = Wr UART0_DR v))"

text \<open>\<open>outputs cls f out\<close> for a class of histories that is closed under appending: routines of the class
  compose.\<close>

definition outputs :: "(io_trace \<Rightarrow> bool) \<Rightarrow> (io_trace \<Rightarrow> io_trace option) \<Rightarrow> u8 list \<Rightarrow> bool" where
  "outputs cls f out \<longleftrightarrow>
     (\<forall>t. \<exists>evs. f t = Some (t @ evs) \<and> cls evs \<and> writes_to UART0_DR evs = map ucast out)"

locale trace_class =
  fixes cls :: "io_trace \<Rightarrow> bool"
  assumes cls_nil: "cls []"
    and cls_append: "cls (s @ t) \<longleftrightarrow> cls s \<and> cls t"
begin

lemma nothing: "outputs cls Some []"
  by (simp add: outputs_def cls_nil)

lemma runs:
  assumes "outputs cls f out"
  obtains evs where "f t = Some (t @ evs)" "cls evs" "writes_to UART0_DR evs = map ucast out"
  using assms unfolding outputs_def by blast

lemma sequence:
  assumes "outputs cls f a" and "outputs cls g b"
  shows "outputs cls (\<lambda>t. f t \<bind> g) (a @ b)"
  unfolding outputs_def
proof
  fix t
  obtain e where e: "f t = Some (t @ e)" "cls e" "writes_to UART0_DR e = map ucast a"
    using runs [OF assms(1)] by blast
  obtain e' where "g (t @ e) = Some ((t @ e) @ e')" "cls e'" "writes_to UART0_DR e' = map ucast b"
    using runs [OF assms(2)] by blast
  then show "\<exists>evs. f t \<bind> g = Some (t @ evs) \<and> cls evs \<and> writes_to UART0_DR evs = map ucast (a @ b)"
    using e by (intro exI [of _ "e @ e'"]) (simp add: cls_append)
qed

end

lemma uart_only_simps [simp]: "uart_only []" "uart_only (s @ t) \<longleftrightarrow> uart_only s \<and> uart_only t"
  "uart_only (Wr UART0_DR v # t) \<longleftrightarrow> uart_only t"
  by (auto simp: uart_only_def)

interpretation polled: trace_class uart_only
  by unfold_locales simp_all

definition prints :: "device \<Rightarrow> (io_trace \<Rightarrow> io_trace option) \<Rightarrow> u8 list \<Rightarrow> bool" where
  "prints dev f out \<longleftrightarrow> outputs uart_only f out"

named_theorems printing

lemma prints_iff:
  "prints dev f out \<longleftrightarrow> (\<forall>t. \<exists>evs. f t = Some (t @ evs) \<and> uart_only evs \<and> writes_to UART0_DR evs = map ucast out)"
  by (simp add: prints_def outputs_def)

lemma prints_none [printing]: "prints dev Some []"
  unfolding prints_def by (rule polled.nothing)

lemma prints_runs:
  assumes "prints dev f out"
  obtains evs where "f t = Some (t @ evs)" "uart_only evs" "writes_to UART0_DR evs = map ucast out"
  using assms unfolding prints_def by (rule polled.runs)

lemma prints_bind [printing]: "prints dev f a \<Longrightarrow> prints dev g b \<Longrightarrow> prints dev (\<lambda>t. f t \<bind> g) (a @ b)"
  unfolding prints_def by (rule polled.sequence)

lemma prints_putc [printing]:
  assumes "uart_ready dev"
  shows "prints dev (uart_putc dev c) [c]"
  unfolding prints_iff
proof
  fix t
  obtain evs where e: "spin_while dev UART0_FR tx_full t = Some (t @ evs)" "only_reads UART0_FR evs"
    using gives_way_ends assms unfolding uart_ready_def by blast
  then have "uart_only evs" "writes_to UART0_DR evs = []"
    by (auto simp: only_reads_def uart_only_def only_reads_writes)
  then show "\<exists>evs. uart_putc dev c t = Some (t @ evs) \<and> uart_only evs \<and> writes_to UART0_DR evs = map ucast [c]"
    using e by (intro exI [of _ "evs @ [Wr UART0_DR (ucast c)]"]) (simp add: uart_putc_def reg_write_def)
qed

text \<open>Every line feed is preceded by a carriage return.\<close>

definition crlf :: "u8 list \<Rightarrow> u8 list" where
  "crlf s = concat (map (\<lambda>c. if c = 10 then [13, 10] else [c]) s)"

lemma prints_puts [printing]:
  assumes "uart_ready dev" and "0 \<notin> set s"
  shows "prints dev (uart_puts dev (s @ 0 # rest)) (crlf s)"
  using assms(2)
proof (induction s)
  case Nil
  then show ?case
    by (simp add: crlf_def prints_iff)
next
  case (Cons c s)
  have step: "uart_puts dev ((c # s) @ 0 # rest) =
      (\<lambda>t. (if c = 10 then uart_putc dev 13 t else Some t) \<bind> (\<lambda>t. uart_putc dev c t \<bind> uart_puts dev (s @ 0 # rest)))"
    using Cons.prems by (auto simp: fun_eq_iff)
  have cr: "prints dev (\<lambda>t. if c = 10 then uart_putc dev 13 t else Some t) (if c = 10 then [13] else [])"
    using prints_putc [OF assms(1)] prints_none by auto
  have out: "crlf (c # s) = (if c = 10 then [13] else []) @ [c] @ crlf s"
    by (simp add: crlf_def)
  show ?case
    unfolding step out using Cons by (intro prints_bind cr prints_putc assms(1)) auto
qed

text \<open>The bytes of a C literal on the wire.\<close>

definition wire :: "string \<Rightarrow> u8 list" where
  "wire s = crlf (map of_char s)"

lemma of_char_nonzero: "(of_char c :: u8) = 0 \<longleftrightarrow> c = CHR 0x00"
proof -
  have "(of_nat n :: u8) = 0 \<longleftrightarrow> n = 0" if "n < 256" for n :: nat
    using that by (simp add: word_unat_eq_iff unat_of_nat)
  then have "(of_nat (of_char c) :: u8) = 0 \<longleftrightarrow> (of_char c :: nat) = 0"
    by (simp only: nat_of_char_less_256)
  also have "\<dots> \<longleftrightarrow> (of_char c :: nat) = of_char (CHR 0x00)"
    by simp
  finally show ?thesis
    by (simp only: of_char_eq_iff of_nat_of_char)
qed

lemma no_nul: "CHR 0x00 \<notin> set s \<Longrightarrow> (0 :: u8) \<notin> of_char ` set s"
  by (metis imageE of_char_nonzero)

lemma prints_cstr [printing]:
  assumes "uart_ready dev" and "CHR 0x00 \<notin> set s"
  shows "prints dev (uart_puts dev (cstr s)) (wire s)"
  using prints_puts [OF assms(1), of "map of_char s" "[]"] assms(2)
  by (simp add: cstr_def wire_def no_nul)

lemma prints_cline [printing]:
  assumes "uart_ready dev" and "CHR 0x00 \<notin> set s"
  shows "prints dev (uart_puts dev (cline s)) (wire s @ [13, 10])"
  using prints_puts [OF assms(1), of "map of_char s @ [10]" "[]"] assms(2)
  by (simp add: cline_def wire_def no_nul crlf_def)

text \<open>A routine that prints returns; so does a program that only prints, reads and stops.\<close>

lemma prints_then:
  assumes "prints dev f out" and "\<And>t. \<exists>r. g t = Some r \<and> P r"
  shows "\<exists>r. f t \<bind> g = Some r \<and> P r"
  using prints_runs [OF assms(1), of t] assms(2) by (metis bind.bind_lunit)

section \<open>Numbers\<close>

text \<open>The digits of a number, most significant first, and the number they stand for.\<close>

fun digits :: "nat \<Rightarrow> nat list" where
  "digits n = (if n = 0 then [] else digits (n div 10) @ [n mod 10])"

declare digits.simps [simp del]

definition decimal :: "nat \<Rightarrow> nat list" where
  "decimal n = (if n = 0 then [0] else digits n)"

definition digit_char :: "nat \<Rightarrow> u8" where
  "digit_char d = 48 + of_nat d"

definition number_of :: "nat \<Rightarrow> nat list \<Rightarrow> nat" where
  "number_of base ds = foldl (\<lambda>n d. base * n + d) 0 ds"

lemma number_of_simps [simp]: "number_of b [] = 0" "number_of b (ds @ [d]) = b * number_of b ds + d"
  by (simp_all add: number_of_def)

lemma digits_value: "number_of 10 (digits n) = n"
  by (induction n rule: digits.induct) (subst digits.simps, simp)

lemma digits_below: "d \<in> set (digits n) \<Longrightarrow> d < 10"
proof (induction n rule: digits.induct)
  case (1 n)
  then show ?case
    by (cases "n = 0") (auto simp: digits.simps [of n] digits.simps [of 0])
qed

lemma digits_length: "n < 10 ^ k \<Longrightarrow> length (digits n) \<le> k"
proof (induction k arbitrary: n)
  case 0
  then show ?case
    by (simp add: digits.simps)
next
  case (Suc k)
  then have "n div 10 < 10 ^ k"
    by (simp add: less_mult_imp_div_less mult.commute)
  then show ?case
    using Suc.IH by (subst digits.simps) simp
qed

lemma digits_head: "n \<noteq> 0 \<Longrightarrow> hd (digits n) \<noteq> 0 \<and> digits n \<noteq> []"
proof (induction n rule: digits.induct)
  case (1 n)
  show ?case
  proof (cases "n div 10 = 0")
    case True
    then show ?thesis
      using 1 by (simp add: digits.simps [of n] digits.simps [of 0])
  next
    case False
    then show ?thesis
      using 1 by (subst (1 2) digits.simps) simp
  qed
qed

lemma digit_char_word: "ucast (48 + v mod 10) = digit_char (unat v mod 10)" for v :: u32
proof -
  have m: "unat (v mod 10) = unat v mod 10"
    by (simp add: unat_mod)
  have k: "unat v mod 10 < 10"
    by simp
  have "unat (48 + v mod 10) = 48 + unat v mod 10"
    using k by (subst unat_add_lt) (simp_all add: m)
  moreover have "unat (digit_char (unat v mod 10)) = 48 + unat v mod 10"
    using k unfolding digit_char_def by (subst unat_add_lt) (simp_all add: unat_of_nat)
  ultimately show ?thesis
    using k by (simp add: word_unat_eq_iff [where ?'a = 8] unsigned_ucast_eq unsigned_take_bit_eq take_bit_nat_eq_self
        del: word_unat_eq_iff)
qed

lemma u32_digits_spec:
  "length (digits (unat v)) \<le> i \<Longrightarrow> i \<le> length buf \<Longrightarrow>
   u32_digits v i buf = Some (i - length (digits (unat v)),
     take (i - length (digits (unat v))) buf @ map digit_char (digits (unat v)) @ drop i buf)"
proof (induction v i buf rule: u32_digits.induct)
  case (1 v i buf)
  show ?case
  proof (cases "v = 0")
    case True
    then show ?thesis
      by (subst u32_digits.simps) (simp add: digits.simps)
  next
    case False
    then have d: "digits (unat v) = digits (unat (v div 10)) @ [unat v mod 10]"
      by (subst digits.simps) (simp add: unat_div unat_eq_zero)
    then have i: "0 < i" "length (digits (unat (v div 10))) \<le> i - 1" "i - 1 < length buf"
      using "1.prems" by auto
    let ?buf = "buf[i - 1 := digit_char (unat v mod 10)]"
    have s: "arr_set buf (i - 1) (ucast (48 + v mod 10)) = Some ?buf"
      using i by (simp add: mem digit_char_word)
    have "drop (i - 1) ?buf = digit_char (unat v mod 10) # drop i buf"
      using i by (cases i) (auto simp: drop_update_swap Cons_nth_drop_Suc [symmetric])
    moreover have "u32_digits (v div 10) (i - 1) ?buf = Some (i - 1 - length (digits (unat (v div 10))),
        take (i - 1 - length (digits (unat (v div 10)))) ?buf @ map digit_char (digits (unat (v div 10))) @ drop (i - 1) ?buf)"
      using "1.IH" [OF _ s] False i by simp
    ultimately show ?thesis
      unfolding d using False i s by (subst u32_digits.simps) simp
  qed
qed

lemma digit_char_plain: "d < 10 \<Longrightarrow> digit_char d \<noteq> 0 \<and> digit_char d \<noteq> 10"
  by (auto simp: digit_char_def word_unat_eq_iff unat_word_ariths unat_of_nat)

lemma crlf_plain: "10 \<notin> set s \<Longrightarrow> crlf s = s"
  by (induction s) (auto simp: crlf_def)

lemma prints_u32 [printing]:
  assumes "uart_ready dev"
  shows "prints dev (uart_put_u32 dev v) (map digit_char (decimal (unat v)))"
proof (cases "v = 0")
  case True
  then have "uart_put_u32 dev v = uart_putc dev 48"
    by (simp add: fun_eq_iff uart_put_u32_def mem)
  then show ?thesis
    using True prints_putc [OF assms, of 48] by (simp add: decimal_def digit_char_def)
next
  case False
  let ?ds = "digits (unat v)"
  have "unat v < 10 ^ 10"
    using unsigned_less [of v, where ?'a = nat] by simp
  then have len: "length ?ds \<le> 10"
    by (rule digits_length)
  have plain: "0 \<notin> set (map digit_char ?ds)" "10 \<notin> set (map digit_char ?ds)"
    using digits_below [of _ "unat v"] digit_char_plain by (metis imageE list.set_map)+
  have "u32_digits v 10 ((replicate 11 0)[10 := 0]) = Some (10 - length ?ds,
      take (10 - length ?ds) ((replicate 11 0)[10 := 0]) @ map digit_char ?ds @ drop 10 ((replicate 11 0)[10 := 0]))"
    using len by (intro u32_digits_spec) simp_all
  moreover have "drop (10 - length ?ds) (take (10 - length ?ds) ((replicate 11 0)[10 := 0]) @
      map digit_char ?ds @ drop 10 ((replicate 11 (0 :: u8))[10 := 0])) = map digit_char ?ds @ 0 # []"
    using len by (simp add: drop_replicate numeral_eq_Suc)
  ultimately have "uart_put_u32 dev v = uart_puts dev (map digit_char ?ds @ 0 # [])"
    using False by (simp add: fun_eq_iff uart_put_u32_def mem)
  then show ?thesis
    using False prints_puts [OF assms plain(1), of "[]"] crlf_plain [OF plain(2)]
    by (simp add: decimal_def unat_eq_zero)
qed

text \<open>Hexadecimal output: the digits from the top one down.\<close>

definition hex_char :: "nat \<Rightarrow> u8" where
  "hex_char d = hex_chars ! d"

fun nibbles :: "nat \<Rightarrow> nat \<Rightarrow> nat list" where
  "nibbles 0 n = []"
| "nibbles (Suc k) n = n div 16 ^ k mod 16 # nibbles k n"

lemma nibbles_length [simp]: "length (nibbles k n) = k"
  by (induction k) simp_all

lemma nibbles_below: "d \<in> set (nibbles k n) \<Longrightarrow> d < 16"
  by (induction k) auto

lemma number_of_Cons: "number_of b (d # ds) = d * b ^ length ds + number_of b ds"
proof -
  have F: "foldl (\<lambda>n d. b * n + d) a ds = a * b ^ length ds + number_of b ds" for a
  proof (induction ds rule: rev_induct)
    case Nil
    then show ?case by simp
  next
    case (snoc x ds)
    then show ?case by (simp add: distrib_left mult.left_commute)
  qed
  show ?thesis
    by (simp add: F number_of_def [of b "d # ds"])
qed

lemma nibbles_value: "number_of 16 (nibbles k n) = n mod 16 ^ k"
proof (induction k)
  case 0
  then show ?case by simp
next
  case (Suc k)
  have "n mod 16 ^ Suc k = n mod (16 ^ k * 16)"
    by (simp add: mult.commute)
  also have "\<dots> = 16 ^ k * (n div 16 ^ k mod 16) + n mod 16 ^ k"
    by (rule mod_mult2_eq)
  finally show ?case
    using Suc.IH by (simp add: number_of_Cons mult.commute)
qed

lemma hex_chars_length: "length hex_chars = 17"
  by (simp add: hex_chars_def cstr_def)

lemma nibble_word: "unat (drop_bit n v AND 0xF) = unat v div 2 ^ n mod 16" for v :: "'a::len word"
proof -
  have "(0xF :: 'a word) = mask 4"
    by (simp add: mask_eq_exp_minus_1)
  then have "drop_bit n v AND 0xF = take_bit 4 (drop_bit n v)"
    by (simp only: take_bit_eq_mask)
  then have "unat (drop_bit n v AND 0xF) = unat (take_bit 4 (drop_bit n v))"
    by (simp only:)
  also have "\<dots> = take_bit 4 (drop_bit n (unat v))"
    by (simp only: unsigned_take_bit_eq unsigned_drop_bit_eq take_bit_nat_eq_self [OF unsigned_less])
  finally show ?thesis
    by (simp add: take_bit_eq_mod drop_bit_eq_div)
qed

lemma hex_get: "arr_get hex_chars (unat (drop_bit n v AND 0xF)) = Some (hex_char (unat v div 2 ^ n mod 16))"
  for v :: "'a::len word"
proof -
  have "unat v div 2 ^ n mod 16 < length hex_chars"
    by (simp add: hex_chars_length order_less_trans [OF mod_less_divisor])
  then show ?thesis
    unfolding nibble_word by (simp add: mem hex_char_def)
qed

lemma prints_hex_loop:
  assumes "uart_ready dev"
  shows "prints dev (hex_loop dev v (4 * int k - 4)) (map hex_char (nibbles k (unat v)))"
proof (induction k)
  case 0
  have "hex_loop dev v (4 * int 0 - 4) = Some"
    by (simp add: fun_eq_iff hex_loop.simps)
  then show ?case
    using prints_none by simp
next
  case (Suc k)
  have p: "(16 :: nat) ^ k = 2 ^ (4 * k)"
    by (simp add: power_mult)
  have "hex_loop dev v (4 * int (Suc k) - 4) =
      (\<lambda>t. uart_putc dev (hex_char (unat v div 2 ^ (4 * k) mod 16)) t \<bind> hex_loop dev v (4 * int k - 4))"
    by (rule ext, subst hex_loop.simps) (simp add: hex_get nat_mult_distrib)
  then show ?case
    unfolding nibbles.simps p
    using prints_bind [OF prints_putc [OF assms] Suc.IH, of "hex_char (unat v div 2 ^ (4 * k) mod 16)"] by simp
qed

lemma prints_hex32 [printing]:
  assumes "uart_ready dev"
  shows "prints dev (uart_put_hex32 dev v) ([48, 120] @ map hex_char (nibbles 8 (unat v)))"
proof -
  have c: "cstr ''0x'' = [48, 120] @ 0 # []" "crlf [48, 120] = [48, 120]"
    by (simp_all add: cstr_def crlf_def)
  have "uart_put_hex32 dev v = (\<lambda>t. uart_puts dev (cstr ''0x'') t \<bind> hex_loop dev v (4 * int 8 - 4))"
    by (simp add: fun_eq_iff uart_put_hex32_def)
  moreover have "prints dev (uart_puts dev (cstr ''0x'')) [48, 120]"
    unfolding c(1) using prints_puts [OF assms, of "[48, 120]" "[]"] c(2) by simp
  ultimately show ?thesis
    using prints_bind [OF _ prints_hex_loop [OF assms]] by metis
qed

lemma prints_hex8 [printing]:
  assumes "uart_ready dev"
  shows "prints dev (uart_put_hex8 dev v) (map hex_char (nibbles 2 (unat v)))"
proof -
  have lo: "arr_get hex_chars (unat (v AND 0xF)) = Some (hex_char (unat v mod 16))"
    using hex_get [of 0 v] by simp
  have n: "nibbles 2 (unat v) = [unat v div 16 mod 16, unat v mod 16]"
    by (simp add: numeral_2_eq_2)
  have "uart_put_hex8 dev v =
      (\<lambda>t. uart_putc dev (hex_char (unat v div 16 mod 16)) t \<bind> uart_putc dev (hex_char (unat v mod 16)))"
    by (simp add: fun_eq_iff uart_put_hex8_def hex_get lo)
  then show ?thesis
    using prints_bind [OF prints_putc [OF assms] prints_putc [OF assms]] unfolding n by simp
qed

text \<open>The steps of a program that only has to be shown to return, and a step under a condition.\<close>

lemmas print_steps = prints_then [OF prints_cstr] prints_then [OF prints_cline] prints_then [OF prints_u32]
  prints_then [OF prints_hex32]

lemma if_returns:
  assumes "\<exists>r. f \<bind> g = Some r \<and> P r" and "\<exists>r. g x = Some r \<and> P r"
  shows "\<exists>r. (if c then f else Some x) \<bind> g = Some r \<and> P r"
  using assms by simp

lemma uart_init_115200:
  obtains t' where "uart_init dev 115200 t = Some t'" "writes_to UART0_DR t' = writes_to UART0_DR t"
proof -
  have "SYSCTL_RCGC1 \<noteq> UART0_DR" "SYSCTL_RCGC2 \<noteq> UART0_DR" "UART0_CTL \<noteq> UART0_DR" "UART0_IBRD \<noteq> UART0_DR"
    "UART0_FBRD \<noteq> UART0_DR" "UART0_LCRH \<noteq> UART0_DR"
    by (simp_all add: uart_regs)
  then show ?thesis
    using that by (simp add: uart_init_def udiv_def Let_def traffic)
qed

section \<open>Properties\<close>

text \<open>\<open>uart_putc\<close> has no timeout: it fails to return exactly when the queue is full at every
  read of the flag register; when it returns, its accesses are reads of that register, the last
  one showing room, and then the one write of the character.\<close>

theorem uart_putc_returns:
  "case uart_putc dev c t of
     None \<Rightarrow> \<forall>n. tx_full (dev (after_reads dev UART0_FR n t) UART0_FR)
   | Some t' \<Rightarrow> \<exists>evs v. t' = t @ evs @ [Rd UART0_FR v, Wr UART0_DR (ucast c)] \<and> only_reads UART0_FR evs \<and> \<not> tx_full v"
proof (cases "\<exists>n. \<not> tx_full (dev (after_reads dev UART0_FR n t) UART0_FR)")
  case True
  then obtain evs v where e: "spin_while dev UART0_FR tx_full t = Some (t @ evs)" "only_reads UART0_FR evs" "evs \<noteq> []"
    "last evs = Rd UART0_FR v" "\<not> tx_full v"
    using spin_while_ends by metis
  then obtain es where "evs = es @ [Rd UART0_FR v]"
    by (metis append_butlast_last_id)
  then show ?thesis
    using e by (auto simp: uart_putc_def reg_write_def)
next
  case False
  then have "spin_while dev UART0_FR tx_full t = None"
    using spin_while_returns [of dev UART0_FR tx_full t] by (metis not_None_eq)
  then show ?thesis
    using False by (simp add: uart_putc_def)
qed

text \<open>On a port that makes room, printing a string returns, puts exactly its bytes in the data
  register, each line feed preceded by a carriage return, and stops at the terminator; an
  array without one is read past its end.\<close>

theorem uart_puts_exact:
  assumes "uart_ready dev" and "0 \<notin> set s"
  shows "(\<exists>evs. uart_puts dev (s @ 0 # rest) t = Some (t @ evs) \<and> uart_only evs \<and>
      writes_to UART0_DR evs = map ucast (crlf s)) \<and>
    uart_puts dev s t = None"
proof
  show "\<exists>evs. uart_puts dev (s @ 0 # rest) t = Some (t @ evs) \<and> uart_only evs \<and> writes_to UART0_DR evs = map ucast (crlf s)"
    using prints_puts [OF assms, of rest] by (simp add: prints_iff)
  show "uart_puts dev s t = None"
    using assms(2)
  proof (induction s arbitrary: t)
    case (Cons c s)
    then have "uart_puts dev s t = None" for t
      by simp
    then have "uart_putc dev c t \<bind> uart_puts dev s = None" for t
      by (cases "uart_putc dev c t") simp_all
    then show ?case
      using Cons.prems by (cases "uart_putc dev 13 t") auto
  qed simp
qed

definition uart_idle :: device where
  "uart_idle t a = (if a = UART0_FR then 0x90 else 0)"

lemma uart_idle_ready: "uart_ready uart_idle"
  by (auto simp: uart_ready_def gives_way_def uart_idle_def tx_full_def UART_FR_TXFF_def push_bit_eq_mult)

theorem uart_puts_exact_witness:
  "\<exists>t. uart_puts uart_idle (cline ''ok'') [] = Some t \<and> writes_to UART0_DR t = [111, 107, 13, 10]"
  using uart_puts_exact [OF uart_idle_ready, of "map of_char ''ok'' @ [10]" "[]" "[]"]
  by (auto simp: cline_def crlf_def)

text \<open>Printed numbers read back. Decimal output is between 1 and 10 digits without leading zeros
  whose value is the number; hexadecimal output is \<open>0x\<close> and 8 digits whose value is the number.\<close>

theorem uart_numbers_read_back:
  assumes "uart_ready dev"
  shows "(\<exists>ds evs. uart_put_u32 dev v t = Some (t @ evs) \<and> uart_only evs \<and>
      writes_to UART0_DR evs = map (ucast \<circ> digit_char) ds \<and> number_of 10 ds = unat v \<and>
      list_all (\<lambda>d. d < 10) ds \<and> 1 \<le> length ds \<and> length ds \<le> 10 \<and> (hd ds = 0 \<longrightarrow> v = 0)) \<and>
    (\<exists>hs evs. uart_put_hex32 dev v t = Some (t @ evs) \<and> uart_only evs \<and>
      writes_to UART0_DR evs = [48, 120] @ map (ucast \<circ> hex_char) hs \<and> number_of 16 hs = unat v \<and>
      list_all (\<lambda>d. d < 16) hs \<and> length hs = 8)"
proof
  have v: "unat v < 10 ^ 10" "unat v < 16 ^ 8"
    using unsigned_less [of v, where ?'a = nat] by simp_all
  let ?ds = "decimal (unat v)"
  have "number_of 10 ?ds = unat v" "list_all (\<lambda>d. d < 10) ?ds" "1 \<le> length ?ds" "length ?ds \<le> 10" "hd ?ds = 0 \<longrightarrow> v = 0"
    using digits_value [of "unat v"] digits_below [of _ "unat v"] digits_length [OF v(1)] digits_head [of "unat v"]
    by (auto simp: decimal_def list_all_iff number_of_def unat_eq_zero Suc_le_eq)
  moreover obtain evs where "uart_put_u32 dev v t = Some (t @ evs)" "uart_only evs"
    "writes_to UART0_DR evs = map ucast (map digit_char ?ds)"
    using prints_runs [OF prints_u32 [OF assms]] by blast
  ultimately show "\<exists>ds evs. uart_put_u32 dev v t = Some (t @ evs) \<and> uart_only evs \<and>
      writes_to UART0_DR evs = map (ucast \<circ> digit_char) ds \<and> number_of 10 ds = unat v \<and>
      list_all (\<lambda>d. d < 10) ds \<and> 1 \<le> length ds \<and> length ds \<le> 10 \<and> (hd ds = 0 \<longrightarrow> v = 0)"
    by (intro exI [of _ ?ds] exI [of _ evs]) simp
  let ?hs = "nibbles 8 (unat v)"
  have "number_of 16 ?hs = unat v" "list_all (\<lambda>d. d < 16) ?hs"
    using nibbles_value [of 8 "unat v"] nibbles_below [of _ 8 "unat v"] v(2) by (simp_all add: list_all_iff)
  moreover obtain evs where "uart_put_hex32 dev v t = Some (t @ evs)" "uart_only evs"
    "writes_to UART0_DR evs = map ucast ([48, 120] @ map hex_char ?hs)"
    using prints_runs [OF prints_hex32 [OF assms]] by blast
  ultimately show "\<exists>hs evs. uart_put_hex32 dev v t = Some (t @ evs) \<and> uart_only evs \<and>
      writes_to UART0_DR evs = [48, 120] @ map (ucast \<circ> hex_char) hs \<and> number_of 16 hs = unat v \<and>
      list_all (\<lambda>d. d < 16) hs \<and> length hs = 8"
    by (intro exI [of _ ?hs] exI [of _ evs]) simp
qed

theorem uart_numbers_read_back_witness:
  "\<exists>ds t. uart_put_u32 uart_idle 4294967295 [] = Some t \<and> writes_to UART0_DR t = map (ucast \<circ> digit_char) ds \<and>
     number_of 10 ds = 4294967295"
  using uart_numbers_read_back [OF uart_idle_ready, of 4294967295 "[]"] by auto

end
