(* ===== verification/Crc.thy ===== *)
theory Crc
  imports Prelude
begin

text \<open>
  CRC-16/CCITT-FALSE as computed by \<open>crc16_ccitt_update\<close> and \<open>crc16_ccitt\<close> of
  \<open>code/portable/frame/frame.c\<close>, and the facts that make it a checksum: the
  update is linear over exclusive or and injective, the whole computation is the
  textbook long division by the generator polynomial, and it detects every
  error confined to two adjacent bytes. The locale \<open>checksum\<close> is the interface
  the frame parser relies on.
\<close>

section \<open>The code\<close>

text \<open>One round of the loop body: shift out the top bit and reduce.\<close>

definition crc_step :: "u16 \<Rightarrow> u16" where
  "crc_step crc = (if crc AND 0x8000 \<noteq> 0 then push_bit 1 crc XOR 0x1021 else push_bit 1 crc)"

definition crc16_ccitt_update :: "u16 \<Rightarrow> u8 \<Rightarrow> u16" where
  "crc16_ccitt_update crc byte = (crc_step ^^ 8) (crc XOR push_bit 8 (ucast byte))"

text \<open>The loop \<open>for (i = 0; i < len; i++)\<close>, reading \<open>data[i]\<close>.\<close>

function crc16_loop :: "u8 list \<Rightarrow> nat \<Rightarrow> nat \<Rightarrow> u16 \<Rightarrow> u16 option" where
  "crc16_loop data len i crc =
     (if i < len then
        do {
          b \<leftarrow> arr_get data i;
          crc16_loop data len (Suc i) (crc16_ccitt_update crc b)
        }
      else Some crc)"
  by pat_completeness auto
termination
  by (relation "measure (\<lambda>(data, len, i, crc). len - i)") auto

declare crc16_loop.simps [simp del]

definition crc16_ccitt :: "u8 list \<Rightarrow> nat \<Rightarrow> u16 option" where
  "crc16_ccitt data len = crc16_loop data len 0 0xFFFF"

section \<open>Checksums as an interface\<close>

text \<open>
  What a receiver needs of its checksum: the update is injective in the state,
  and two consecutive bytes are recovered from the state they lead to. Errors
  in one byte, or in two adjacent ones, then always show.
\<close>

locale checksum =
  fixes upd :: "'c \<Rightarrow> 'b \<Rightarrow> 'c"
  assumes upd_state: "upd c x = upd d x \<Longrightarrow> c = d"
    and upd_pair: "upd (upd c x) y = upd (upd c x') y' \<Longrightarrow> x = x' \<and> y = y'"
begin

lemma fold_state: "foldl upd c xs = foldl upd d xs \<longleftrightarrow> c = d"
  by (induction xs arbitrary: c d) (auto dest: upd_state)

lemma upd_byte: "upd c x = upd c y \<longleftrightarrow> x = y"
  using upd_pair [of c x x y x] by auto

lemma burst_detected:
  "foldl upd c (xs @ [a, b] @ ys) = foldl upd c (xs @ [a', b'] @ ys) \<longleftrightarrow> a = a' \<and> b = b'"
  by (auto simp: fold_state dest: upd_pair)

lemma byte_detected:
  "foldl upd c (xs @ [a] @ ys) = foldl upd c (xs @ [a'] @ ys) \<longleftrightarrow> a = a'"
  by (simp add: fold_state upd_byte)

end

section \<open>Linearity and injectivity\<close>

lemma bit15_test: "x AND 0x8000 \<noteq> 0 \<longleftrightarrow> bit x 15" for x :: u16
  using and_bit_nonzero [of x 15] by simp

text \<open>The simplifier moves \<open>bit\<close> of a word numeral to the integers.\<close>

lemma bit_0x8000: "bit (0x8000 :: int) n \<longleftrightarrow> n = 15"
  using bit_exp_iff [where ?'a = int, of 15 n] by auto

lemma crc_step_alt:
  "crc_step c = (if bit c 15 then push_bit 1 c XOR 0x1021 else push_bit 1 c)"
  by (simp add: crc_step_def bit15_test)

lemma crc_step_xor: "crc_step (a XOR b) = crc_step a XOR crc_step b"
  by (simp add: crc_step_alt bit_simps ac_simps)

lemma push1_no_top: "\<not> bit c 15 \<Longrightarrow> push_bit 1 c = 0 \<Longrightarrow> c = 0" for c :: u16
proof (rule bit_word_eqI)
  fix n assume top: "\<not> bit c 15" and z: "push_bit 1 c = 0" and n: "n < LENGTH(16)"
  have "bit (push_bit 1 c) (Suc n) \<longleftrightarrow> bit c n" if "n < 15"
    using that by (simp add: bit_simps)
  then show "bit c n \<longleftrightarrow> bit 0 n"
    using top z n by (cases "n = 15") (auto simp: less_Suc_eq numeral_eq_Suc)
qed

lemma crc_step_eq_0: "crc_step c = 0 \<longleftrightarrow> c = 0"
proof
  assume z: "crc_step c = 0"
  have "\<not> bit (push_bit 1 c) 0" by (simp only: bit_push_bit_iff) simp
  moreover have "bit (0x1021 :: u16) 0" by simp
  ultimately have "\<not> bit c 15"
    using z by (metis bit_0_eq bot_apply bot_bool_def bit_xor_iff crc_step_alt)
  then show "c = 0" using z push1_no_top by (simp add: crc_step_alt)
qed (simp add: crc_step_alt)

lemma crc_step_inj: "crc_step a = crc_step b \<longleftrightarrow> a = b"
  using crc_step_eq_0 [of "a XOR b"] by (simp add: crc_step_xor word_xor_eq_0)

lemma crc_steps_xor: "(crc_step ^^ n) (a XOR b) = (crc_step ^^ n) a XOR (crc_step ^^ n) b"
  by (induction n) (simp_all add: crc_step_xor)

lemma crc_steps_inj: "(crc_step ^^ n) a = (crc_step ^^ n) b \<longleftrightarrow> a = b"
  by (induction n) (simp_all add: crc_step_inj)

text \<open>A value below 256 is only shifted by eight rounds: no bit reaches the top.\<close>

lemma crc_steps_byte: "(crc_step ^^ 8) (ucast b) = push_bit 8 (ucast b)" for b :: u8
proof -
  have "n \<le> 8 \<Longrightarrow> (crc_step ^^ n) (ucast b) = push_bit n (ucast b)" for n
  proof (induction n)
    case (Suc n)
    have "\<not> bit (push_bit n (ucast b :: u16)) 15"
      using Suc.prems by (auto simp: bit_simps dest: bit_imp_le_length)
    with Suc show ?case by (simp add: crc_step_alt)
  qed simp
  then show ?thesis by simp
qed

lemma update_inj_state: "crc16_ccitt_update a x = crc16_ccitt_update b x \<longleftrightarrow> a = b"
  by (simp add: crc16_ccitt_update_def crc_steps_inj word_xor_cancel_right)

lemma update_two:
  "crc16_ccitt_update (crc16_ccitt_update c x) y =
   (crc_step ^^ 16) (c XOR (push_bit 8 (ucast x) XOR ucast y))"
proof -
  have "crc16_ccitt_update (crc16_ccitt_update c x) y =
    (crc_step ^^ 8) ((crc_step ^^ 8) (c XOR push_bit 8 (ucast x)) XOR (crc_step ^^ 8) (ucast y))"
    by (simp add: crc16_ccitt_update_def crc_steps_byte)
  also have "\<dots> = (crc_step ^^ (8 + 8)) (c XOR (push_bit 8 (ucast x) XOR ucast y))"
    by (simp only: crc_steps_xor [symmetric] funpow_add comp_apply xor.assoc)
  finally show ?thesis by simp
qed

lemma update_two_inj:
  "crc16_ccitt_update (crc16_ccitt_update c x) y = crc16_ccitt_update (crc16_ccitt_update c x') y'
   \<longleftrightarrow> x = x' \<and> y = y'"
  by (simp add: update_two crc_steps_inj word_xor_cancel_left byte_pair_inj)

interpretation crc: checksum crc16_ccitt_update
  by unfold_locales (simp_all add: update_inj_state update_two_inj)

section \<open>The loop\<close>

text \<open>The register after a list of bytes.\<close>

abbreviation crc_bytes :: "u16 \<Rightarrow> u8 list \<Rightarrow> u16" where
  "crc_bytes \<equiv> foldl crc16_ccitt_update"

lemma crc16_loop_eq:
  "len \<le> length data \<Longrightarrow> i \<le> len \<Longrightarrow>
   crc16_loop data len i crc = Some (crc_bytes crc (take (len - i) (drop i data)))"
proof (induction data len i crc rule: crc16_loop.induct)
  case (1 data len i crc)
  show ?case
  proof (cases "i < len")
    case True
    then have "take (len - i) (drop i data) = data ! i # take (len - Suc i) (drop (Suc i) data)"
      using 1 by (metis Cons_nth_drop_Suc Suc_diff_Suc less_le_trans take_Suc_Cons)
    with 1 True show ?thesis by (subst crc16_loop.simps) (simp add: mem)
  next
    case False
    with 1 show ?thesis by (subst crc16_loop.simps) simp
  qed
qed

lemma crc16_loop_oob:
  "i < len \<Longrightarrow> length data < len \<Longrightarrow> crc16_loop data len i crc = None"
proof (induction data len i crc rule: crc16_loop.induct)
  case (1 data len i crc)
  then show ?case
    by (subst crc16_loop.simps) (cases "i < length data"; simp add: mem arr_get_def)
qed

lemma crc16_ccitt_eq:
  "crc16_ccitt data len =
     (if len \<le> length data then Some (crc_bytes 0xFFFF (take len data)) else None)"
  by (auto simp: crc16_ccitt_def crc16_loop_eq intro: crc16_loop_oob)

section \<open>Long division\<close>

text \<open>
  The reference: bit strings, most significant bit first, are polynomials over
  the two-element field; \<open>poly_mod\<close> divides by
  \<open>x^16 + x^12 + x^5 + 1\<close>, whose coefficients below \<open>x^16\<close> are \<open>ccitt_poly\<close>.
\<close>

definition byte_bits :: "u8 \<Rightarrow> bool list" where
  "byte_bits b = map (bit b) [7, 6, 5, 4, 3, 2, 1, 0]"

definition word_bits :: "u16 \<Rightarrow> bool list" where
  "word_bits w = map (bit w) [15, 14, 13, 12, 11, 10, 9, 8, 7, 6, 5, 4, 3, 2, 1, 0]"

fun poly_add :: "bool list \<Rightarrow> bool list \<Rightarrow> bool list" where
  "poly_add xs [] = xs"
| "poly_add [] ys = ys"
| "poly_add (x # xs) (y # ys) = (x \<noteq> y) # poly_add xs ys"

definition ccitt_poly :: "bool list" where
  "ccitt_poly = [False, False, False, True, False, False, False, False,
                 False, False, True, False, False, False, False, True]"

lemma length_poly_add [simp]: "length (poly_add xs ys) = max (length xs) (length ys)"
  by (induction xs ys rule: poly_add.induct) simp_all

lemma length_ccitt_poly [simp]: "length ccitt_poly = 16"
  by (simp add: ccitt_poly_def)

fun poly_mod :: "bool list \<Rightarrow> bool list" where
  "poly_mod [] = []"
| "poly_mod (b # bs) =
     (if length bs < 16 then b # bs
      else poly_mod (if b then poly_add bs ccitt_poly else bs))"

lemma poly_mod_short: "length xs \<le> 16 \<Longrightarrow> poly_mod xs = xs"
  by (cases xs) simp_all

lemma poly_add_Nil [simp]: "poly_add [] ys = ys"
  by (cases ys) auto

lemma poly_add_commute: "poly_add xs ys = poly_add ys xs"
  by (induction xs ys rule: poly_add.induct) auto

lemma poly_add_assoc: "poly_add (poly_add xs ys) zs = poly_add xs (poly_add ys zs)"
proof (induction xs ys arbitrary: zs rule: poly_add.induct)
  case (3 x xs y ys)
  then show ?case by (cases zs) auto
qed auto

lemma poly_add_zeros: "poly_add xs (replicate (length xs) False) = xs"
  by (induction xs) simp_all

lemma poly_add_pad: "length xs < length ys \<Longrightarrow> poly_add (xs @ [False]) ys = poly_add xs ys"
  by (induction xs ys rule: poly_add.induct) (auto simp: Suc_le_eq neq_Nil_conv)

lemma length_word_bits [simp]: "length (word_bits w) = 16"
  by (simp add: word_bits_def)

lemma word_bits_push: "word_bits (push_bit 1 w) = tl (word_bits w) @ [False]"
  by (simp add: word_bits_def bit_simps)

lemma word_bits_xor: "word_bits (a XOR b) = poly_add (word_bits a) (word_bits b)"
  by (simp add: word_bits_def bit_simps)

lemma word_bits_poly: "word_bits 0x1021 = ccitt_poly"
  by (simp add: word_bits_def ccitt_poly_def)

lemma word_bits_ones: "word_bits 0xFFFF = replicate 16 True"
  by (simp add: word_bits_def numeral_eq_Suc)

text \<open>The bit-serial form of the register: one message bit per round.\<close>

definition crc_shift_bit :: "u16 \<Rightarrow> bool \<Rightarrow> u16" where
  "crc_shift_bit c m = (if bit c 15 \<noteq> m then push_bit 1 c XOR 0x1021 else push_bit 1 c)"

lemma crc_step_shift: "crc_step (c XOR (if m then 0x8000 else 0)) = crc_shift_bit c m"
proof -
  have "push_bit 1 (c XOR 0x8000) = push_bit 1 c XOR push_bit 1 0x8000"
    by (rule push_bit_xor)
  moreover have "push_bit 1 (0x8000 :: u16) = 0"
    by code_simp
  ultimately have "push_bit 1 (c XOR 0x8000) = push_bit 1 c"
    by (simp only: xor.right_neutral)
  moreover have "bit (c XOR 0x8000) 15 \<longleftrightarrow> \<not> bit c 15"
    by (simp only: bit_xor_iff) simp
  ultimately show ?thesis
    by (auto simp: crc_step_alt crc_shift_bit_def)
qed

lemma byte_top_split:
  fixes b :: u8
  assumes "n \<le> 7"
  shows "push_bit (8 + n) (ucast b :: u16) =
    (if bit b (7 - n) then 0x8000 else 0) XOR take_bit 15 (push_bit (8 + n) (ucast b))"
proof (rule bit_word_eqI)
  fix m assume m: "m < LENGTH(16)"
  show "bit (push_bit (8 + n) (ucast b :: u16)) m =
    bit ((if bit b (7 - n) then 0x8000 else 0) XOR take_bit 15 (push_bit (8 + n) (ucast b :: u16))) m"
  proof (cases "m = 15")
    case True
    have "7 - n < (16 :: nat)" by arith
    then show ?thesis using True assms by (simp add: bit_simps bit_0x8000)
  next
    case False
    then show ?thesis using m by (auto simp: bit_simps bit_0x8000)
  qed
qed

lemma byte_low_step:
  fixes b :: u8
  assumes "n \<le> 7"
  shows "crc_step (take_bit 15 (push_bit (8 + n) (ucast b))) = push_bit (8 + Suc n) (ucast b)"
proof -
  have "\<not> bit (take_bit 15 (push_bit (8 + n) (ucast b)) :: u16) 15"
    by (simp only: bit_take_bit_iff) simp
  then have "crc_step (take_bit 15 (push_bit (8 + n) (ucast b))) =
    push_bit 1 (take_bit 15 (push_bit (8 + n) (ucast b)))"
    by (simp only: crc_step_alt if_False)
  also have "\<dots> = push_bit (8 + Suc n) (ucast b)"
    by (rule bit_word_eqI) (auto simp: bit_simps)
  finally show ?thesis .
qed

text \<open>Peel the bits off a byte one at a time.\<close>

lemma crc_steps_bits:
  "n \<le> 8 \<Longrightarrow> (crc_step ^^ n) (c XOR push_bit 8 (ucast b)) =
    foldl crc_shift_bit c (map (bit b) (rev [8 - n..<8])) XOR push_bit (8 + n) (ucast b)"
  for b :: u8
proof (induction n)
  case (Suc n)
  let ?f = "foldl crc_shift_bit c (map (bit b) (rev [8 - n..<8]))"
  from Suc.prems have n: "n \<le> 7" by simp
  have idx: "rev [8 - Suc n..<8] = rev [8 - n..<8] @ [7 - n]"
    using Suc.prems by (simp add: upt_conv_Cons Suc_diff_le numeral_eq_Suc)
  have "(crc_step ^^ Suc n) (c XOR push_bit 8 (ucast b)) = crc_step (?f XOR push_bit (8 + n) (ucast b))"
    using Suc by simp
  also have "\<dots> = crc_step (?f XOR (if bit b (7 - n) then 0x8000 else 0))
      XOR crc_step (take_bit 15 (push_bit (8 + n) (ucast b)))"
    by (subst byte_top_split [OF n]) (simp only: crc_step_xor xor.assoc)
  also have "\<dots> = crc_shift_bit ?f (bit b (7 - n)) XOR push_bit (8 + Suc n) (ucast b)"
    by (simp only: crc_step_shift byte_low_step [OF n])
  finally show ?case
    by (simp only: idx map_append foldl_append list.map foldl.simps)
qed simp

lemma update_bits: "crc16_ccitt_update c b = foldl crc_shift_bit c (byte_bits b)"
proof -
  have "push_bit 16 (ucast b :: u16) = 0"
    by (rule bit_word_eqI) (simp add: bit_simps)
  with crc_steps_bits [of 8 c b] show ?thesis
    by (simp add: crc16_ccitt_update_def byte_bits_def upt_rec numeral_eq_Suc)
qed

lemma crc_bytes_bits: "crc_bytes c xs = foldl crc_shift_bit c (concat (map byte_bits xs))"
  by (induction xs arbitrary: c) (simp_all add: update_bits)

lemma poly_mod_register:
  "poly_mod (poly_add (word_bits c) (ms @ replicate 16 False)) = word_bits (foldl crc_shift_bit c ms)"
proof (induction ms arbitrary: c)
  case Nil
  then show ?case
    using poly_add_zeros [of "word_bits c"] by (simp add: poly_mod_short)
next
  case (Cons m ms)
  obtain r where w: "word_bits c = bit c 15 # r" "length r = 15"
    by (simp add: word_bits_def)
  have r: "word_bits (push_bit 1 c) = r @ [False]"
    using word_bits_push [of c] by (simp only: w list.sel)
  have pad: "poly_add r (ms @ replicate 16 False) = poly_add (r @ [False]) (ms @ replicate 16 False)"
    by (simp add: poly_add_pad w)
  have "poly_mod (poly_add (word_bits c) ((m # ms) @ replicate 16 False)) =
    poly_mod (if bit c 15 \<noteq> m then poly_add (poly_add r (ms @ replicate 16 False)) ccitt_poly
              else poly_add r (ms @ replicate 16 False))"
    by (simp add: w)
  also have "\<dots> = poly_mod (poly_add (word_bits (crc_shift_bit c m)) (ms @ replicate 16 False))"
    by (auto simp: crc_shift_bit_def word_bits_xor word_bits_poly r pad poly_add_assoc
        simp del: One_nat_def
        intro!: arg_cong [where f = poly_mod] poly_add_commute arg_cong2 [where f = poly_add])
  finally show ?case by (simp add: Cons.IH)
qed

section \<open>Properties\<close>

text \<open>C18. The bitwise shift register computes the CRC of the standard: the result of
  \<open>crc16_ccitt\<close> is the remainder of the message, followed by 16 zero bits and with its
  first 16 bits inverted (the initial value \<open>0xFFFF\<close>), on division by
  \<open>x^16 + x^12 + x^5 + 1\<close> over the two-element field; a length beyond the array reads
  out of bounds.\<close>

theorem crc16_is_polynomial_remainder:
  "map_option word_bits (crc16_ccitt data len) =
     (if len \<le> length data
      then Some (poly_mod (poly_add (replicate 16 True)
             (concat (map byte_bits (take len data)) @ replicate 16 False)))
      else None)"
  using poly_mod_register [of "0xFFFF"]
  by (simp add: crc16_ccitt_eq crc_bytes_bits word_bits_ones)

text \<open>The published check value: the CRC of the nine ASCII digits is \<open>0x29B1\<close>.\<close>

theorem crc16_check_value:
  "crc16_ccitt [0x31, 0x32, 0x33, 0x34, 0x35, 0x36, 0x37, 0x38, 0x39] 9 = Some 0x29B1"
  by code_simp

text \<open>Every error confined to two adjacent bytes changes the CRC: two messages that
  differ only there have the same CRC exactly when they are equal.\<close>

theorem crc16_detects_two_byte_errors:
  "n = length xs + 2 + length ys \<Longrightarrow>
   crc16_ccitt (xs @ [a, b] @ ys) n = crc16_ccitt (xs @ [a', b'] @ ys) n \<longleftrightarrow> a = a' \<and> b = b'"
  using crc.burst_detected [of "0xFFFF" xs a b ys a' b'] by (simp add: crc16_ccitt_eq)

theorem crc16_detects_two_byte_errors_witness:
  "crc16_ccitt ([1] @ [2, 3] @ [4]) 4 \<noteq> crc16_ccitt ([1] @ [2, 7] @ [4]) 4"
  using crc16_detects_two_byte_errors [of 4 "[1]" "[4]" 2 3 2 7] by simp

end
