(* ===== verification/Transitions.thy ===== *)
theory Transitions
  imports Main "HOL-Library.Monad_Syntax"
begin

text \<open>
  Transition systems. \<open>invariant_system\<close> is a step relation with an invariant that each step keeps,
  \<open>forward_simulation\<close> one whose steps an abstract system follows, each by a step or by none. The
  access-level model of example 04 (\<open>Spsc_Access\<close>) and the consumer loop it refines (\<open>Spsc_Demo\<close>)
  are instances. \<open>mealy_refinement\<close> is a machine that answers every input with an event and refines
  an abstract one that answers alike; the receivers of \<open>Frame\<close> and \<open>Isotp\<close> are instances.
\<close>

section \<open>Machines that answer each input\<close>

text \<open>A machine on a list of inputs, with the answers it gives; \<open>None\<close> is a faulty access.\<close>

fun machine_run :: "('s \<Rightarrow> 'x \<Rightarrow> ('s \<times> 'e) option) \<Rightarrow> 's \<Rightarrow> 'x list \<Rightarrow> ('s \<times> 'e list) option" where
  "machine_run step s [] = Some (s, [])"
| "machine_run step s (x # xs) = do {
     (s1, e) \<leftarrow> step s x;
     (s2, es) \<leftarrow> machine_run step s1 xs;
     Some (s2, e # es)
   }"

fun spec_machine_run :: "('a \<Rightarrow> 'x \<Rightarrow> 'a \<times> 'e) \<Rightarrow> 'a \<Rightarrow> 'x list \<Rightarrow> 'a \<times> 'e list" where
  "spec_machine_run spec a [] = (a, [])"
| "spec_machine_run spec a (x # xs) =
     (let (a1, e) = spec a x; (a2, es) = spec_machine_run spec a1 xs in (a2, e # es))"

lemma machine_run_append:
  "machine_run step s (xs @ ys) = do {
     (s1, es1) \<leftarrow> machine_run step s xs;
     (s2, es2) \<leftarrow> machine_run step s1 ys;
     Some (s2, es1 @ es2)
   }"
  by (induction xs arbitrary: s) (auto split: bind_splits prod.splits)

lemma machine_run_length: "machine_run step s xs = Some (s', es) \<Longrightarrow> length es = length xs"
  by (induction xs arbitrary: s es) (auto split: bind_splits)

lemma spec_machine_run_length: "length (snd (spec_machine_run spec a xs)) = length xs"
  by (induction xs arbitrary: a) (auto simp: Let_def split_beta)

locale mealy_refinement =
  fixes step :: "'s \<Rightarrow> 'x \<Rightarrow> ('s \<times> 'e) option"
    and spec :: "'a \<Rightarrow> 'x \<Rightarrow> 'a \<times> 'e"
    and rel :: "'s \<Rightarrow> 'a \<Rightarrow> bool"
    and ok :: "'x \<Rightarrow> bool"
  assumes answers: "rel s a \<Longrightarrow> ok x \<Longrightarrow> \<exists>s'. step s x = Some (s', snd (spec a x)) \<and> rel s' (fst (spec a x))"
begin

lemma run_answers:
  assumes "rel s a" and "list_all ok xs"
  shows "\<exists>s'. machine_run step s xs = Some (s', snd (spec_machine_run spec a xs)) \<and>
    rel s' (fst (spec_machine_run spec a xs))"
  using assms
proof (induction xs arbitrary: s a)
  case (Cons x xs)
  then obtain s1 where s1: "step s x = Some (s1, snd (spec a x))" "rel s1 (fst (spec a x))"
    using answers by fastforce
  then show ?case
    using Cons.IH [OF s1(2)] Cons.prems(2) by (auto simp: Let_def split_beta)
qed simp

end

section \<open>Steps and invariants\<close>

locale invariant_system =
  fixes step :: "'c \<Rightarrow> 'c \<Rightarrow> bool"
    and inv :: "'c \<Rightarrow> bool"
  assumes preserved: "step c c' \<Longrightarrow> inv c \<Longrightarrow> inv c'"
begin

lemma run_inv: "step\<^sup>*\<^sup>* c c' \<Longrightarrow> inv c \<Longrightarrow> inv c'"
  by (induction rule: rtranclp_induct) (auto intro: preserved)

end

locale forward_simulation = invariant_system step inv
  for step :: "'c \<Rightarrow> 'c \<Rightarrow> bool" and inv :: "'c \<Rightarrow> bool" +
  fixes astep :: "'a \<Rightarrow> 'a \<Rightarrow> bool"
    and abstraction :: "'c \<Rightarrow> 'a"
  assumes follows: "step c c' \<Longrightarrow> inv c \<Longrightarrow> abstraction c' = abstraction c \<or> astep (abstraction c) (abstraction c')"
begin

lemma run_follows: "step\<^sup>*\<^sup>* c c' \<Longrightarrow> inv c \<Longrightarrow> astep\<^sup>*\<^sup>* (abstraction c) (abstraction c')"
proof (induction rule: rtranclp_induct)
  case (step c1 c2)
  then show ?case
    using follows [OF step(2) run_inv [OF step(1) step(4)]] by (auto intro: rtranclp.rtrancl_into_rtrancl)
qed simp

text \<open>What the abstract system keeps, the concrete one keeps through the abstraction.\<close>

lemma transfers:
  assumes "step\<^sup>*\<^sup>* c c'" and "inv c" and "\<And>a a'. astep a a' \<Longrightarrow> J a \<Longrightarrow> J a'" and "J (abstraction c)"
  shows "J (abstraction c')"
  using run_follows [OF assms(1,2)] assms(4) by (induction rule: rtranclp_induct) (auto intro: assms(3))

end

end
