(* ===== verification/Frame.thy ===== *)
theory Frame
  imports Crc Transitions
begin

text \<open>
  The byte-at-a-time frame receiver of \<open>code/portable/frame/frame.h\<close> and
  \<open>frame.c\<close>: its state record, \<open>frame_reset\<close>, \<open>frame_feed\<close> and the name
  functions; then an abstract receiver that only remembers the bytes since the
  start mark, the refinement of the one by the other, and what follows for the
  wire: the round trip with the encoder, soundness of a completed frame,
  rejection of corrupted frames, resynchronisation and the counters.
\<close>

section \<open>Constants and data\<close>

definition FRAME_STX :: u8 where "FRAME_STX = 0x02"
definition FRAME_ETX :: u8 where "FRAME_ETX = 0x03"
definition FRAME_MAX_PAYLOAD :: nat where "FRAME_MAX_PAYLOAD = 64"

text \<open>\<open>FRAME_ST_COUNT\<close> stands for every value that is not a state of the machine.\<close>

datatype frame_state =
    FRAME_ST_IDLE | FRAME_ST_LEN | FRAME_ST_PAYLOAD | FRAME_ST_CRC_LO
  | FRAME_ST_CRC_HI | FRAME_ST_ETX | FRAME_ST_COUNT

datatype frame_event =
    FRAME_EV_NONE | FRAME_EV_COMPLETE | FRAME_EV_ERR_LENGTH | FRAME_EV_ERR_CRC
  | FRAME_EV_ERR_FRAMING

text \<open>The enumeration's values, and the order C gives them.\<close>

fun frame_state_num :: "frame_state \<Rightarrow> nat" where
  "frame_state_num FRAME_ST_IDLE = 0"
| "frame_state_num FRAME_ST_LEN = 1"
| "frame_state_num FRAME_ST_PAYLOAD = 2"
| "frame_state_num FRAME_ST_CRC_LO = 3"
| "frame_state_num FRAME_ST_CRC_HI = 4"
| "frame_state_num FRAME_ST_ETX = 5"
| "frame_state_num FRAME_ST_COUNT = 6"

lemma frame_state_num_inj: "frame_state_num a = frame_state_num b \<Longrightarrow> a = b"
  by (cases a; cases b) simp_all

instantiation frame_state :: linorder
begin

definition less_eq_frame_state :: "frame_state \<Rightarrow> frame_state \<Rightarrow> bool" where
  "less_eq_frame_state a b \<longleftrightarrow> frame_state_num a \<le> frame_state_num b"

definition less_frame_state :: "frame_state \<Rightarrow> frame_state \<Rightarrow> bool" where
  "less_frame_state a b \<longleftrightarrow> frame_state_num a < frame_state_num b"

instance
  by standard (auto simp: less_eq_frame_state_def less_frame_state_def intro: frame_state_num_inj)

end

lemma frame_state_lt_count: "s < FRAME_ST_COUNT \<longleftrightarrow> s \<noteq> FRAME_ST_COUNT"
  by (cases s) (simp_all add: less_frame_state_def)

record frame_parser =
  fp_state :: frame_state
  fp_payload :: "u8 list"
  fp_length :: u8
  fp_index :: u8
  fp_crc_received :: u16
  fp_crc_computed :: u16
  fp_frames_ok :: u32
  fp_err_length :: u32
  fp_err_crc :: u32
  fp_err_framing :: u32
  fp_bytes_discarded :: u32

section \<open>Operations\<close>

definition frame_reset :: "frame_parser \<Rightarrow> frame_parser" where
  "frame_reset p = p\<lparr>fp_state := FRAME_ST_IDLE, fp_length := 0, fp_index := 0,
     fp_crc_received := 0, fp_crc_computed := 0xFFFF\<rparr>"

text \<open>One byte in, one event out; \<open>None\<close> is a store outside \<open>payload\<close>.\<close>

definition frame_feed :: "frame_parser \<Rightarrow> u8 \<Rightarrow> (frame_parser \<times> frame_event) option" where
  "frame_feed p byte =
     (case fp_state p of
        FRAME_ST_IDLE \<Rightarrow>
          if byte = FRAME_STX
          then Some (p\<lparr>fp_length := 0, fp_index := 0, fp_crc_computed := 0xFFFF,
                       fp_state := FRAME_ST_LEN\<rparr>, FRAME_EV_NONE)
          else Some (p\<lparr>fp_bytes_discarded := fp_bytes_discarded p + 1\<rparr>, FRAME_EV_NONE)
      | FRAME_ST_LEN \<Rightarrow>
          if FRAME_MAX_PAYLOAD < unat byte
          then Some (p\<lparr>fp_err_length := fp_err_length p + 1, fp_state := FRAME_ST_IDLE\<rparr>,
                     FRAME_EV_ERR_LENGTH)
          else Some (p\<lparr>fp_length := byte,
                       fp_crc_computed := crc16_ccitt_update (fp_crc_computed p) byte,
                       fp_state := (if byte = 0 then FRAME_ST_CRC_LO else FRAME_ST_PAYLOAD)\<rparr>,
                     FRAME_EV_NONE)
      | FRAME_ST_PAYLOAD \<Rightarrow>
          do {
            buf \<leftarrow> arr_set (fp_payload p) (unat (fp_index p)) byte;
            let index = fp_index p + 1;
            Some (p\<lparr>fp_payload := buf, fp_index := index,
                    fp_crc_computed := crc16_ccitt_update (fp_crc_computed p) byte,
                    fp_state := (if fp_length p \<le> index then FRAME_ST_CRC_LO else fp_state p)\<rparr>,
                  FRAME_EV_NONE)
          }
      | FRAME_ST_CRC_LO \<Rightarrow>
          Some (p\<lparr>fp_crc_received := ucast byte, fp_state := FRAME_ST_CRC_HI\<rparr>, FRAME_EV_NONE)
      | FRAME_ST_CRC_HI \<Rightarrow>
          (let received = fp_crc_received p OR push_bit 8 (ucast byte)
           in if received \<noteq> fp_crc_computed p
              then Some (p\<lparr>fp_crc_received := received, fp_err_crc := fp_err_crc p + 1,
                           fp_state := FRAME_ST_IDLE\<rparr>, FRAME_EV_ERR_CRC)
              else Some (p\<lparr>fp_crc_received := received, fp_state := FRAME_ST_ETX\<rparr>, FRAME_EV_NONE))
      | FRAME_ST_ETX \<Rightarrow>
          if byte \<noteq> FRAME_ETX
          then Some (p\<lparr>fp_state := FRAME_ST_IDLE, fp_err_framing := fp_err_framing p + 1\<rparr>,
                     FRAME_EV_ERR_FRAMING)
          else Some (p\<lparr>fp_state := FRAME_ST_IDLE, fp_frames_ok := fp_frames_ok p + 1\<rparr>,
                     FRAME_EV_COMPLETE)
      | FRAME_ST_COUNT \<Rightarrow> Some (frame_reset p, FRAME_EV_NONE))"

fun frame_state_name :: "frame_state \<Rightarrow> string" where
  "frame_state_name FRAME_ST_IDLE = ''IDLE''"
| "frame_state_name FRAME_ST_LEN = ''LEN''"
| "frame_state_name FRAME_ST_PAYLOAD = ''PAYLOAD''"
| "frame_state_name FRAME_ST_CRC_LO = ''CRC_LO''"
| "frame_state_name FRAME_ST_CRC_HI = ''CRC_HI''"
| "frame_state_name FRAME_ST_ETX = ''ETX''"
| "frame_state_name FRAME_ST_COUNT = ''?''"

fun frame_event_name :: "frame_event \<Rightarrow> string" where
  "frame_event_name FRAME_EV_NONE = ''-''"
| "frame_event_name FRAME_EV_COMPLETE = ''COMPLETE''"
| "frame_event_name FRAME_EV_ERR_LENGTH = ''ERR_LENGTH''"
| "frame_event_name FRAME_EV_ERR_CRC = ''ERR_CRC''"
| "frame_event_name FRAME_EV_ERR_FRAMING = ''ERR_FRAMING''"

text \<open>A stream of bytes, and the events it causes.\<close>

abbreviation frame_run :: "frame_parser \<Rightarrow> u8 list \<Rightarrow> (frame_parser \<times> frame_event list) option" where
  "frame_run \<equiv> machine_run frame_feed"

text \<open>The message a caller reads when the event is \<open>FRAME_EV_COMPLETE\<close>.\<close>

definition frame_message :: "frame_parser \<Rightarrow> u8 list" where
  "frame_message p = take (unat (fp_length p)) (fp_payload p)"

section \<open>The abstract receiver\<close>

text \<open>The two CRC bytes of a frame as they are sent, low byte first.\<close>

definition crc_wire :: "u8 \<Rightarrow> u8 list \<Rightarrow> u8 list" where
  "crc_wire n m = (let c = crc_bytes 0xFFFF (n # m) in [ucast c, ucast (drop_bit 8 c)])"

definition frame_encode :: "u8 list \<Rightarrow> u8 list" where
  "frame_encode m =
     (let n = of_nat (length m) in [FRAME_STX, n] @ m @ crc_wire n m @ [FRAME_ETX])"

text \<open>
  The state is the bytes received since the start mark, if one was seen; the
  output is the event and, with a complete frame, its message.
\<close>

fun spec_feed :: "u8 list option \<Rightarrow> u8 \<Rightarrow> u8 list option \<times> frame_event \<times> u8 list option" where
  "spec_feed None b = (if b = FRAME_STX then Some [] else None, FRAME_EV_NONE, None)"
| "spec_feed (Some []) b =
     (if FRAME_MAX_PAYLOAD < unat b then (None, FRAME_EV_ERR_LENGTH, None)
      else (Some [b], FRAME_EV_NONE, None))"
| "spec_feed (Some (n # d)) b =
     (let d' = d @ [b]; k = unat n
      in if length d' < k + 2 then (Some (n # d'), FRAME_EV_NONE, None)
         else if length d' = k + 2
         then (if drop k d' = crc_wire n (take k d') then (Some (n # d'), FRAME_EV_NONE, None)
               else (None, FRAME_EV_ERR_CRC, None))
         else if b = FRAME_ETX then (None, FRAME_EV_COMPLETE, Some (take k d))
         else (None, FRAME_EV_ERR_FRAMING, None))"

fun spec_run :: "u8 list option \<Rightarrow> u8 list \<Rightarrow> u8 list option \<times> frame_event list" where
  "spec_run a [] = (a, [])"
| "spec_run a (b # bs) =
     (let (a', e, m) = spec_feed a b; (a'', es) = spec_run a' bs in (a'', e # es))"

text \<open>What the parser's fields hold after the bytes \<open>n # d\<close> of a frame.\<close>

definition frame_body :: "frame_parser \<Rightarrow> u8 \<Rightarrow> u8 list \<Rightarrow> bool" where
  "frame_body p n d \<longleftrightarrow>
     (let k = unat n; m = take k d in
      k \<le> FRAME_MAX_PAYLOAD \<and> fp_length p = n \<and> take (length m) (fp_payload p) = m \<and>
      fp_crc_computed p = crc_bytes 0xFFFF (n # m) \<and>
      (if length d < k then fp_state p = FRAME_ST_PAYLOAD \<and> unat (fp_index p) = length d
       else if length d = k then fp_state p = FRAME_ST_CRC_LO
       else if length d = k + 1 then fp_state p = FRAME_ST_CRC_HI \<and> fp_crc_received p = ucast (d ! k)
       else length d = k + 2 \<and> fp_state p = FRAME_ST_ETX \<and> drop k d = crc_wire n m))"

definition frame_rel :: "frame_parser \<Rightarrow> u8 list option \<Rightarrow> bool" where
  "frame_rel p a \<longleftrightarrow>
     length (fp_payload p) = FRAME_MAX_PAYLOAD \<and>
     (case a of
        None \<Rightarrow> fp_state p = FRAME_ST_IDLE
      | Some [] \<Rightarrow> fp_state p = FRAME_ST_LEN \<and> fp_index p = 0 \<and> fp_crc_computed p = 0xFFFF
      | Some (n # d) \<Rightarrow> frame_body p n d)"

section \<open>Refinement\<close>

lemma crc_wire_eq:
  "[lo, hi] = crc_wire n m \<longleftrightarrow> ucast lo OR push_bit 8 (ucast hi) = crc_bytes 0xFFFF (n # m)"
  by (simp add: crc_wire_def Let_def byte_join)

lemma feed_payload:
  assumes b: "frame_body p n d" and len: "length (fp_payload p) = FRAME_MAX_PAYLOAD"
    and lt: "length d < unat n"
  shows "\<exists>p'. frame_feed p x = Some (p', FRAME_EV_NONE) \<and> frame_body p' n (d @ [x]) \<and>
    length (fp_payload p') = FRAME_MAX_PAYLOAD"
proof -
  from b lt have f: "unat n \<le> 64" "fp_length p = n" "take (length d) (fp_payload p) = d"
    "fp_crc_computed p = crc_bytes 0xFFFF (n # d)" "fp_state p = FRAME_ST_PAYLOAD"
    "unat (fp_index p) = length d"
    by (auto simp: frame_body_def FRAME_MAX_PAYLOAD_def Let_def)
  note idx = unat_next_index [of "fp_index p" n, unfolded f(6), OF lt f(1)]
  have "take (Suc (length d)) ((fp_payload p)[length d := x]) = d @ [x]"
    using f lt len by (simp add: take_Suc_update FRAME_MAX_PAYLOAD_def)
  then show ?thesis
    using f lt len idx
    by (auto simp: frame_feed_def mem FRAME_MAX_PAYLOAD_def Let_def frame_body_def)
qed

text \<open>What a caller sees of a step: the message, when one is complete.\<close>

definition frame_obs :: "frame_parser \<Rightarrow> frame_event \<Rightarrow> u8 list option" where
  "frame_obs p e = (if e = FRAME_EV_COMPLETE then Some (frame_message p) else None)"

lemma frame_feed_refines:
  assumes r: "frame_rel p a" and s: "spec_feed a x = (a', e, m)"
  shows "\<exists>p'. frame_feed p x = Some (p', e) \<and> frame_rel p' a' \<and> frame_obs p' e = m"
proof (cases a)
  case None
  with r s show ?thesis
    by (auto simp: frame_rel_def frame_feed_def frame_obs_def split: if_splits)
next
  case (Some w)
  show ?thesis
  proof (cases w)
    case Nil
    with r s Some show ?thesis
      by (auto simp: frame_rel_def frame_feed_def frame_obs_def frame_body_def Let_def
          unat_eq_zero split: if_splits)
  next
    case (Cons n d)
    from r Some Cons have len: "length (fp_payload p) = FRAME_MAX_PAYLOAD"
      and b: "frame_body p n d" by (auto simp: frame_rel_def)
    have lens: "length d \<le> unat n + 2"
      using b by (auto simp: frame_body_def Let_def split: if_splits)
    consider (pay) "length d < unat n" | (lo) "length d = unat n" | (hi) "length d = unat n + 1"
      | (etx) "length d = unat n + 2" using lens by linarith
    then show ?thesis
    proof cases
      case pay
      then show ?thesis
        using feed_payload [OF b len pay, of x] s Some Cons
        by (auto simp: frame_rel_def frame_obs_def Let_def)
    next
      case lo
      then show ?thesis
        using b len s Some Cons
        by (auto simp: frame_rel_def frame_obs_def frame_feed_def frame_body_def Let_def nth_append FRAME_MAX_PAYLOAD_def)
    next
      case hi
      have d: "drop (unat n) d = [d ! unat n]"
        using hi by (simp add: Cons_nth_drop_Suc [symmetric])
      show ?thesis
        using hi b len s Some Cons d crc_wire_eq [of "d ! unat n" x n "take (unat n) d"]
        by (auto simp: frame_rel_def frame_obs_def frame_feed_def frame_body_def Let_def
            split: if_splits)
    next
      case etx
      then show ?thesis
        using b len s Some Cons
        by (auto simp: frame_rel_def frame_obs_def frame_message_def frame_feed_def frame_body_def
            Let_def split: if_splits)
    qed
  qed
qed

definition spec_event :: "u8 list option \<Rightarrow> u8 \<Rightarrow> u8 list option \<times> frame_event" where
  "spec_event a b = (case spec_feed a b of (a', e, m) \<Rightarrow> (a', e))"

lemma spec_run_machine: "spec_run a bs = spec_machine_run spec_event a bs"
  by (induction bs arbitrary: a) (auto simp: spec_event_def split: prod.splits)

interpretation receiver: mealy_refinement frame_feed spec_event frame_rel "\<lambda>b. True"
proof
  fix p a b
  assume "frame_rel p a"
  moreover obtain a' e m where "spec_feed a b = (a', e, m)"
    using prod_cases3 by blast
  ultimately show "\<exists>p'. frame_feed p b = Some (p', snd (spec_event a b)) \<and> frame_rel p' (fst (spec_event a b))"
    using frame_feed_refines by (simp add: spec_event_def) blast
qed

lemma frame_run_refines:
  "frame_rel p a \<Longrightarrow> spec_run a bs = (a', es) \<Longrightarrow> \<exists>p'. frame_run p bs = Some (p', es) \<and> frame_rel p' a'"
  using receiver.run_answers [of p a bs] by (simp add: spec_run_machine list_all_iff)

section \<open>The abstract receiver on encoded frames\<close>

lemma spec_run_append:
  "spec_run a (xs @ ys) =
     (let (a1, es1) = spec_run a xs; (a2, es2) = spec_run a1 ys in (a2, es1 @ es2))"
  by (induction xs arbitrary: a) (auto split: prod.splits)

lemma length_spec_run: "length (snd (spec_run a bs)) = length bs"
  by (simp add: spec_run_machine spec_machine_run_length)

lemma spec_run_body:
  "length d + length xs < unat n + 2 \<Longrightarrow>
   spec_run (Some (n # d)) xs = (Some (n # d @ xs), replicate (length xs) FRAME_EV_NONE)"
  by (induction xs arbitrary: d) (simp_all add: Let_def)

lemma length_crc_wire [simp]: "length (crc_wire n m) = 2"
  by (simp add: crc_wire_def Let_def)

lemma spec_run_crc:
  assumes "length m = unat n" "unat n \<le> FRAME_MAX_PAYLOAD"
  shows "spec_run None ([FRAME_STX, n] @ m @ [lo, hi]) =
    (if [lo, hi] = crc_wire n m
     then (Some (n # m @ [lo, hi]), replicate (length m + 4) FRAME_EV_NONE)
     else (None, replicate (length m + 3) FRAME_EV_NONE @ [FRAME_EV_ERR_CRC]))"
proof -
  have "spec_run None ([FRAME_STX, n] @ m @ [lo]) =
    (Some (n # m @ [lo]), replicate (length m + 3) FRAME_EV_NONE)"
    using assms spec_run_body [of "[]" "m @ [lo]" n]
    by (simp add: not_less [symmetric] numeral_3_eq_3)
  moreover have "[FRAME_STX, n] @ m @ [lo, hi] = ([FRAME_STX, n] @ m @ [lo]) @ [hi]"
    by simp
  moreover have "replicate (length m + 3) FRAME_EV_NONE @ [FRAME_EV_NONE] =
    replicate (length m + 4) FRAME_EV_NONE"
    by (simp add: replicate_append_same numeral_eq_Suc)
  ultimately show ?thesis
    using assms by (simp only: spec_run_append) (simp add: Let_def)
qed

lemma length_code: "length m \<le> FRAME_MAX_PAYLOAD \<Longrightarrow> unat (of_nat (length m) :: u8) = length m"
  by (simp add: FRAME_MAX_PAYLOAD_def unat_of_nat)

lemma crc_wire_pair: "\<exists>lo hi. crc_wire n m = [lo, hi]"
  by (simp add: crc_wire_def Let_def)

lemma spec_run_encode:
  assumes "length m \<le> FRAME_MAX_PAYLOAD"
  shows "spec_run None (frame_encode m) =
    (None, replicate (length m + 4) FRAME_EV_NONE @ [FRAME_EV_COMPLETE])"
proof -
  define n :: u8 where "n = of_nat (length m)"
  have n: "length m = unat n" "unat n \<le> FRAME_MAX_PAYLOAD"
    using assms by (simp_all add: n_def length_code)
  obtain lo hi where w: "crc_wire n m = [lo, hi]"
    using crc_wire_pair by blast
  have "frame_encode m = ([FRAME_STX, n] @ m @ [lo, hi]) @ [FRAME_ETX]"
    by (simp add: frame_encode_def w n_def [symmetric])
  then show ?thesis
    using n
    by (simp only: spec_run_append [of None "[FRAME_STX, n] @ m @ [lo, hi]"] spec_run_crc [OF n])
      (simp add: w Let_def)
qed

section \<open>Well-formed receiver states\<close>

fun spec_wf :: "u8 list option \<Rightarrow> bool" where
  "spec_wf None = True"
| "spec_wf (Some []) = True"
| "spec_wf (Some (n # d)) =
    (unat n \<le> FRAME_MAX_PAYLOAD \<and> length d \<le> unat n + 2 \<and>
     (length d = unat n + 2 \<longrightarrow> drop (unat n) d = crc_wire n (take (unat n) d)))"

lemma spec_feed_wf: "spec_wf a \<Longrightarrow> spec_wf (fst (spec_feed a b))"
  by (cases "(a, b)" rule: spec_feed.cases) (auto simp: Let_def not_less)

fun spec_left :: "u8 list option \<Rightarrow> nat" where
  "spec_left None = 0"
| "spec_left (Some []) = FRAME_MAX_PAYLOAD + 4"
| "spec_left (Some (n # d)) = unat n + 3 - length d"

lemma spec_feed_left: "spec_wf (Some w) \<Longrightarrow> spec_left (fst (spec_feed (Some w) b)) < spec_left (Some w)"
  by (cases "(Some w, b)" rule: spec_feed.cases) (auto simp: Let_def)

lemma spec_left_bound: "spec_wf a \<Longrightarrow> spec_left a \<le> FRAME_MAX_PAYLOAD + 4"
  by (cases a rule: spec_left.cases) auto

lemma spec_resync:
  "spec_wf a \<Longrightarrow> spec_left a \<le> length bs \<Longrightarrow>
   \<exists>i \<le> spec_left a. fst (spec_run a (take i bs)) = None"
proof (induction bs arbitrary: a)
  case Nil
  then show ?case by (cases a rule: spec_left.cases) (auto simp: FRAME_MAX_PAYLOAD_def)
next
  case (Cons b bs)
  show ?case
  proof (cases a)
    case (Some w)
    let ?a = "fst (spec_feed a b)"
    have lt: "spec_left ?a < spec_left a" and wf: "spec_wf ?a"
      using Cons.prems Some spec_feed_left spec_feed_wf by blast+
    from Cons.IH [OF wf] lt Cons.prems(2) obtain i
      where i: "i \<le> spec_left ?a" "fst (spec_run ?a (take i bs)) = None" by auto
    have "fst (spec_run a (take (Suc i) (b # bs))) = fst (spec_run ?a (take i bs))"
      by (simp split: prod.splits)
    with i lt show ?thesis by (intro exI [of _ "Suc i"]) auto
  qed (auto intro: exI [of _ 0])
qed

text \<open>Whatever the stream, the bytes the receiver remembers are its tail.\<close>

definition spec_tail :: "u8 list \<Rightarrow> u8 list option \<Rightarrow> bool" where
  "spec_tail bs a \<longleftrightarrow> spec_wf a \<and> (case a of None \<Rightarrow> True | Some w \<Rightarrow> \<exists>pre. bs = pre @ FRAME_STX # w)"

lemma spec_tail_feed: "spec_tail bs a \<Longrightarrow> spec_tail (bs @ [b]) (fst (spec_feed a b))"
  using spec_feed_wf [of a b]
  by (cases "(a, b)" rule: spec_feed.cases)
    (auto simp: spec_tail_def Let_def split: if_splits)

lemma spec_tail_run: "spec_tail bs (fst (spec_run None bs))"
proof (induction bs rule: rev_induct)
  case (snoc b bs)
  have "fst (spec_run None (bs @ [b])) = fst (spec_feed (fst (spec_run None bs)) b)"
    by (simp add: spec_run_append Let_def split: prod.splits)
  with spec_tail_feed [OF snoc] show ?case by simp
qed (simp add: spec_tail_def)

lemma spec_complete_encode:
  assumes t: "spec_tail bs a" and s: "spec_feed a b = (a', FRAME_EV_COMPLETE, m)"
  shows "\<exists>pre k. m = Some k \<and> length k \<le> FRAME_MAX_PAYLOAD \<and> bs @ [b] = pre @ frame_encode k"
proof (cases "(a, b)" rule: spec_feed.cases)
  case (3 n d x)
  with s have m: "m = Some (take (unat n) d)" "b = FRAME_ETX" "length d = unat n + 2"
    using t by (auto simp: Let_def spec_tail_def split: if_splits)
  with t 3 obtain pre where pre: "bs = pre @ FRAME_STX # n # d" "unat n \<le> FRAME_MAX_PAYLOAD"
     "drop (unat n) d = crc_wire n (take (unat n) d)"
    by (auto simp: spec_tail_def)
  have "d = take (unat n) d @ crc_wire n (take (unat n) d)"
    using pre(3) by (metis append_take_drop_id)
  moreover have "length (take (unat n) d) = unat n" using m by simp
  ultimately have "bs @ [b] = pre @ frame_encode (take (unat n) d)"
    using pre m by (simp add: frame_encode_def)
  with m pre show ?thesis by auto
qed (use s in \<open>auto split: if_splits\<close>)

lemmas frame_run_append = machine_run_append [of frame_feed]

lemma feed_counts:
  assumes "frame_feed p b = Some (p', e)"
  shows "fp_frames_ok p' = fp_frames_ok p + of_bool (e = FRAME_EV_COMPLETE)"
    and "fp_err_length p' = fp_err_length p + of_bool (e = FRAME_EV_ERR_LENGTH)"
    and "fp_err_crc p' = fp_err_crc p + of_bool (e = FRAME_EV_ERR_CRC)"
    and "fp_err_framing p' = fp_err_framing p + of_bool (e = FRAME_EV_ERR_FRAMING)"
    and "fp_bytes_discarded p' = fp_bytes_discarded p + of_bool (fp_state p = FRAME_ST_IDLE \<and> b \<noteq> FRAME_STX)"
  using assms
  by (auto simp: frame_feed_def frame_reset_def Let_def split: frame_state.splits if_splits bind_splits)


section \<open>Counters\<close>

fun spec_discards :: "u8 list option \<Rightarrow> u8 list \<Rightarrow> nat" where
  "spec_discards a [] = 0"
| "spec_discards a (b # bs) =
     of_bool (a = None \<and> b \<noteq> FRAME_STX) + spec_discards (fst (spec_feed a b)) bs"

lemma frame_rel_idle: "frame_rel p a \<Longrightarrow> fp_state p = FRAME_ST_IDLE \<longleftrightarrow> a = None"
  by (auto simp: frame_rel_def frame_body_def Let_def split: option.splits list.splits if_splits)

lemma run_counts:
  "frame_run p bs = Some (p', es) \<Longrightarrow>
   fp_frames_ok p' = fp_frames_ok p + of_nat (count_list es FRAME_EV_COMPLETE) \<and>
   fp_err_length p' = fp_err_length p + of_nat (count_list es FRAME_EV_ERR_LENGTH) \<and>
   fp_err_crc p' = fp_err_crc p + of_nat (count_list es FRAME_EV_ERR_CRC) \<and>
   fp_err_framing p' = fp_err_framing p + of_nat (count_list es FRAME_EV_ERR_FRAMING)"
proof (induction bs arbitrary: p es)
  case (Cons b bs)
  then obtain p1 e es1 where f: "frame_feed p b = Some (p1, e)"
    and r: "frame_run p1 bs = Some (p', es1)" "es = e # es1"
    by (auto split: bind_splits)
  show ?case
    using Cons.IH [OF r(1)] feed_counts [OF f] r(2) by auto
qed simp

lemma run_discards:
  "frame_rel p a \<Longrightarrow> frame_run p bs = Some (p', es) \<Longrightarrow>
   fp_bytes_discarded p' = fp_bytes_discarded p + of_nat (spec_discards a bs)"
proof (induction bs arbitrary: p a es)
  case (Cons b bs)
  obtain a1 e1 m where s: "spec_feed a b = (a1, e1, m)" by (cases "spec_feed a b")
  from frame_feed_refines [OF Cons.prems(1) s] obtain p1
    where f: "frame_feed p b = Some (p1, e1)" and r1: "frame_rel p1 a1" by blast
  then obtain es1 where r: "frame_run p1 bs = Some (p', es1)"
    using Cons.prems(2) by (auto split: bind_splits)
  show ?case
    using Cons.IH [OF r1 r] feed_counts(5) [OF f] frame_rel_idle [OF Cons.prems(1)] s by auto
qed simp

lemma spec_discards_append:
  "spec_discards a (xs @ ys) = spec_discards a xs + spec_discards (fst (spec_run a xs)) ys"
  by (induction xs arbitrary: a) (auto split: prod.splits)

lemma spec_discards_body:
  "length d + length xs < unat n + 3 \<Longrightarrow> spec_discards (Some (n # d)) xs = 0"
proof (induction xs arbitrary: d)
  case (Cons x xs)
  show ?case
  proof (cases xs)
    case (Cons y ys)
    with Cons.prems have "length d + 1 < unat n + 2" by simp
    then show ?thesis using Cons.IH [of "d @ [x]"] Cons.prems by (simp add: Let_def)
  qed simp
qed simp

lemma spec_discards_frame:
  assumes "length m = unat n" "unat n \<le> FRAME_MAX_PAYLOAD"
  shows "spec_discards None ([FRAME_STX, n] @ m @ [lo, hi]) = 0"
  using assms spec_discards_body [of "[]" "m @ [lo, hi]" n] by simp

section \<open>Runs\<close>

lemma frame_run_message:
  assumes "frame_rel p a" "spec_run a bs = (a1, es)" "spec_feed a1 b = (a', e, m)"
  shows "\<exists>p'. frame_run p (bs @ [b]) = Some (p', es @ [e]) \<and> frame_rel p' a' \<and> frame_obs p' e = m"
proof -
  obtain p1 where p1: "frame_run p bs = Some (p1, es)" "frame_rel p1 a1"
    using frame_run_refines [OF assms(1,2)] by blast
  obtain p' where p': "frame_feed p1 b = Some (p', e)" "frame_rel p' a'" "frame_obs p' e = m"
    using frame_feed_refines [OF p1(2) assms(3)] by blast
  have "frame_run p (bs @ [b]) = Some (p', es @ [e])"
    using p1(1) p'(1) by (simp add: frame_run_append)
  with p' show ?thesis by blast
qed

lemma frame_run_encode:
  assumes "frame_rel p None" "length m \<le> FRAME_MAX_PAYLOAD"
  shows "\<exists>p'. frame_run p (frame_encode m) =
      Some (p', replicate (length m + 4) FRAME_EV_NONE @ [FRAME_EV_COMPLETE]) \<and>
    frame_rel p' None \<and> frame_message p' = m \<and> spec_discards None (frame_encode m) = 0"
proof -
  define n :: u8 where "n = of_nat (length m)"
  have n: "length m = unat n" "unat n \<le> FRAME_MAX_PAYLOAD"
    using assms by (simp_all add: n_def length_code)
  obtain lo hi where w: "crc_wire n m = [lo, hi]"
    using crc_wire_pair by blast
  let ?w = "[FRAME_STX, n] @ m @ [lo, hi]"
  have enc: "frame_encode m = ?w @ [FRAME_ETX]"
    by (simp add: frame_encode_def w n_def [symmetric])
  have run: "spec_run None ?w = (Some (n # m @ [lo, hi]), replicate (length m + 4) FRAME_EV_NONE)"
    using spec_run_crc [OF n, of lo hi] w by simp
  have feed: "spec_feed (Some (n # m @ [lo, hi])) FRAME_ETX = (None, FRAME_EV_COMPLETE, Some m)"
    using n by (simp add: Let_def)
  have "spec_discards None (frame_encode m) = 0"
    using spec_discards_frame [OF n, of lo hi] run by (simp only: enc spec_discards_append) simp
  with frame_run_message [OF assms(1) run feed] show ?thesis
    by (auto simp: enc frame_obs_def)
qed

lemma count_list_replicate: "count_list (replicate n x) y = (if x = y then n else 0)"
  by (induction n) auto

text \<open>A frame whose checksum does not belong to its message.\<close>

lemma spec_run_bad_crc:
  assumes n: "length m = unat n" "unat n \<le> FRAME_MAX_PAYLOAD" and ne: "[lo, hi] \<noteq> crc_wire n m"
  shows "spec_run None ([FRAME_STX, n] @ m @ [lo, hi] @ [FRAME_ETX]) =
      (None, replicate (length m + 3) FRAME_EV_NONE @ [FRAME_EV_ERR_CRC, FRAME_EV_NONE])"
    "spec_discards None ([FRAME_STX, n] @ m @ [lo, hi] @ [FRAME_ETX]) = 1"
proof -
  have split: "[FRAME_STX, n] @ m @ [lo, hi] @ [FRAME_ETX] = ([FRAME_STX, n] @ m @ [lo, hi]) @ [FRAME_ETX]"
    by simp
  have etx: "spec_feed None FRAME_ETX = (None, FRAME_EV_NONE, None)" "FRAME_ETX \<noteq> FRAME_STX"
    by (simp_all add: FRAME_ETX_def FRAME_STX_def)
  have run: "spec_run None ([FRAME_STX, n] @ m @ [lo, hi]) =
      (None, replicate (length m + 3) FRAME_EV_NONE @ [FRAME_EV_ERR_CRC])"
    using spec_run_crc [OF n, of lo hi] ne by simp
  show "spec_run None ([FRAME_STX, n] @ m @ [lo, hi] @ [FRAME_ETX]) =
      (None, replicate (length m + 3) FRAME_EV_NONE @ [FRAME_EV_ERR_CRC, FRAME_EV_NONE])"
    by (simp only: split spec_run_append [of None "[FRAME_STX, n] @ m @ [lo, hi]"] run) (simp add: etx)
  show "spec_discards None ([FRAME_STX, n] @ m @ [lo, hi] @ [FRAME_ETX]) = 1"
    by (simp only: split spec_discards_append [of None "[FRAME_STX, n] @ m @ [lo, hi]"] run
        spec_discards_frame [OF n]) (simp add: etx)
qed

text \<open>A frame whose message was corrupted on the way, with the checksum of the original.\<close>

lemma spec_run_corrupted:
  assumes "m = xs @ [x, y] @ ys" "m' = xs @ [x', y'] @ ys" "(x, y) \<noteq> (x', y')"
    "length m \<le> FRAME_MAX_PAYLOAD" "n = of_nat (length m)"
  shows "spec_run None ([FRAME_STX, n] @ m' @ crc_wire n m @ [FRAME_ETX]) =
      (None, replicate (length m + 3) FRAME_EV_NONE @ [FRAME_EV_ERR_CRC, FRAME_EV_NONE])"
    "spec_discards None ([FRAME_STX, n] @ m' @ crc_wire n m @ [FRAME_ETX]) = 1"
proof -
  have n: "length m' = unat n" "unat n \<le> FRAME_MAX_PAYLOAD" "length m' = length m"
    using assms length_code [of m] by simp_all
  obtain lo hi where w: "crc_wire n m = [lo, hi]" using crc_wire_pair by blast
  have "crc_bytes 0xFFFF (n # m) \<noteq> crc_bytes 0xFFFF (n # m')"
    using crc.burst_detected [of "0xFFFF" "n # xs" x y ys x' y'] assms(1-3) by simp
  then have "[lo, hi] \<noteq> crc_wire n m'"
    using w by (metis crc_wire_eq)
  note b = spec_run_bad_crc [OF n(1,2) this]
  show "spec_run None ([FRAME_STX, n] @ m' @ crc_wire n m @ [FRAME_ETX]) =
      (None, replicate (length m + 3) FRAME_EV_NONE @ [FRAME_EV_ERR_CRC, FRAME_EV_NONE])"
    using b(1) by (simp only: w n(3))
  show "spec_discards None ([FRAME_STX, n] @ m' @ crc_wire n m @ [FRAME_ETX]) = 1"
    using b(2) by (simp only: w)
qed

section \<open>The invariant\<close>

text \<open>What keeps every store inside \<open>payload\<close>, whatever arrives.\<close>

definition frame_inv :: "frame_parser \<Rightarrow> bool" where
  "frame_inv p \<longleftrightarrow>
     length (fp_payload p) = FRAME_MAX_PAYLOAD \<and> fp_state p < FRAME_ST_COUNT \<and>
     unat (fp_length p) \<le> FRAME_MAX_PAYLOAD \<and> unat (fp_index p) \<le> FRAME_MAX_PAYLOAD \<and>
     (fp_state p = FRAME_ST_LEN \<longrightarrow> fp_index p = 0) \<and>
     (fp_state p = FRAME_ST_PAYLOAD \<longrightarrow> unat (fp_index p) < unat (fp_length p))"

lemma frame_feed_inv:
  assumes "frame_inv p"
  shows "\<exists>p' e. frame_feed p b = Some (p', e) \<and> frame_inv p'"
proof (cases "fp_state p = FRAME_ST_PAYLOAD")
  case True
  then have lt: "unat (fp_index p) < unat (fp_length p)" "unat (fp_length p) \<le> 64"
    using assms by (simp_all add: frame_inv_def FRAME_MAX_PAYLOAD_def)
  from unat_next_index [OF lt] True assms show ?thesis
    by (auto simp: frame_feed_def frame_inv_def mem Let_def FRAME_MAX_PAYLOAD_def
        frame_state_lt_count)
next
  case False
  with assms show ?thesis
    by (cases "fp_state p")
      (auto simp: frame_feed_def frame_inv_def Let_def FRAME_MAX_PAYLOAD_def frame_state_lt_count
        unat_gt_0)
qed

lemma frame_run_inv:
  "frame_inv p \<Longrightarrow> \<exists>p' es. frame_run p bs = Some (p', es) \<and> frame_inv p' \<and> length es = length bs"
proof (induction bs arbitrary: p)
  case (Cons b bs)
  from frame_feed_inv [OF Cons.prems] obtain p1 e
    where "frame_feed p b = Some (p1, e)" and "frame_inv p1" by blast
  with Cons.IH [of p1] show ?case by fastforce
qed simp

lemma spec_feed_event_idle: "spec_feed a b = (a', e, m) \<Longrightarrow> e \<noteq> FRAME_EV_NONE \<Longrightarrow> a' = None"
  by (cases "(a, b)" rule: spec_feed.cases) (auto simp: Let_def split: if_splits)

lemma frame_run_event_idle:
  assumes "frame_rel p a" "frame_run p (bs @ [b]) = Some (p', es @ [e])" "e \<noteq> FRAME_EV_NONE"
  shows "frame_rel p' None"
proof -
  obtain a1 es1 where r: "spec_run a bs = (a1, es1)" by (cases "spec_run a bs")
  obtain a' e' m where f: "spec_feed a1 b = (a', e', m)" by (cases "spec_feed a1 b")
  from frame_run_message [OF assms(1) r f] assms(2) have "frame_rel p' a'" "e = e'" by auto
  with spec_feed_event_idle [OF f] assms(3) show ?thesis by simp
qed

lemma frame_rel_spec_wf: "frame_rel p a \<Longrightarrow> spec_wf a"
  by (cases a rule: spec_wf.cases)
    (auto simp: frame_rel_def frame_body_def Let_def split: if_splits)

section \<open>Properties\<close>

text \<open>A parser in static storage after \<open>frame_reset\<close>, the start of every witness.\<close>

definition frame_zero :: frame_parser where
  "frame_zero = \<lparr>fp_state = FRAME_ST_IDLE, fp_payload = replicate 64 0, fp_length = 0,
     fp_index = 0, fp_crc_received = 0, fp_crc_computed = 0, fp_frames_ok = 0,
     fp_err_length = 0, fp_err_crc = 0, fp_err_framing = 0, fp_bytes_discarded = 0\<rparr>"

lemma frame_zero_rel: "frame_rel (frame_reset frame_zero) None" "frame_inv (frame_reset frame_zero)"
  by (simp_all add: frame_rel_def frame_inv_def frame_zero_def frame_reset_def
      FRAME_MAX_PAYLOAD_def frame_state_lt_count)

text \<open>C2. The receiver implements its abstract specification: on every stream of bytes a
  reset parser reports exactly the events of the receiver that remembers the bytes since the
  start mark, and its fields represent that receiver's state.\<close>

theorem frame_refines_spec:
  assumes "length (fp_payload p) = FRAME_MAX_PAYLOAD"
  shows "\<exists>p'. frame_run (frame_reset p) bs = Some (p', snd (spec_run None bs)) \<and>
    frame_rel p' (fst (spec_run None bs))"
proof -
  have "frame_rel (frame_reset p) None"
    using assms by (simp add: frame_rel_def frame_reset_def)
  then show ?thesis
    by (rule frame_run_refines) simp
qed

theorem frame_refines_spec_witness:
  "\<exists>p'. frame_run (frame_reset frame_zero) [0x55, 0x02, 0x41] =
      Some (p', [FRAME_EV_NONE, FRAME_EV_NONE, FRAME_EV_ERR_LENGTH])"
  using frame_refines_spec [of frame_zero "[0x55, 0x02, 0x41]"]
  by (auto simp: frame_zero_def FRAME_MAX_PAYLOAD_def FRAME_STX_def)

text \<open>C7. The receiver never writes outside \<open>payload\<close>: from every state that satisfies the
  invariant, every stream of bytes is consumed without an out-of-bounds store, reports one
  event per byte, and leaves the state inside the enumeration with \<open>index\<close> and \<open>length\<close> at
  most 64.\<close>

theorem frame_memory_safe:
  assumes "frame_inv p"
  shows "\<exists>p' es. frame_run p bs = Some (p', es) \<and> length es = length bs \<and> frame_inv p' \<and>
    fp_state p' < FRAME_ST_COUNT \<and> unat (fp_index p') \<le> 64 \<and> unat (fp_length p') \<le> 64"
  using frame_run_inv [OF assms, of bs] by (auto simp: frame_inv_def FRAME_MAX_PAYLOAD_def)

theorem frame_memory_safe_witness:
  "\<exists>p' es. frame_run (frame_reset frame_zero) (replicate 500 0x02) = Some (p', es) \<and>
    unat (fp_index p') \<le> 64"
  using frame_memory_safe [OF frame_zero_rel(2), of "replicate 500 0x02"] by blast

text \<open>Round trip: an idle parser fed an encoded message of at most 64 bytes reports
  nothing until the last byte, then \<open>FRAME_EV_COMPLETE\<close> with exactly that message; it is idle
  again, \<open>frames_ok\<close> grew by one and no error or discard counter moved.\<close>

theorem frame_roundtrip:
  assumes "frame_rel p None" and "length m \<le> FRAME_MAX_PAYLOAD"
  shows "\<exists>p'. frame_run p (frame_encode m) =
      Some (p', replicate (length m + 4) FRAME_EV_NONE @ [FRAME_EV_COMPLETE]) \<and>
    frame_message p' = m \<and> fp_state p' = FRAME_ST_IDLE \<and>
    fp_frames_ok p' = fp_frames_ok p + 1 \<and> fp_err_length p' = fp_err_length p \<and>
    fp_err_crc p' = fp_err_crc p \<and> fp_err_framing p' = fp_err_framing p \<and>
    fp_bytes_discarded p' = fp_bytes_discarded p"
proof -
  obtain p' where p': "frame_run p (frame_encode m) =
      Some (p', replicate (length m + 4) FRAME_EV_NONE @ [FRAME_EV_COMPLETE])"
    "frame_rel p' None" "frame_message p' = m" "spec_discards None (frame_encode m) = 0"
    using frame_run_encode [OF assms] by blast
  with run_counts [OF p'(1)] run_discards [OF assms(1) p'(1)] frame_rel_idle [OF p'(2)]
  show ?thesis by (simp add: count_list_replicate)
qed

theorem frame_roundtrip_witness:
  "\<exists>p'. frame_run (frame_reset frame_zero) (frame_encode [0xDE, 0xAD]) =
      Some (p', replicate 6 FRAME_EV_NONE @ [FRAME_EV_COMPLETE]) \<and> frame_message p' = [0xDE, 0xAD]"
  using frame_roundtrip [OF frame_zero_rel(1), of "[0xDE, 0xAD]"]
  by (auto simp: FRAME_MAX_PAYLOAD_def)

text \<open>C23. Soundness: when the last byte of a stream completes a frame, the stream ends with the
  encoding of the message the caller reads, a message of at most 64 bytes; so nothing is
  accepted that a sender did not frame with its length, its checksum and both marks.\<close>

theorem frame_complete_sound:
  assumes "frame_rel p None" and "frame_run p (bs @ [b]) = Some (p', es @ [FRAME_EV_COMPLETE])"
  shows "\<exists>pre. bs @ [b] = pre @ frame_encode (frame_message p') \<and>
    length (frame_message p') \<le> FRAME_MAX_PAYLOAD"
proof -
  obtain a es1 where r: "spec_run None bs = (a, es1)" by (cases "spec_run None bs")
  obtain a' e m where f: "spec_feed a b = (a', e, m)" by (cases "spec_feed a b")
  from frame_run_message [OF assms(1) r f] assms(2)
  have e: "e = FRAME_EV_COMPLETE" "m = Some (frame_message p')" by (auto simp: frame_obs_def)
  have "spec_tail bs a" using spec_tail_run [of bs] r by simp
  from spec_complete_encode [OF this f [unfolded e(1)]] e(2) show ?thesis by auto
qed

theorem frame_complete_sound_witness:
  "\<exists>p' es pre. frame_run (frame_reset frame_zero) (frame_encode [7]) =
      Some (p', es @ [FRAME_EV_COMPLETE]) \<and> frame_encode [7] = pre @ frame_encode (frame_message p')"
proof -
  obtain p' where p': "frame_run (frame_reset frame_zero) (frame_encode [7]) =
      Some (p', replicate 5 FRAME_EV_NONE @ [FRAME_EV_COMPLETE])"
    using frame_run_encode [OF frame_zero_rel(1), of "[7]"] by (auto simp: FRAME_MAX_PAYLOAD_def)
  obtain bs where bs: "frame_encode [7] = bs @ [FRAME_ETX]"
    by (simp add: frame_encode_def Let_def)
  from frame_complete_sound [OF frame_zero_rel(1) p' [unfolded bs]] p' bs show ?thesis by metis
qed

text \<open>A run that ends in a checksum error, on the concrete parser.\<close>

lemma frame_run_bad_crc:
  assumes "frame_rel p None" and "spec_run None bs = (None, replicate k FRAME_EV_NONE @ [FRAME_EV_ERR_CRC, FRAME_EV_NONE])"
    and "spec_discards None bs = 1"
  shows "\<exists>p'. frame_run p bs = Some (p', replicate k FRAME_EV_NONE @ [FRAME_EV_ERR_CRC, FRAME_EV_NONE]) \<and>
    fp_state p' = FRAME_ST_IDLE \<and> fp_err_crc p' = fp_err_crc p + 1 \<and>
    fp_frames_ok p' = fp_frames_ok p \<and> fp_bytes_discarded p' = fp_bytes_discarded p + 1"
proof -
  obtain p' where p': "frame_run p bs = Some (p', replicate k FRAME_EV_NONE @ [FRAME_EV_ERR_CRC, FRAME_EV_NONE])"
    "frame_rel p' None"
    using frame_run_refines [OF assms(1,2)] by blast
  with run_counts [OF p'(1)] run_discards [OF assms(1) p'(1)] frame_rel_idle [OF p'(2)] assms(3)
  show ?thesis by (simp add: count_list_replicate)
qed

text \<open>Corruption is caught: if up to two adjacent bytes of the message arrive changed while
  the rest of the frame is intact, an idle parser reports \<open>FRAME_EV_ERR_CRC\<close> at the second CRC
  byte, counts one CRC error, completes nothing, and the end mark that follows is the only byte
  it discards.\<close>

theorem frame_corruption_detected:
  assumes "frame_rel p None" and "m = xs @ [x, y] @ ys" and "m' = xs @ [x', y'] @ ys"
    and "(x, y) \<noteq> (x', y')" and "length m \<le> FRAME_MAX_PAYLOAD" and "n = of_nat (length m)"
  shows "\<exists>p'. frame_run p ([FRAME_STX, n] @ m' @ crc_wire n m @ [FRAME_ETX]) =
      Some (p', replicate (length m + 3) FRAME_EV_NONE @ [FRAME_EV_ERR_CRC, FRAME_EV_NONE]) \<and>
    fp_state p' = FRAME_ST_IDLE \<and> fp_err_crc p' = fp_err_crc p + 1 \<and>
    fp_frames_ok p' = fp_frames_ok p \<and> fp_bytes_discarded p' = fp_bytes_discarded p + 1"
  using frame_run_bad_crc [OF assms(1)] spec_run_corrupted [OF assms(2-6)] by blast

theorem frame_corruption_detected_witness:
  "\<exists>p'. frame_run (frame_reset frame_zero)
      ([FRAME_STX, 2] @ [1, 3] @ crc_wire 2 [1, 2] @ [FRAME_ETX]) =
      Some (p', replicate 5 FRAME_EV_NONE @ [FRAME_EV_ERR_CRC, FRAME_EV_NONE])"
  using frame_corruption_detected [OF frame_zero_rel(1), of "[1, 2]" "[]" 1 2 "[]" "[1, 3]" 1 3 2]
  by (auto simp: FRAME_MAX_PAYLOAD_def)

text \<open>C24. Resynchronisation is bounded: whatever state the parser is in, among the next 68
  bytes, whatever they are, there is a point where it is back in \<open>FRAME_ST_IDLE\<close>.\<close>

theorem frame_resync_bounded:
  assumes "frame_rel p a" and "length bs = 68"
  shows "\<exists>i p' es. i \<le> 68 \<and> frame_run p (take i bs) = Some (p', es) \<and> fp_state p' = FRAME_ST_IDLE"
proof -
  have wf: "spec_wf a" using assms(1) by (rule frame_rel_spec_wf)
  have le: "spec_left a \<le> 68"
    using spec_left_bound [OF wf] by (simp add: FRAME_MAX_PAYLOAD_def)
  obtain i where i: "i \<le> spec_left a" "fst (spec_run a (take i bs)) = None"
    using spec_resync [OF wf, of bs] le assms(2) by auto
  obtain es where r: "spec_run a (take i bs) = (None, es)"
    using i(2) by (cases "spec_run a (take i bs)") simp
  from frame_run_refines [OF assms(1) r] frame_rel_idle le_trans [OF i(1) le]
  show ?thesis by blast
qed

theorem frame_resync_bounded_witness:
  "\<exists>i p' es. i \<le> 68 \<and> frame_run (frame_reset frame_zero) (take i (replicate 68 0x02)) =
      Some (p', es) \<and> fp_state p' = FRAME_ST_IDLE"
  using frame_resync_bounded [OF frame_zero_rel(1), of "replicate 68 0x02"] by simp

text \<open>One bad frame does not poison the next: after any stream whose last byte reported an
  error, the next well-formed frame is received completely and intact.\<close>

theorem frame_recovers_after_error:
  assumes "frame_rel p a" and "frame_run p (bs @ [b]) = Some (p1, es @ [e])"
    and "e \<noteq> FRAME_EV_NONE" and "length m \<le> FRAME_MAX_PAYLOAD"
  shows "\<exists>p2. frame_run p (bs @ [b] @ frame_encode m) =
      Some (p2, es @ [e] @ replicate (length m + 4) FRAME_EV_NONE @ [FRAME_EV_COMPLETE]) \<and>
    frame_message p2 = m"
proof -
  have "frame_rel p1 None" using frame_run_event_idle [OF assms(1-3)] .
  then obtain p2 where p2: "frame_run p1 (frame_encode m) =
      Some (p2, replicate (length m + 4) FRAME_EV_NONE @ [FRAME_EV_COMPLETE])"
    "frame_message p2 = m"
    using frame_run_encode [OF _ assms(4)] by blast
  have "frame_run p ((bs @ [b]) @ frame_encode m) =
      Some (p2, (es @ [e]) @ replicate (length m + 4) FRAME_EV_NONE @ [FRAME_EV_COMPLETE])"
    by (simp only: frame_run_append [of p "bs @ [b]"] assms(2)) (simp add: p2(1))
  with p2(2) show ?thesis by auto
qed

theorem frame_recovers_after_error_witness:
  "\<exists>p2. frame_run (frame_reset frame_zero) ([0x02] @ [0xFF] @ frame_encode [9]) =
      Some (p2, [FRAME_EV_NONE] @ [FRAME_EV_ERR_LENGTH] @ replicate 5 FRAME_EV_NONE @
        [FRAME_EV_COMPLETE]) \<and> frame_message p2 = [9]"
proof -
  obtain p1 where "frame_run (frame_reset frame_zero) ([0x02] @ [0xFF]) =
      Some (p1, [FRAME_EV_NONE] @ [FRAME_EV_ERR_LENGTH])"
    using frame_run_refines [OF frame_zero_rel(1), of "[0x02] @ [0xFF]" None]
    by (auto simp: FRAME_STX_def FRAME_MAX_PAYLOAD_def)
  from frame_recovers_after_error [OF frame_zero_rel(1) this, of "[9]"] show ?thesis
    by (simp add: FRAME_MAX_PAYLOAD_def)
qed

text \<open>The diagnostic counters are exact: after any stream, each counter has grown (modulo
  \<open>2^32\<close>) by the number of events of its kind, and \<open>bytes_discarded\<close> by the number of bytes
  other than the start mark that arrived between frames.\<close>

theorem frame_counters_exact:
  assumes "frame_rel p a" and "frame_run p bs = Some (p', es)"
  shows "fp_frames_ok p' = fp_frames_ok p + of_nat (count_list es FRAME_EV_COMPLETE) \<and>
    fp_err_length p' = fp_err_length p + of_nat (count_list es FRAME_EV_ERR_LENGTH) \<and>
    fp_err_crc p' = fp_err_crc p + of_nat (count_list es FRAME_EV_ERR_CRC) \<and>
    fp_err_framing p' = fp_err_framing p + of_nat (count_list es FRAME_EV_ERR_FRAMING) \<and>
    fp_bytes_discarded p' = fp_bytes_discarded p + of_nat (spec_discards a bs)"
  using run_counts [OF assms(2)] run_discards [OF assms] by simp

theorem frame_counters_exact_witness:
  "\<exists>p' es. frame_run (frame_reset frame_zero) [0x55, 0x02, 0x41, 0x00] = Some (p', es) \<and>
    fp_err_length p' = 1 \<and> fp_bytes_discarded p' = 2"
proof -
  let ?bs = "[0x55, 0x02, 0x41, 0x00]"
  obtain p' where p': "frame_run (frame_reset frame_zero) ?bs =
      Some (p', [FRAME_EV_NONE, FRAME_EV_NONE, FRAME_EV_ERR_LENGTH, FRAME_EV_NONE])"
    using frame_run_refines [OF frame_zero_rel(1), of ?bs None]
    by (auto simp: FRAME_STX_def FRAME_MAX_PAYLOAD_def)
  from frame_counters_exact [OF frame_zero_rel(1) p'] p' show ?thesis
    by (simp add: frame_reset_def frame_zero_def FRAME_STX_def FRAME_MAX_PAYLOAD_def)
qed

end
