(* ===== verification/Frame_Demo.thy ===== *)
theory Frame_Demo
  imports Uart Frame
begin

unbundle bit_operations_syntax

text \<open>
  The frame receiver on the target, \<open>src/code/qemu-cortex-m/06-protocol-state-machine/main.c\<close>:
  each byte goes through \<open>frame_feed\<close>, the events are printed, and a self-test feeds frames the
  program builds itself. The state of a routine is the parser and the history of accesses;
  \<open>None\<close> is an access outside an array or a port that never makes room.
\<close>

section \<open>The example\<close>

type_synonym demo = "frame_parser \<times> io_trace"

function payload_loop :: "device \<Rightarrow> frame_parser \<Rightarrow> u8 \<Rightarrow> io_trace \<Rightarrow> io_trace option" where
  "payload_loop dev p i t =
     (if i < fp_length p
      then do {
        t \<leftarrow> uart_puts dev (cstr '' '') t;
        b \<leftarrow> arr_get (fp_payload p) (unat i);
        t \<leftarrow> uart_put_hex8 dev b t;
        payload_loop dev p (i + 1) t
      }
      else Some t)"
  by auto
termination
  by (relation "measure (\<lambda>(dev, p, i, t). unat (fp_length p) - unat i)")
    (auto simp: word_less_nat_alt unat_Suc_below)

declare payload_loop.simps [simp del]

definition print_payload :: "device \<Rightarrow> frame_parser \<Rightarrow> io_trace \<Rightarrow> io_trace option" where
  "print_payload dev p t = do {
     t \<leftarrow> uart_puts dev (cstr ''  payload ['') t;
     t \<leftarrow> uart_put_u32 dev (ucast (fp_length p)) t;
     t \<leftarrow> uart_puts dev (cstr ''] ='') t;
     t \<leftarrow> payload_loop dev p 0 t;
     uart_puts dev (cline '''') t
   }"

definition report_event :: "device \<Rightarrow> frame_parser \<Rightarrow> frame_event \<Rightarrow> io_trace \<Rightarrow> io_trace option" where
  "report_event dev p ev t =
     (case ev of
        FRAME_EV_NONE \<Rightarrow> Some t
      | FRAME_EV_COMPLETE \<Rightarrow> do { t \<leftarrow> uart_puts dev (cline ''FRAME OK'') t; print_payload dev p t }
      | FRAME_EV_ERR_LENGTH \<Rightarrow> uart_puts dev (cline
          (''REJECTED: length field exceeds buffer '' @ ''(this is the overflow that did not happen)'')) t
      | FRAME_EV_ERR_CRC \<Rightarrow> uart_puts dev (cline ''REJECTED: CRC mismatch'') t
      | FRAME_EV_ERR_FRAMING \<Rightarrow> uart_puts dev (cline ''REJECTED: missing ETX'') t)"

fun handle :: "device \<Rightarrow> u8 \<Rightarrow> demo \<Rightarrow> demo option" where
  "handle dev byte (p, t) = do {
     (p, ev) \<leftarrow> frame_feed p byte;
     t \<leftarrow> report_event dev p ev t;
     Some (p, t)
   }"

partial_function (option) rx_drain :: "device \<Rightarrow> demo \<Rightarrow> demo option" where
  "rx_drain dev s =
     (case s of (p, t) \<Rightarrow>
      case reg_read dev UART0_FR t of (v, t) \<Rightarrow>
      if v AND UART_FR_RXFE = 0
      then case reg_read dev UART0_DR t of (v, t) \<Rightarrow>
        do { s \<leftarrow> handle dev (ucast (v AND 0xFF)) (p, t); rx_drain dev s }
      else Some (p, t))"

fun UART0_rx_isr :: "device \<Rightarrow> demo \<Rightarrow> demo option" where
  "UART0_rx_isr dev (p, t) = rx_drain dev (p, reg_write UART0_ICR 0xFFFF t)"

function crc_of_loop :: "u8 list \<Rightarrow> u8 \<Rightarrow> u8 \<Rightarrow> u16 \<Rightarrow> u16 option" where
  "crc_of_loop payload len i crc =
     (if i < len
      then do {
        b \<leftarrow> arr_get payload (unat i);
        crc_of_loop payload len (i + 1) (crc16_ccitt_update crc b)
      }
      else Some crc)"
  by auto
termination
  by (relation "measure (\<lambda>(payload, len, i, crc). unat len - unat i)")
    (auto simp: word_less_nat_alt unat_Suc_below)

declare crc_of_loop.simps [simp del]

definition crc_of :: "u8 list \<Rightarrow> u8 \<Rightarrow> u16 option" where
  "crc_of payload len = crc_of_loop payload len 0 (crc16_ccitt_update 0xFFFF len)"

function inject_loop :: "device \<Rightarrow> u8 list \<Rightarrow> u8 \<Rightarrow> bool \<Rightarrow> u8 \<Rightarrow> demo \<Rightarrow> demo option" where
  "inject_loop dev payload len corrupt i s =
     (if i < len
      then do {
        b \<leftarrow> arr_get payload (unat i);
        s \<leftarrow> handle dev (b XOR (if corrupt \<and> i = 0 then 0x01 else 0x00)) s;
        inject_loop dev payload len corrupt (i + 1) s
      }
      else Some s)"
  by auto
termination
  by (relation "measure (\<lambda>(dev, payload, len, corrupt, i, s). unat len - unat i)")
    (auto simp: word_less_nat_alt unat_Suc_below)

declare inject_loop.simps [simp del]

definition inject_frame :: "device \<Rightarrow> u8 list \<Rightarrow> u8 \<Rightarrow> bool \<Rightarrow> demo \<Rightarrow> demo option" where
  "inject_frame dev payload len corrupt s = do {
     crc \<leftarrow> crc_of payload len;
     s \<leftarrow> handle dev FRAME_STX s;
     s \<leftarrow> handle dev len s;
     s \<leftarrow> inject_loop dev payload len corrupt 0 s;
     s \<leftarrow> handle dev (ucast (crc AND 0xFF)) s;
     s \<leftarrow> handle dev (ucast (drop_bit 8 crc)) s;
     handle dev FRAME_ETX s
   }"

definition say :: "device \<Rightarrow> u8 list \<Rightarrow> demo \<Rightarrow> demo option" where
  "say dev text s = map_option (Pair (fst s)) (uart_puts dev text (snd s))"

fun noise :: "device \<Rightarrow> nat \<Rightarrow> demo \<Rightarrow> demo option" where
  "noise dev 0 s = Some s"
| "noise dev (Suc n) s = do { s \<leftarrow> handle dev 0x55 s; noise dev n s }"

definition good :: "u8 list" where
  "good = [0xDE, 0xAD, 0xBE, 0xEF]"

definition counter_line :: "device \<Rightarrow> string \<Rightarrow> u32 \<Rightarrow> io_trace \<Rightarrow> io_trace option" where
  "counter_line dev name v t = do {
     t \<leftarrow> uart_puts dev (cstr name) t;
     t \<leftarrow> uart_put_u32 dev v t;
     uart_puts dev (cline '''') t
   }"

text \<open>\<open>main\<close>, from the parser in static storage to \<open>semihost_exit\<close>.\<close>

definition example06 :: "device \<Rightarrow> frame_parser \<Rightarrow> io_trace \<Rightarrow> (int \<times> demo) option" where
  "example06 dev g_parser t = do {
     t \<leftarrow> uart_init dev 115200 t;
     s \<leftarrow> say dev (cline (CHR 0x0A # ''=== framed protocol state machine ==='')) (frame_reset g_parser, t);
     s \<leftarrow> say dev (cline (''wire format: STX | LEN | PAYLOAD | CRC16_LO | CRC16_HI | ETX'' @ [CHR 0x0A])) s;
     s \<leftarrow> say dev (cline ''1. a well-formed frame'') s;
     s \<leftarrow> inject_frame dev good 4 False s;
     s \<leftarrow> say dev (cline (CHR 0x0A # ''2. same frame, one bit flipped in the payload'')) s;
     s \<leftarrow> inject_frame dev good 4 True s;
     s \<leftarrow> say dev (cline (CHR 0x0A # ''3. a frame claiming a payload longer than the buffer'')) s;
     s \<leftarrow> handle dev FRAME_STX s;
     s \<leftarrow> handle dev (of_nat (FRAME_MAX_PAYLOAD + 1)) s;
     s \<leftarrow> say dev (cline (CHR 0x0A # ''4. line noise, then a good frame (resynchronisation)'')) s;
     s \<leftarrow> noise dev 5 s;
     (p, t) \<leftarrow> inject_frame dev good 4 False s;
     t \<leftarrow> uart_puts dev (cline (CHR 0x0A # ''--- counters ---'')) t;
     t \<leftarrow> counter_line dev ''frames_ok       = '' (fp_frames_ok p) t;
     t \<leftarrow> counter_line dev ''err_crc         = '' (fp_err_crc p) t;
     t \<leftarrow> counter_line dev ''err_length      = '' (fp_err_length p) t;
     t \<leftarrow> counter_line dev ''err_framing     = '' (fp_err_framing p) t;
     t \<leftarrow> counter_line dev ''bytes_discarded = '' (fp_bytes_discarded p) t;
     let ok = fp_frames_ok p = 2 \<and> fp_err_crc p = 1 \<and> fp_err_length p = 1 \<and> fp_err_framing p = 0 \<and>
       fp_bytes_discarded p = 6;
     t \<leftarrow> uart_puts dev (cline (if ok then CHR 0x0A # ''self-test PASSED'' else CHR 0x0A # ''self-test FAILED'')) t;
     t \<leftarrow> uart_puts dev (cline (CHR 0x0A # ''Now interactive - send framed bytes over the UART.'')) t;
     let t = reg_write UART0_IM (UART_IM_RXIM OR UART_IM_RTIM) t;
     let t = reg_write NVIC_ISER0 (push_bit IRQ_UART0 1) t;
     Some (if ok then 0 else 1, p, t)
   }"

section \<open>What it prints\<close>

text \<open>The text of a payload and of an event.\<close>

definition byte_text :: "u8 \<Rightarrow> u8 list" where
  "byte_text b = 32 # map hex_char (nibbles 2 (unat b))"

definition payload_text :: "u8 list \<Rightarrow> u8 list" where
  "payload_text m = wire ''  payload ['' @ map digit_char (decimal (length m)) @ wire ''] ='' @
     concat (map byte_text m) @ [13, 10]"

definition event_text :: "frame_parser \<Rightarrow> frame_event \<Rightarrow> u8 list" where
  "event_text p ev =
     (case ev of
        FRAME_EV_NONE \<Rightarrow> []
      | FRAME_EV_COMPLETE \<Rightarrow> wire ''FRAME OK'' @ [13, 10] @ payload_text (frame_message p)
      | FRAME_EV_ERR_LENGTH \<Rightarrow> wire ''REJECTED: length field exceeds buffer (this is the overflow that did not happen)'' @ [13, 10]
      | FRAME_EV_ERR_CRC \<Rightarrow> wire ''REJECTED: CRC mismatch'' @ [13, 10]
      | FRAME_EV_ERR_FRAMING \<Rightarrow> wire ''REJECTED: missing ETX'' @ [13, 10])"

lemma inv_message_length: "frame_inv p \<Longrightarrow> length (frame_message p) = unat (fp_length p)"
  by (simp add: frame_inv_def frame_message_def)

lemma prints_payload_loop:
  assumes "uart_ready dev" and "frame_inv p" and "unat i \<le> unat (fp_length p)"
  shows "prints dev (payload_loop dev p i) (concat (map byte_text (drop (unat i) (frame_message p))))"
  using assms(3)
proof (induction "unat (fp_length p) - unat i" arbitrary: i)
  case 0
  then have "\<not> i < fp_length p" "drop (unat i) (frame_message p) = []"
    using inv_message_length [OF assms(2)] by (auto simp: word_less_nat_alt)
  moreover from this have "payload_loop dev p i = Some"
    by (auto simp: fun_eq_iff payload_loop.simps)
  ultimately show ?case
    using prints_none by simp
next
  case (Suc n)
  then have lt: "unat i < unat (fp_length p)" "i < fp_length p"
    by (auto simp: word_less_nat_alt)
  note S = unat_Suc_below [OF lt(1)]
  let ?b = "frame_message p ! unat i"
  have len: "unat (fp_length p) \<le> length (fp_payload p)"
    using assms(2) by (simp add: frame_inv_def)
  have "arr_get (fp_payload p) (unat i) = Some ?b"
    using lt(1) len by (simp add: mem frame_message_def)
  then have step: "payload_loop dev p i =
      (\<lambda>t. uart_puts dev (cstr '' '') t \<bind> (\<lambda>t. uart_put_hex8 dev ?b t \<bind> payload_loop dev p (i + 1)))"
    using lt(2) by (intro ext, subst payload_loop.simps) simp
  have out: "concat (map byte_text (drop (unat i) (frame_message p))) =
      wire '' '' @ map hex_char (nibbles 2 (unat ?b)) @ concat (map byte_text (drop (unat (i + 1)) (frame_message p)))"
    unfolding S using lt(1) inv_message_length [OF assms(2)]
    by (simp add: Cons_nth_drop_Suc [symmetric] byte_text_def wire_def crlf_def)
  have ih: "prints dev (payload_loop dev p (i + 1)) (concat (map byte_text (drop (unat (i + 1)) (frame_message p))))"
    using Suc.hyps(2) lt(1) by (intro Suc.hyps(1)) (simp_all add: S)
  show ?case
    unfolding step out by (intro prints_bind prints_cstr prints_hex8 ih assms(1)) simp
qed

lemma prints_print_payload:
  assumes "uart_ready dev" and "frame_inv p"
  shows "prints dev (print_payload dev p) (payload_text (frame_message p))"
proof -
  have f: "print_payload dev p = (\<lambda>t. uart_puts dev (cstr ''  payload ['') t \<bind> (\<lambda>t.
      uart_put_u32 dev (ucast (fp_length p)) t \<bind> (\<lambda>t. uart_puts dev (cstr ''] ='') t \<bind> (\<lambda>t.
      payload_loop dev p 0 t \<bind> uart_puts dev (cline '''')))))"
    by (simp add: fun_eq_iff print_payload_def)
  have n: "unat (ucast (fp_length p) :: u32) = length (frame_message p)"
    using inv_message_length [OF assms(2)] assms(2)
    by (simp add: unsigned_ucast_eq take_bit_nat_eq_self frame_inv_def FRAME_MAX_PAYLOAD_def)
  have body: "prints dev (payload_loop dev p 0) (concat (map byte_text (frame_message p)))"
    using prints_payload_loop [OF assms, of 0] by simp
  have nl: "prints dev (uart_puts dev (cline '''')) [13, 10]"
    using prints_cline [OF assms(1), of "''''"] by (simp add: wire_def crlf_def)
  show ?thesis
    unfolding f payload_text_def n [symmetric]
    by (intro prints_bind prints_cstr prints_u32 body nl assms(1)) simp_all
qed

lemma prints_report:
  assumes "uart_ready dev" and "frame_inv p"
  shows "prints dev (report_event dev p ev) (event_text p ev)"
proof (cases ev)
  case FRAME_EV_NONE
  then have "report_event dev p ev = Some"
    by (simp add: fun_eq_iff report_event_def)
  then show ?thesis
    using FRAME_EV_NONE prints_none by (simp add: event_text_def)
next
  case FRAME_EV_COMPLETE
  then have f: "report_event dev p ev = (\<lambda>t. uart_puts dev (cline ''FRAME OK'') t \<bind> print_payload dev p)"
    by (simp add: fun_eq_iff report_event_def)
  have out: "event_text p ev = (wire ''FRAME OK'' @ [13, 10]) @ payload_text (frame_message p)"
    using FRAME_EV_COMPLETE by (simp add: event_text_def)
  show ?thesis
    unfolding f out by (intro prints_bind prints_cline prints_print_payload assms) simp
qed (use prints_cline [OF assms(1)] in \<open>simp_all add: report_event_def [abs_def] event_text_def\<close>)

section \<open>What it does to the parser\<close>

lemma handle_step:
  assumes "uart_ready dev" and "frame_inv p" and "frame_feed p b = Some (p', ev)"
  shows "\<exists>evs. handle dev b (p, t) = Some (p', t @ evs) \<and> uart_only evs \<and>
    writes_to UART0_DR evs = map ucast (event_text p' ev) \<and> frame_inv p'"
proof -
  have inv: "frame_inv p'"
    using frame_feed_inv [OF assms(2), of b] assms(3) by auto
  obtain evs where "report_event dev p' ev t = Some (t @ evs)" "uart_only evs"
    "writes_to UART0_DR evs = map ucast (event_text p' ev)"
    using prints_runs [OF prints_report [OF assms(1) inv]] by blast
  then show ?thesis
    using assms(3) inv by auto
qed

text \<open>A stream of bytes through \<open>handle\<close>.\<close>

fun handle_all :: "device \<Rightarrow> u8 list \<Rightarrow> demo \<Rightarrow> demo option" where
  "handle_all dev [] s = Some s"
| "handle_all dev (b # bs) s = handle dev b s \<bind> handle_all dev bs"

lemma handle_all_append: "handle_all dev (xs @ ys) s = handle_all dev xs s \<bind> handle_all dev ys"
  by (induction xs arbitrary: s) (auto split: bind_splits)

lemma handle_all_fun:
  "handle_all dev (xs @ ys) = (\<lambda>s. handle_all dev xs s \<bind> handle_all dev ys)"
  "handle_all dev (b # bs) = (\<lambda>s. handle dev b s \<bind> handle_all dev bs)"
  "handle_all dev [] = Some"
  by (simp_all add: fun_eq_iff handle_all_append)

text \<open>What the abstract receiver of theory \<open>Frame\<close> prints, and what it prints on a frame, on bytes that
  complete none, and on a frame with a wrong CRC.\<close>

definition spec_text :: "frame_event \<Rightarrow> u8 list option \<Rightarrow> u8 list" where
  "spec_text ev m =
     (case ev of
        FRAME_EV_NONE \<Rightarrow> []
      | FRAME_EV_COMPLETE \<Rightarrow> wire ''FRAME OK'' @ [13, 10] @ (case m of None \<Rightarrow> [] | Some m \<Rightarrow> payload_text m)
      | FRAME_EV_ERR_LENGTH \<Rightarrow> wire ''REJECTED: length field exceeds buffer (this is the overflow that did not happen)'' @ [13, 10]
      | FRAME_EV_ERR_CRC \<Rightarrow> wire ''REJECTED: CRC mismatch'' @ [13, 10]
      | FRAME_EV_ERR_FRAMING \<Rightarrow> wire ''REJECTED: missing ETX'' @ [13, 10])"

fun spec_print :: "u8 list option \<Rightarrow> u8 list \<Rightarrow> u8 list" where
  "spec_print a [] = []"
| "spec_print a (b # bs) = (case spec_feed a b of (a', ev, m) \<Rightarrow> spec_text ev m @ spec_print a' bs)"

lemma spec_print_append: "spec_print a (xs @ ys) = spec_print a xs @ spec_print (fst (spec_run a xs)) ys"
  by (induction xs arbitrary: a) (auto split: prod.splits)

lemma event_spec_text: "frame_obs p ev = m \<Longrightarrow> event_text p ev = spec_text ev m"
  by (cases ev) (auto simp: event_text_def spec_text_def frame_obs_def)

lemma spec_print_events:
  "spec_run a bs = (a', es) \<Longrightarrow> FRAME_EV_COMPLETE \<notin> set es \<Longrightarrow> spec_print a bs = concat (map (\<lambda>e. spec_text e None) es)"
proof (induction bs arbitrary: a es)
  case (Cons b bs)
  obtain a1 ev m where f: "spec_feed a b = (a1, ev, m)"
    by (cases "spec_feed a b")
  obtain es1 where r: "spec_run a1 bs = (a', es1)" "es = ev # es1"
    using Cons.prems(1) f by (auto split: prod.splits)
  have "spec_text ev m = spec_text ev None"
    using Cons.prems(2) r(2) by (cases ev) (simp_all add: spec_text_def)
  then show ?case
    using Cons.IH [OF r(1)] Cons.prems(2) r(2) f by simp
qed simp

lemma spec_print_rejected:
  assumes "spec_run a bs = (a', replicate n FRAME_EV_NONE @ es)" and "FRAME_EV_COMPLETE \<notin> set es"
  shows "spec_print a bs = concat (map (\<lambda>e. spec_text e None) es)"
proof -
  have "concat (map (\<lambda>e. spec_text e None) (replicate n FRAME_EV_NONE)) = []"
    by (induction n) (simp_all add: spec_text_def)
  moreover have "FRAME_EV_COMPLETE \<notin> set (replicate n FRAME_EV_NONE @ es)"
    using assms(2) by auto
  ultimately show ?thesis
    using spec_print_events [OF assms(1)] unfolding map_append concat_append by simp
qed

lemma spec_print_quiet: "spec_run a bs = (a', replicate n FRAME_EV_NONE) \<Longrightarrow> spec_print a bs = []"
  using spec_print_rejected [of a bs a' n "[]"] by simp

lemma spec_print_bad_crc:
  assumes "length m = unat n" "unat n \<le> FRAME_MAX_PAYLOAD" and "[lo, hi] \<noteq> crc_wire n m"
  shows "spec_print None ([FRAME_STX, n] @ m @ [lo, hi] @ [FRAME_ETX]) = wire ''REJECTED: CRC mismatch'' @ [13, 10]"
  by (subst spec_print_rejected [OF spec_run_bad_crc(1) [OF assms]]) (simp_all add: spec_text_def)

lemma spec_print_encode:
  assumes "length m \<le> FRAME_MAX_PAYLOAD"
  shows "spec_print None (frame_encode m) = wire ''FRAME OK'' @ [13, 10] @ payload_text m"
proof -
  let ?n = "of_nat (length m) :: u8"
  have m: "length m = unat ?n" "unat ?n \<le> FRAME_MAX_PAYLOAD"
    using assms length_code [of m] by simp_all
  obtain lo hi where w: "crc_wire ?n m = [lo, hi]"
    using crc_wire_pair by blast
  define bs where "bs = [FRAME_STX, ?n] @ m @ [lo, hi]"
  have enc: "frame_encode m = bs @ [FRAME_ETX]"
    by (simp add: frame_encode_def Let_def w bs_def)
  have run: "spec_run None bs = (Some (?n # m @ [lo, hi]), replicate (length m + 4) FRAME_EV_NONE)"
    unfolding bs_def using spec_run_crc [OF m, of lo hi] w by simp
  have "spec_print None bs = []"
    by (rule spec_print_quiet [OF run])
  moreover have "spec_feed (Some (?n # m @ [lo, hi])) FRAME_ETX = (None, FRAME_EV_COMPLETE, Some m)"
    using m(1) by (simp add: Let_def)
  ultimately show ?thesis
    unfolding enc by (simp only: spec_print_append run) (simp add: spec_text_def)
qed

lemma handle_all_run:
  "\<lbrakk> uart_ready dev; frame_inv p; frame_rel p a; spec_run a bs = (a', es) \<rbrakk> \<Longrightarrow>
   \<exists>p' t'. handle_all dev bs (p, t) = Some (p', t') \<and> frame_run p bs = Some (p', es) \<and> frame_rel p' a' \<and> frame_inv p' \<and>
     writes_to UART0_DR t' = writes_to UART0_DR t @ map ucast (spec_print a bs)"
proof (induction bs arbitrary: p a es t)
  case (Cons b bs)
  obtain a1 ev m where s: "spec_feed a b = (a1, ev, m)"
    by (cases "spec_feed a b")
  obtain es1 where r: "spec_run a1 bs = (a', es1)" "es = ev # es1"
    using Cons.prems(4) s by (auto split: prod.splits)
  obtain p1 where f: "frame_feed p b = Some (p1, ev)" "frame_rel p1 a1" "frame_obs p1 ev = m"
    using frame_feed_refines [OF Cons.prems(3) s] by blast
  obtain evs where h: "handle dev b (p, t) = Some (p1, t @ evs)" "writes_to UART0_DR evs = map ucast (event_text p1 ev)" "frame_inv p1"
    using handle_step [OF Cons.prems(1,2) f(1)] by blast
  obtain p' t' where "handle_all dev bs (p1, t @ evs) = Some (p', t')" "frame_run p1 bs = Some (p', es1)" "frame_rel p' a'"
      "frame_inv p'" "writes_to UART0_DR t' = writes_to UART0_DR (t @ evs) @ map ucast (spec_print a1 bs)"
    using Cons.IH [OF Cons.prems(1) h(3) f(2) r(1)] by blast
  then show ?case
    using f(1) h(1,2) s event_spec_text [OF f(3)] r(2)
    by (intro exI [of _ p'] exI [of _ t']) (simp add: handle_all_fun del: handle.simps)
qed simp

lemma handle_all_event:
  "\<lbrakk> uart_ready dev; frame_inv p; frame_run p bs = Some (p', es @ [e]); set es \<subseteq> {FRAME_EV_NONE} \<rbrakk> \<Longrightarrow>
   \<exists>evs. handle_all dev bs (p, t) = Some (p', t @ evs) \<and> uart_only evs \<and>
     writes_to UART0_DR evs = map ucast (event_text p' e)"
proof (induction bs arbitrary: p es t)
  case (Cons b bs)
  then obtain p1 e1 es1 where f: "frame_feed p b = Some (p1, e1)" "frame_run p1 bs = Some (p', es1)" "es @ [e] = e1 # es1"
    by (auto split: bind_splits)
  obtain evs where h: "handle dev b (p, t) = Some (p1, t @ evs)" "uart_only evs"
    "writes_to UART0_DR evs = map ucast (event_text p1 e1)" "frame_inv p1"
    using handle_step [OF Cons.prems(1,2) f(1)] by blast
  show ?case
  proof (cases es)
    case Nil
    then have "es1 = []" "e1 = e"
      using f(3) by auto
    then have "bs = []" "p1 = p'"
      using f(2) by (cases bs; auto split: bind_splits)+
    then show ?thesis
      using h \<open>e1 = e\<close> by (simp add: handle_all_fun del: handle.simps)
  next
    case (Cons e0 es0)
    then have "e1 = FRAME_EV_NONE" "es1 = es0 @ [e]" "set es0 \<subseteq> {FRAME_EV_NONE}"
      using f(3) Cons.prems(4) by auto
    then obtain evs' where "handle_all dev bs (p1, t @ evs) = Some (p', (t @ evs) @ evs')" "uart_only evs'"
      "writes_to UART0_DR evs' = map ucast (event_text p' e)"
      using Cons.IH [OF Cons.prems(1) h(4), of es0 "t @ evs"] f(2) by auto
    then show ?thesis
      using h \<open>e1 = FRAME_EV_NONE\<close>
      by (intro exI [of _ "evs @ evs'"]) (simp add: handle_all_fun event_text_def del: handle.simps)
  qed
qed simp

lemma noise_all: "noise dev n = handle_all dev (replicate n 0x55)"
proof (induction n)
  case (Suc n)
  then show ?case
    by (intro ext) (simp del: handle.simps)
qed (simp add: fun_eq_iff)

lemma crc_of_loop_eq:
  assumes "unat len \<le> length payload" and "unat i \<le> unat len"
  shows "crc_of_loop payload len i crc = Some (crc_bytes crc (drop (unat i) (take (unat len) payload)))"
  using assms(2)
proof (induction "unat len - unat i" arbitrary: i crc)
  case 0
  then have "\<not> i < len" "drop (unat i) (take (unat len) payload) = []"
    by (auto simp: word_less_nat_alt)
  then show ?case
    by (subst crc_of_loop.simps) simp
next
  case (Suc n)
  then have lt: "unat i < unat len" "i < len"
    by (auto simp: word_less_nat_alt)
  note S = unat_Suc_below [OF lt(1)]
  have d: "drop (unat i) (take (unat len) payload) = payload ! unat i # drop (unat (i + 1)) (take (unat len) payload)"
    unfolding S using lt(1) assms(1) by (subst Cons_nth_drop_Suc [symmetric]) simp_all
  show ?case
    using Suc.hyps(2) lt assms(1) unfolding d
    by (subst crc_of_loop.simps) (simp add: mem Suc.hyps(1) S)
qed

lemma crc_of_eq:
  assumes "unat len \<le> length payload"
  shows "crc_of payload len = Some (crc_bytes 0xFFFF (len # take (unat len) payload))"
  using crc_of_loop_eq [OF assms, of 0] by (simp add: crc_of_def)

text \<open>What is injected: a frame, its first payload byte flipped when asked for.\<close>

definition flip :: "bool \<Rightarrow> u8 list \<Rightarrow> u8 list" where
  "flip corrupt m = (case m of [] \<Rightarrow> [] | b # bs \<Rightarrow> (b XOR (if corrupt then 1 else 0)) # bs)"

lemma inject_loop_rest:
  assumes "unat len \<le> length payload" and "0 < unat i" and "unat i \<le> unat len"
  shows "inject_loop dev payload len corrupt i s = handle_all dev (drop (unat i) (take (unat len) payload)) s"
  using assms(2,3)
proof (induction "unat len - unat i" arbitrary: i s)
  case 0
  then have "\<not> i < len" "drop (unat i) (take (unat len) payload) = []"
    by (auto simp: word_less_nat_alt)
  then show ?case
    by (subst inject_loop.simps) simp
next
  case (Suc n)
  then have lt: "unat i < unat len" "i < len" "i \<noteq> 0"
    by (auto simp: word_less_nat_alt)
  note S = unat_Suc_below [OF lt(1)]
  have d: "drop (unat i) (take (unat len) payload) = payload ! unat i # drop (unat (i + 1)) (take (unat len) payload)"
    unfolding S using lt(1) assms(1) by (subst Cons_nth_drop_Suc [symmetric]) simp_all
  have ih: "inject_loop dev payload len corrupt (i + 1) = handle_all dev (drop (unat (i + 1)) (take (unat len) payload))"
    using Suc.hyps(2) lt(1) by (intro ext Suc.hyps(1)) (simp_all add: S)
  have "arr_get payload (unat i) = Some (payload ! unat i)"
    using lt(1) assms(1) by (simp add: mem)
  then show ?case
    using lt unfolding d by (subst inject_loop.simps) (simp add: ih)
qed

lemma inject_loop_all:
  assumes "unat len \<le> length payload"
  shows "inject_loop dev payload len corrupt 0 s = handle_all dev (flip corrupt (take (unat len) payload)) s"
proof (cases "len = 0")
  case True
  then show ?thesis
    by (subst inject_loop.simps) (simp add: flip_def)
next
  case False
  then have lt: "unat (0 :: u8) < unat len" "0 < len"
    by (simp_all add: unat_gt_0 word_neq_0_conv)
  obtain b bs where p: "payload = b # bs"
    using assms lt(1) by (cases payload) auto
  have "take (unat len) payload = b # drop 1 (take (unat len) payload)"
    using lt(1) p by (cases "unat len") simp_all
  then have "flip corrupt (take (unat len) payload) = (b XOR (if corrupt then 1 else 0)) # drop 1 (take (unat len) payload)"
    unfolding flip_def by (metis list.case(2))
  moreover have "inject_loop dev payload len corrupt 1 = handle_all dev (drop 1 (take (unat len) payload))"
    using inject_loop_rest [OF assms, of 1] lt(1) by (simp add: fun_eq_iff)
  ultimately show ?thesis
    using lt(2) p by (subst inject_loop.simps) (simp add: mem handle_all_fun del: handle.simps)
qed

lemma crc_halves: "(ucast (c AND 0xFF) :: u8) = ucast c" for c :: u16
proof -
  have m: "(0xFF :: u16) = mask 8"
    by (simp add: mask_eq_exp_minus_1)
  show ?thesis
    unfolding m by (rule bit_word_eqI) (auto simp: bit_simps)
qed

lemma inject_frame_all:
  assumes "unat len \<le> length payload"
  shows "inject_frame dev payload len corrupt s =
    handle_all dev ([FRAME_STX, len] @ flip corrupt (take (unat len) payload) @
      crc_wire len (take (unat len) payload) @ [FRAME_ETX]) s"
  unfolding inject_frame_def crc_of_eq [OF assms] bind.bind_lunit inject_loop_all [OF assms] crc_halves
  by (simp add: handle_all_fun crc_wire_def Let_def del: handle.simps)

text \<open>The parser between frames, and how an injection moves its counters.\<close>

definition between :: "frame_parser \<Rightarrow> bool" where
  "between p \<longleftrightarrow> frame_rel p None \<and> frame_inv p"

definition counters :: "frame_parser \<Rightarrow> u32 list" where
  "counters p = [fp_frames_ok p, fp_err_crc p, fp_err_length p, fp_err_framing p, fp_bytes_discarded p]"

lemma handle_all_spec:
  assumes "uart_ready dev" and "between p" and "spec_run None bs = (None, es)"
  shows "\<exists>p' t'. handle_all dev bs (p, t) = Some (p', t') \<and> between p' \<and>
    counters p' = map2 (+) (counters p) (map of_nat
      [count_list es FRAME_EV_COMPLETE, count_list es FRAME_EV_ERR_CRC, count_list es FRAME_EV_ERR_LENGTH,
       count_list es FRAME_EV_ERR_FRAMING, spec_discards None bs]) \<and>
    writes_to UART0_DR t' = writes_to UART0_DR t @ map ucast (spec_print None bs)"
proof -
  obtain p' t' where r: "handle_all dev bs (p, t) = Some (p', t')" "frame_run p bs = Some (p', es)" "frame_rel p' None"
      "frame_inv p'" "writes_to UART0_DR t' = writes_to UART0_DR t @ map ucast (spec_print None bs)"
    using handle_all_run [OF assms(1) _ _ assms(3), of p t] assms(2) unfolding between_def by blast
  then show ?thesis
    using run_counts [OF r(2)] run_discards [OF _ r(2), of None] assms(2)
    by (auto simp: between_def counters_def)
qed

lemma spec_run_noise:
  assumes "b \<noteq> FRAME_STX"
  shows "spec_run None (replicate n b) = (None, replicate n FRAME_EV_NONE)" "spec_discards None (replicate n b) = n"
  using assms by (induction n) simp_all

lemma inject_frame_encode:
  assumes "length m \<le> FRAME_MAX_PAYLOAD"
  shows "inject_frame dev m (of_nat (length m)) False s = handle_all dev (frame_encode m) s"
proof -
  have "flip False m = m"
    by (cases m) (simp_all add: flip_def)
  then show ?thesis
    using inject_frame_all [of "of_nat (length m)" m] length_code [OF assms] by (simp add: frame_encode_def Let_def)
qed

text \<open>\<open>adds f cs out\<close>: between frames, \<open>f\<close> returns between frames having added \<open>cs\<close> to the counters and
  printed \<open>out\<close>.\<close>

definition adds :: "(demo \<Rightarrow> demo option) \<Rightarrow> u32 list \<Rightarrow> u8 list \<Rightarrow> bool" where
  "adds f cs out \<longleftrightarrow> (\<forall>p t. between p \<longrightarrow>
     (\<exists>p' t'. f (p, t) = Some (p', t') \<and> between p' \<and> counters p' = map2 (+) (counters p) cs \<and>
       writes_to UART0_DR t' = writes_to UART0_DR t @ map ucast out))"

lemma adds_then:
  assumes "adds f cs out" and "between p"
    and "\<And>p' t'. between p' \<Longrightarrow> counters p' = map2 (+) (counters p) cs \<Longrightarrow>
      writes_to UART0_DR t' = writes_to UART0_DR t @ map ucast out \<Longrightarrow> \<exists>r. g (p', t') = Some r \<and> P r"
  shows "\<exists>r. f (p, t) \<bind> g = Some r \<and> P r"
proof -
  obtain p' t' where "f (p, t) = Some (p', t')" "between p'" "counters p' = map2 (+) (counters p) cs"
      "writes_to UART0_DR t' = writes_to UART0_DR t @ map ucast out"
    using assms(1,2) unfolding adds_def by blast
  then show ?thesis
    using assms(3) by simp
qed

lemma adds_handle:
  assumes "uart_ready dev" and "spec_run None bs = (None, es)"
    and "cs = map of_nat [count_list es FRAME_EV_COMPLETE, count_list es FRAME_EV_ERR_CRC, count_list es FRAME_EV_ERR_LENGTH,
      count_list es FRAME_EV_ERR_FRAMING, spec_discards None bs]"
    and "out = spec_print None bs"
  shows "adds (handle_all dev bs) cs out"
  using handle_all_spec [OF assms(1) _ assms(2)] unfolding adds_def assms(3,4) by blast

lemma adds_good:
  assumes "uart_ready dev" and "length m \<le> FRAME_MAX_PAYLOAD"
  shows "adds (inject_frame dev m (of_nat (length m)) False) [1, 0, 0, 0, 0] (wire ''FRAME OK'' @ [13, 10] @ payload_text m)"
proof -
  have e: "spec_run None (frame_encode m) = (None, replicate (length m + 4) FRAME_EV_NONE @ [FRAME_EV_COMPLETE])"
    "spec_discards None (frame_encode m) = 0"
    using spec_run_encode [OF assms(2)] frame_run_encode [OF frame_zero_rel(1) assms(2)] by auto
  have "adds (handle_all dev (frame_encode m)) [1, 0, 0, 0, 0] (wire ''FRAME OK'' @ [13, 10] @ payload_text m)"
    by (rule adds_handle [OF assms(1) e(1)]) (simp_all add: count_list_replicate e(2) spec_print_encode [OF assms(2)])
  then show ?thesis
    unfolding adds_def inject_frame_encode [OF assms(2)] .
qed

lemma adds_bad:
  assumes "uart_ready dev" and "2 \<le> length m" and "length m \<le> FRAME_MAX_PAYLOAD"
  shows "adds (inject_frame dev m (of_nat (length m)) True) [0, 1, 0, 0, 1] (wire ''REJECTED: CRC mismatch'' @ [13, 10])"
proof -
  obtain x y ys where m: "m = [] @ [x, y] @ ys"
    using assms(2) by (cases m; cases "tl m") auto
  have f: "flip True m = [] @ [x XOR 1, y] @ ys"
    by (simp add: m flip_def)
  have ne: "(x, y) \<noteq> (x XOR 1, y)"
    using word_xor_eq_0 [of x "x XOR 1"] by (metis Pair_inject one_neq_zero word_xor_cancel_left xor.left_neutral xor.right_neutral)
  have l: "unat (of_nat (length m) :: u8) = length m"
    using assms(3) by (rule length_code)
  let ?bs = "[FRAME_STX, of_nat (length m)] @ flip True m @ crc_wire (of_nat (length m)) m @ [FRAME_ETX]"
  note c = spec_run_corrupted [OF m f ne assms(3) refl]
  have out: "spec_print None ?bs = wire ''REJECTED: CRC mismatch'' @ [13, 10]"
    by (subst spec_print_rejected [OF c(1)]) (simp_all add: spec_text_def)
  have "adds (handle_all dev ?bs) [0, 1, 0, 0, 1] (wire ''REJECTED: CRC mismatch'' @ [13, 10])"
    by (rule adds_handle [OF assms(1) c(1) _ out [symmetric]]) (simp add: count_list_replicate c(2) del: append.simps spec_discards.simps)
  moreover have "inject_frame dev m (of_nat (length m)) True s = handle_all dev ?bs s" for s
    using inject_frame_all [of "of_nat (length m)" m dev True s] l by simp
  ultimately show ?thesis
    unfolding adds_def by simp
qed

lemma adds_long:
  assumes "uart_ready dev"
  shows "adds (\<lambda>s. handle dev FRAME_STX s \<bind> handle dev (of_nat (FRAME_MAX_PAYLOAD + 1))) [0, 0, 1, 0, 0]
    (wire ''REJECTED: length field exceeds buffer (this is the overflow that did not happen)'' @ [13, 10])"
proof -
  have run: "spec_run None [FRAME_STX, of_nat (FRAME_MAX_PAYLOAD + 1)] = (None, [FRAME_EV_NONE, FRAME_EV_ERR_LENGTH])"
    by (simp add: FRAME_MAX_PAYLOAD_def FRAME_STX_def)
  have out: "spec_print None [FRAME_STX, of_nat (FRAME_MAX_PAYLOAD + 1)] =
      wire ''REJECTED: length field exceeds buffer (this is the overflow that did not happen)'' @ [13, 10]"
    by (subst spec_print_events [OF run]) (simp_all add: spec_text_def)
  have "adds (handle_all dev [FRAME_STX, of_nat (FRAME_MAX_PAYLOAD + 1)]) [0, 0, 1, 0, 0]
      (wire ''REJECTED: length field exceeds buffer (this is the overflow that did not happen)'' @ [13, 10])"
    by (rule adds_handle [OF assms run _ out [symmetric]]) (simp add: FRAME_MAX_PAYLOAD_def FRAME_STX_def)
  then show ?thesis
    by (simp only: handle_all_fun bind_runit handle_all.simps)
qed

lemma adds_noise:
  assumes "uart_ready dev"
  shows "adds (noise dev 5) [0, 0, 0, 0, 5] []"
proof -
  have "(0x55 :: u8) \<noteq> FRAME_STX"
    by (simp add: FRAME_STX_def)
  note n = spec_run_noise [OF this, of 5]
  show ?thesis
    unfolding noise_all using spec_print_quiet [OF n(1)]
    by (intro adds_handle [OF assms n(1)]) (simp_all add: count_list_replicate n(2))
qed

text \<open>A line of the program, and a line that ends in a number.\<close>

lemma say_then:
  assumes "uart_ready dev" and "CHR 0x00 \<notin> set x"
    and "\<And>t'. writes_to UART0_DR t' = writes_to UART0_DR t @ map ucast (wire x @ [13, 10]) \<Longrightarrow> \<exists>r. g (p, t') = Some r \<and> P r"
  shows "\<exists>r. say dev (cline x) (p, t) \<bind> g = Some r \<and> P r"
proof -
  obtain evs where "uart_puts dev (cline x) t = Some (t @ evs)" "writes_to UART0_DR evs = map ucast (wire x @ [13, 10])"
    using prints_runs [OF prints_cline [OF assms(1,2)], of t] by blast
  then show ?thesis
    using assms(3) [of "t @ evs"] by (auto simp: say_def)
qed

lemma print_then:
  assumes "prints dev f out"
    and "\<And>t'. writes_to UART0_DR t' = writes_to UART0_DR t @ map ucast out \<Longrightarrow> \<exists>r. g t' = Some r \<and> P r"
  shows "\<exists>r. f t \<bind> g = Some r \<and> P r"
proof -
  obtain evs where "f t = Some (t @ evs)" "writes_to UART0_DR evs = map ucast out"
    using prints_runs [OF assms(1), of t] by blast
  then show ?thesis
    using assms(2) [of "t @ evs"] by auto
qed

lemma prints_counter_line:
  assumes "uart_ready dev" and "CHR 0x00 \<notin> set x"
  shows "prints dev (counter_line dev x v) (wire x @ map digit_char (decimal (unat v)) @ [13, 10])"
proof -
  have f: "counter_line dev x v = (\<lambda>t. uart_puts dev (cstr x) t \<bind> (\<lambda>t. uart_put_u32 dev v t \<bind> uart_puts dev (cline '''')))"
    by (simp add: fun_eq_iff counter_line_def)
  have nl: "prints dev (uart_puts dev (cline '''')) [13, 10]"
    using prints_cline [OF assms(1), of "''''"] by (simp add: wire_def crlf_def)
  show ?thesis
    unfolding f by (intro prints_bind prints_cstr prints_u32 nl assms)
qed

text \<open>What the self-test prints, line by line.\<close>

definition good_lines :: "string list" where
  "good_lines = [''FRAME OK'', ''  payload [4] = DE AD BE EF'']"

definition example06_lines :: "string list" where
  "example06_lines =
     [CHR 0x0A # ''=== framed protocol state machine ==='',
      ''wire format: STX | LEN | PAYLOAD | CRC16_LO | CRC16_HI | ETX'' @ [CHR 0x0A],
      ''1. a well-formed frame''] @ good_lines @
     [CHR 0x0A # ''2. same frame, one bit flipped in the payload'',
      ''REJECTED: CRC mismatch'',
      CHR 0x0A # ''3. a frame claiming a payload longer than the buffer'',
      ''REJECTED: length field exceeds buffer (this is the overflow that did not happen)'',
      CHR 0x0A # ''4. line noise, then a good frame (resynchronisation)''] @ good_lines @
     [CHR 0x0A # ''--- counters ---'',
      ''frames_ok       = 2'',
      ''err_crc         = 1'',
      ''err_length      = 1'',
      ''err_framing     = 0'',
      ''bytes_discarded = 6'',
      CHR 0x0A # ''self-test PASSED'',
      CHR 0x0A # ''Now interactive - send framed bytes over the UART.'']"

definition lines_text :: "string list \<Rightarrow> u8 list" where
  "lines_text ls = concat (map (\<lambda>l. wire l @ [13, 10]) ls)"

lemma lines_text_simps: "lines_text [] = []" "lines_text (l # ls) = wire l @ [13, 10] @ lines_text ls"
  "lines_text (xs @ ys) = lines_text xs @ lines_text ys"
  by (simp_all add: lines_text_def)

lemma good_text: "wire ''FRAME OK'' @ [13, 10] @ payload_text good = lines_text good_lines"
  by code_simp

lemma counter_text:
  "wire ''frames_ok       = '' @ map digit_char (decimal 2) @ ys = wire ''frames_ok       = 2'' @ ys"
  "wire ''err_crc         = '' @ map digit_char (decimal (Suc 0)) @ ys = wire ''err_crc         = 1'' @ ys"
  "wire ''err_length      = '' @ map digit_char (decimal (Suc 0)) @ ys = wire ''err_length      = 1'' @ ys"
  "wire ''err_framing     = '' @ map digit_char (decimal 0) @ ys = wire ''err_framing     = 0'' @ ys"
  "wire ''bytes_discarded = '' @ map digit_char (decimal 6) @ ys = wire ''bytes_discarded = 6'' @ ys"
proof -
  have "wire ''frames_ok       = '' @ map digit_char (decimal 2) = wire ''frames_ok       = 2''"
    "wire ''err_crc         = '' @ map digit_char (decimal (Suc 0)) = wire ''err_crc         = 1''"
    "wire ''err_length      = '' @ map digit_char (decimal (Suc 0)) = wire ''err_length      = 1''"
    "wire ''err_framing     = '' @ map digit_char (decimal 0) = wire ''err_framing     = 0''"
    "wire ''bytes_discarded = '' @ map digit_char (decimal 6) = wire ''bytes_discarded = 6''"
    by code_simp+
  then show "wire ''frames_ok       = '' @ map digit_char (decimal 2) @ ys = wire ''frames_ok       = 2'' @ ys"
    "wire ''err_crc         = '' @ map digit_char (decimal (Suc 0)) @ ys = wire ''err_crc         = 1'' @ ys"
    "wire ''err_length      = '' @ map digit_char (decimal (Suc 0)) @ ys = wire ''err_length      = 1'' @ ys"
    "wire ''err_framing     = '' @ map digit_char (decimal 0) @ ys = wire ''err_framing     = 0'' @ ys"
    "wire ''bytes_discarded = '' @ map digit_char (decimal 6) @ ys = wire ''bytes_discarded = 6'' @ ys"
    by (simp_all only: append_assoc [symmetric])
qed

section \<open>Properties\<close>

text \<open>A frame the target builds from any payload of at most 64 bytes is received and printed: the
  parser ends between frames with this payload as its message and one more good frame, and the
  bytes sent are the acknowledgement and the payload in hexadecimal.\<close>

theorem injected_frame_printed:
  assumes "uart_ready dev" and "frame_rel p None" and "frame_inv p" and "length m \<le> FRAME_MAX_PAYLOAD"
  shows "\<exists>p' evs. inject_frame dev m (of_nat (length m)) False (p, t) = Some (p', t @ evs) \<and>
    frame_message p' = m \<and> fp_frames_ok p' = fp_frames_ok p + 1 \<and> fp_state p' = FRAME_ST_IDLE \<and>
    writes_to UART0_DR evs = map ucast (wire ''FRAME OK'' @ [13, 10] @ payload_text m)"
proof -
  obtain p' where r: "frame_run p (frame_encode m) = Some (p', replicate (length m + 4) FRAME_EV_NONE @ [FRAME_EV_COMPLETE])"
    "frame_rel p' None" "frame_message p' = m"
    using frame_run_encode [OF assms(2,4)] by blast
  obtain evs where "handle_all dev (frame_encode m) (p, t) = Some (p', t @ evs)"
    "writes_to UART0_DR evs = map ucast (event_text p' FRAME_EV_COMPLETE)"
    using handle_all_event [OF assms(1,3) r(1), of t] by auto
  moreover have "fp_frames_ok p' = fp_frames_ok p + 1"
    using run_counts [OF r(1)] by (simp add: count_list_replicate)
  moreover have "fp_state p' = FRAME_ST_IDLE"
    using frame_rel_idle [OF r(2)] by simp
  ultimately show ?thesis
    unfolding inject_frame_encode [OF assms(4)] using r(3)
    by (intro exI [of _ p'] exI [of _ evs]) (simp add: event_text_def)
qed

theorem injected_frame_printed_witness:
  "\<exists>p' t. inject_frame uart_idle [0x41] 1 False (frame_reset frame_zero, []) = Some (p', t) \<and> frame_message p' = [0x41]"
  using injected_frame_printed [OF uart_idle_ready frame_zero_rel, of "[0x41]" "[]"]
  by (auto simp: FRAME_MAX_PAYLOAD_def simp del: inject_frame_def)

text \<open>C33. The self-test of the example passes on every port that makes room: it exits with status 0, the
  five counters are those the program asserts, and it prints exactly the lines of \<open>example06_lines\<close>:
  the two well-formed frames are acknowledged with their payloads, the one with the flipped bit and
  the one with the oversized length are rejected, each for its reason, and the noise prints nothing.\<close>

theorem example06_passes:
  assumes "uart_ready dev"
  shows "\<exists>p t'. example06 dev frame_zero t = Some (0, p, t') \<and> counters p = [2, 1, 1, 0, 6] \<and>
    writes_to UART0_DR t' = writes_to UART0_DR t @ map ucast (lines_text example06_lines)"
proof -
  obtain t1 where init: "uart_init dev 115200 t = Some t1" "writes_to UART0_DR t1 = writes_to UART0_DR t"
    by (rule uart_init_115200)
  have start: "between (frame_reset frame_zero)" "counters (frame_reset frame_zero) = [0, 0, 0, 0, 0]"
    unfolding between_def using frame_zero_rel
    by (simp_all add: counters_def frame_reset_def frame_zero_def)
  have other: "UART0_IM \<noteq> UART0_DR" "NVIC_ISER0 \<noteq> UART0_DR"
    by (simp_all add: uart_regs core_regs)
  have len: "of_nat (length good) = (4 :: u8)" "2 \<le> length good" "length good \<le> FRAME_MAX_PAYLOAD"
    by (simp_all add: good_def FRAME_MAX_PAYLOAD_def)
  note good = adds_good [OF assms len(3), unfolded len(1) good_text]
  note bad = adds_bad [OF assms len(2,3), unfolded len(1)]
  note steps = say_then [OF assms] print_then [OF prints_counter_line [OF assms]] adds_then [OF good]
    adds_then [OF bad] adds_then [OF adds_long [OF assms], unfolded bind_assoc]
    adds_then [OF adds_noise [OF assms]] print_then [OF prints_cline [OF assms]]
  have "\<exists>r. example06 dev frame_zero t = Some r \<and> (fst r = 0 \<and> counters (fst (snd r)) = [2, 1, 1, 0, 6] \<and>
      writes_to UART0_DR (snd (snd r)) = writes_to UART0_DR t @ map ucast (lines_text example06_lines))"
    unfolding example06_def init(1) bind.bind_lunit
    by (rule steps start | assumption | simp (no_asm) only: prod.case Let_def | simp (no_asm); fail)+
      (simp add: counters_def frame_reset_def frame_zero_def traffic other init(2) example06_lines_def lines_text_simps counter_text)
  then show ?thesis
    by auto
qed

theorem example06_passes_witness:
  "\<exists>p t. example06 uart_idle frame_zero [] = Some (0, p, t) \<and> counters p = [2, 1, 1, 0, 6] \<and>
    writes_to UART0_DR t = map ucast (lines_text example06_lines)"
  using example06_passes [OF uart_idle_ready, of "[]"] by simp

end
