(* ===== verification/Uart_Rx.thy ===== *)
theory Uart_Rx
  imports Uart
begin

unbundle bit_operations_syntax

text \<open>
  Receiving over the serial port of \<open>src/code/qemu-cortex-m/common/lm3s6965.h\<close>. The receive handlers of
  examples 04 and 06 are the same loop around different bodies: while the flag register says the
  queue is not empty, read a byte from the data register and consume it. The locale
  \<open>byte_handler\<close> has what that loop does on any body; the port is a parameter whose bytes
  may arrive at any time, also while the loop runs.
\<close>

section \<open>The receive side of the port\<close>

definition rx_taken :: "io_trace \<Rightarrow> nat" where
  "rx_taken t = length (reads_of UART0_DR t)"

text \<open>\<open>rx_stream dev t0 arrived bs\<close>: from the history \<open>t0\<close> on the port delivers the bytes \<open>bs\<close>.
  After the further events \<open>evs\<close> the first \<open>arrived evs\<close> of them have come in. The queue reads as empty
  exactly when all those have been taken, and the data register gives them in order. The
  bytes \<open>bs\<close> are those the queue accepts: the port has a queue of 16 entries, and a byte that comes in
  while it is full (the handlers print, and wait for room to print, before they look again) is lost
  and is not one of them.\<close>

definition rx_stream :: "device \<Rightarrow> io_trace \<Rightarrow> (io_trace \<Rightarrow> nat) \<Rightarrow> u8 list \<Rightarrow> bool" where
  "rx_stream dev t0 arrived bs \<longleftrightarrow>
     (\<forall>evs. arrived evs \<le> length bs \<and> (\<forall>e. arrived evs \<le> arrived (evs @ e)) \<and>
       (rx_taken evs \<le> arrived evs \<longrightarrow>
         (dev (t0 @ evs) UART0_FR AND UART_FR_RXFE = 0 \<longleftrightarrow> rx_taken evs < arrived evs) \<and>
         (rx_taken evs < arrived evs \<longrightarrow> ucast (dev (t0 @ evs) UART0_DR) = bs ! rx_taken evs)))"

lemma rx_taken_simps [simp]:
  "rx_taken [] = 0" "rx_taken (s @ t) = rx_taken s + rx_taken t"
  "rx_taken (Rd a v # t) = (if a = UART0_DR then Suc (rx_taken t) else rx_taken t)"
  "rx_taken (Wr a v # t) = rx_taken t" "rx_taken (Wr8 a w # t) = rx_taken t"
  by (simp_all add: rx_taken_def)

lemma uart_only_taken: "uart_only t \<Longrightarrow> rx_taken t = 0"
proof (induction t)
  case (Cons e t)
  then show ?case
    by (cases e) (auto simp: uart_only_def)
qed simp

text \<open>How often the handler has started: its first access clears the interrupt.\<close>

definition handler_starts :: "io_trace \<Rightarrow> nat" where
  "handler_starts t = length (writes_to UART0_ICR t)"

lemma handler_starts_simps [simp]:
  "handler_starts [] = 0" "handler_starts (s @ t) = handler_starts s + handler_starts t"
  "handler_starts (Rd a v # t) = handler_starts t"
  "handler_starts (Wr a v # t) = (if a = UART0_ICR then Suc (handler_starts t) else handler_starts t)"
  by (simp_all add: handler_starts_def)

lemma uart_only_starts: "uart_only t \<Longrightarrow> handler_starts t = 0"
proof (induction t)
  case (Cons e t)
  moreover have "UART0_DR \<noteq> UART0_ICR"
    by (simp add: uart_regs)
  ultimately show ?case
    by (cases e) (auto simp: uart_only_def)
qed simp

lemma rx_streamD:
  assumes "rx_stream dev t0 arrived bs"
  shows "arrived evs \<le> length bs" "arrived evs \<le> arrived (evs @ e)"
    "rx_taken evs \<le> arrived evs \<Longrightarrow> dev (t0 @ evs) UART0_FR AND UART_FR_RXFE = 0 \<longleftrightarrow> rx_taken evs < arrived evs"
    "rx_taken evs < arrived evs \<Longrightarrow> ucast (dev (t0 @ evs) UART0_DR) = bs ! rx_taken evs"
  using assms by (auto simp: rx_stream_def)

section \<open>A handler that drains the port\<close>

text \<open>What the bytes do to the state of a body, and what it prints, one byte after the other.\<close>

fun absorb :: "(u8 \<Rightarrow> 's \<Rightarrow> ('s \<times> u8 list) option) \<Rightarrow> u8 list \<Rightarrow> 's \<Rightarrow> ('s \<times> u8 list) option" where
  "absorb body [] s = Some (s, [])"
| "absorb body (b # bs) s = do { (s, x) \<leftarrow> body b s; (s, y) \<leftarrow> absorb body bs s; Some (s, x @ y) }"

lemma absorb_append:
  "absorb body (xs @ ys) s = do { (s, x) \<leftarrow> absorb body xs s; (s, y) \<leftarrow> absorb body ys s; Some (s, x @ y) }"
  by (induction xs arbitrary: s) (auto split: bind_split)

text \<open>An interrupt handler that runs \<open>n\<close> times.\<close>

fun handler_runs :: "('s \<Rightarrow> 's option) \<Rightarrow> nat \<Rightarrow> 's \<Rightarrow> 's option" where
  "handler_runs isr 0 s = Some s"
| "handler_runs isr (Suc n) s = isr s \<bind> handler_runs isr n"

locale byte_handler =
  fixes isr :: "device \<Rightarrow> 's \<times> io_trace \<Rightarrow> ('s \<times> io_trace) option"
    and drain :: "device \<Rightarrow> 's \<times> io_trace \<Rightarrow> ('s \<times> io_trace) option"
    and consume :: "device \<Rightarrow> u8 \<Rightarrow> 's \<times> io_trace \<Rightarrow> ('s \<times> io_trace) option"
    and body :: "u8 \<Rightarrow> 's \<Rightarrow> ('s \<times> u8 list) option"
    and inv :: "'s \<Rightarrow> bool"
  assumes isr_drains: "isr dev (s, t) = drain dev (s, reg_write UART0_ICR 0xFFFF t)"
    and drain_loop: "drain dev (s, t) =
      (case reg_read dev UART0_FR t of (v, t) \<Rightarrow>
       if v AND UART_FR_RXFE = 0
       then case reg_read dev UART0_DR t of (v, t) \<Rightarrow> consume dev (ucast (v AND 0xFF)) (s, t) \<bind> drain dev
       else Some (s, t))"
    and consumes: "uart_ready dev \<Longrightarrow> inv s \<Longrightarrow>
      \<exists>s' out evs. body b s = Some (s', out) \<and> inv s' \<and> consume dev b (s, t) = Some (s', t @ evs) \<and>
        uart_only evs \<and> writes_to UART0_DR evs = map ucast out"
begin

text \<open>However the bytes arrive, the loop returns, having consumed in order, each once, at least those
  that had come in when it began and none that has not come in when it ends.\<close>

lemma drains:
  assumes "uart_ready dev" and "inv s" and "rx_stream dev t0 arrived bs" and "rx_taken evs \<le> arrived evs"
  shows "\<exists>s' out more. drain dev (s, t0 @ evs) = Some (s', t0 @ evs @ more) \<and> inv s' \<and>
    arrived evs \<le> rx_taken (evs @ more) \<and> rx_taken (evs @ more) \<le> arrived (evs @ more) \<and>
    absorb body (take (rx_taken more) (drop (rx_taken evs) bs)) s = Some (s', out) \<and>
    writes_to UART0_DR more = map ucast out \<and> handler_starts more = 0"
  using assms(2,4)
proof (induction "length bs - rx_taken evs" arbitrary: s evs rule: less_induct)
  case (less evs s)
  note law = rx_streamD [OF assms(3)]
  let ?f = "Rd UART0_FR (dev (t0 @ evs) UART0_FR)"
  let ?evs1 = "evs @ [?f]"
  have grow: "rx_taken ?evs1 = rx_taken evs" "arrived evs \<le> arrived ?evs1"
    using law(2) by simp_all
  show ?case
  proof (cases "rx_taken evs < arrived evs")
    case False
    then have "drain dev (s, t0 @ evs) = Some (s, t0 @ evs @ [?f])"
      using law(3) [OF less.prems(2)] by (subst drain_loop) (simp add: reg_read_def)
    then show ?thesis
      using less.prems False grow by (intro exI [of _ s] exI [of _ "[]"] exI [of _ "[?f]"]) simp
  next
    case True
    let ?d = "Rd UART0_DR (dev (t0 @ ?evs1) UART0_DR)"
    let ?b = "bs ! rx_taken evs"
    have b: "ucast (dev (t0 @ ?evs1) UART0_DR) = ?b" "rx_taken evs < length bs"
      using law(4) [of ?evs1] law(1) [of evs] grow True by simp_all
    obtain s1 x e where c: "body ?b s = Some (s1, x)" "inv s1" "uart_only e" "writes_to UART0_DR e = map ucast x"
        "consume dev ?b (s, t0 @ ?evs1 @ [?d]) = Some (s1, (t0 @ ?evs1 @ [?d]) @ e)"
      using consumes [OF assms(1) less.prems(1)] by blast
    let ?evs2 = "?evs1 @ [?d] @ e"
    have taken: "rx_taken ?evs2 = Suc (rx_taken evs)" "arrived evs \<le> arrived ?evs2"
      using uart_only_taken [OF c(3)] law(2) [of evs "?f # ?d # e"] by simp_all
    have "length bs - rx_taken ?evs2 < length bs - rx_taken evs" "rx_taken ?evs2 \<le> arrived ?evs2"
      using taken b(2) True by linarith+
    then obtain s' y more where d: "drain dev (s1, t0 @ ?evs2) = Some (s', t0 @ ?evs2 @ more)" "inv s'"
        "arrived ?evs2 \<le> rx_taken (?evs2 @ more)" "rx_taken (?evs2 @ more) \<le> arrived (?evs2 @ more)"
        "absorb body (take (rx_taken more) (drop (rx_taken ?evs2) bs)) s1 = Some (s', y)"
        "writes_to UART0_DR more = map ucast y" "handler_starts more = 0"
      using less.hyps [of ?evs2 s1, OF _ c(2)] by blast
    have "drain dev (s, t0 @ evs) = drain dev (s1, t0 @ ?evs2)"
      using law(3) [OF less.prems(2)] True b(1) c(5) by (subst drain_loop) (simp add: reg_read_def)
    moreover have "take (Suc (rx_taken more)) (drop (rx_taken evs) bs) =
        ?b # take (rx_taken more) (drop (rx_taken ?evs2) bs)"
      unfolding taken(1) using b(2) by (simp add: Cons_nth_drop_Suc [symmetric])
    ultimately show ?thesis
      using d c(1,4) taken uart_only_taken [OF c(3)] uart_only_starts [OF c(3)]
      by (intro exI [of _ s'] exI [of _ "x @ y"] exI [of _ "[?f, ?d] @ e @ more"]) simp
  qed
qed

text \<open>So does any number of calls of the handler, whatever arrives between them; what had come in when
  the last of them began is taken.\<close>

lemma serves:
  assumes "uart_ready dev" and "inv s" and "rx_stream dev t0 arrived bs" and "rx_taken evs \<le> arrived evs"
  shows "\<exists>s' out more. handler_runs (isr dev) n (s, t0 @ evs) = Some (s', t0 @ evs @ more) \<and> inv s' \<and>
    (0 < n \<longrightarrow> arrived evs \<le> rx_taken (evs @ more)) \<and> rx_taken (evs @ more) \<le> arrived (evs @ more) \<and>
    (0 < n \<longrightarrow> (\<exists>pre. handler_starts pre = n \<and> arrived (evs @ pre) \<le> rx_taken (evs @ more))) \<and>
    absorb body (take (rx_taken more) (drop (rx_taken evs) bs)) s = Some (s', out) \<and>
    writes_to UART0_DR more = map ucast out"
  using assms(2,4)
proof (induction n arbitrary: s evs)
  case 0
  then show ?case
    by (intro exI [of _ s] exI [of _ "[]"]) simp
next
  case (Suc n)
  let ?c = "Wr UART0_ICR 0xFFFF"
  have start: "rx_taken (evs @ [?c]) \<le> arrived (evs @ [?c])" "arrived evs \<le> arrived (evs @ [?c])"
    using Suc.prems(2) rx_streamD(2) [OF assms(3), of evs "[?c]"] by simp_all
  obtain s1 x e1 where d: "drain dev (s, t0 @ evs @ [?c]) = Some (s1, t0 @ (evs @ [?c]) @ e1)" "inv s1"
      "arrived (evs @ [?c]) \<le> rx_taken ((evs @ [?c]) @ e1)" "rx_taken ((evs @ [?c]) @ e1) \<le> arrived ((evs @ [?c]) @ e1)"
      "absorb body (take (rx_taken e1) (drop (rx_taken (evs @ [?c])) bs)) s = Some (s1, x)"
      "writes_to UART0_DR e1 = map ucast x" "handler_starts e1 = 0"
    using drains [OF assms(1) Suc.prems(1) assms(3) start(1)] by blast
  let ?evs1 = "(evs @ [?c]) @ e1"
  obtain s2 y e2 where r: "handler_runs (isr dev) n (s1, t0 @ ?evs1) = Some (s2, t0 @ ?evs1 @ e2)" "inv s2"
      "rx_taken (?evs1 @ e2) \<le> arrived (?evs1 @ e2)"
      "0 < n \<longrightarrow> (\<exists>pre. handler_starts pre = n \<and> arrived (?evs1 @ pre) \<le> rx_taken (?evs1 @ e2))"
      "absorb body (take (rx_taken e2) (drop (rx_taken ?evs1) bs)) s1 = Some (s2, y)"
      "writes_to UART0_DR e2 = map ucast y"
    using Suc.IH [OF d(2,4)] by blast
  have "\<exists>pre. handler_starts pre = Suc n \<and> arrived (evs @ pre) \<le> rx_taken (evs @ [?c] @ e1 @ e2)"
  proof (cases "n = 0")
    case True
    have "arrived (evs @ [?c]) \<le> rx_taken (evs @ [?c] @ e1 @ e2)"
      using d(3) by simp
    then show ?thesis
      using True by (intro exI [of _ "[?c]"]) simp
  next
    case False
    then obtain pre where "handler_starts pre = n" "arrived (?evs1 @ pre) \<le> rx_taken (?evs1 @ e2)"
      using r(4) by blast
    then show ?thesis
      using d(7) by (intro exI [of _ "[?c] @ e1 @ pre"]) simp
  qed
  have "isr dev (s, t0 @ evs) = Some (s1, t0 @ ?evs1)"
    using d(1) by (simp add: isr_drains reg_write_def)
  moreover have "take (rx_taken e1 + rx_taken e2) (drop (rx_taken evs) bs) =
      take (rx_taken e1) (drop (rx_taken (evs @ [?c])) bs) @ take (rx_taken e2) (drop (rx_taken ?evs1) bs)"
    by (simp add: take_add add.commute)
  moreover have "UART0_ICR \<noteq> UART0_DR"
    by (simp add: uart_regs)
  ultimately show ?case
    using d r(1-3,5-) start \<open>\<exists>pre. _ pre = Suc n \<and> _ pre\<close>
    by (intro exI [of _ s2] exI [of _ "x @ y"] exI [of _ "[?c] @ e1 @ e2"]) (simp add: absorb_append)
qed

end

section \<open>A port that gives a burst\<close>

text \<open>All of \<open>bs\<close> is in the queue at the start, and nothing else comes.\<close>

definition burst_port :: "u8 list \<Rightarrow> device" where
  "burst_port bs t a =
     (if a = UART0_FR then (if rx_taken t < length bs then 0 else UART_FR_RXFE)
      else if a = UART0_DR \<and> rx_taken t < length bs then ucast (bs ! rx_taken t) else 0)"

lemma burst_port_ready: "uart_ready (burst_port bs)"
  by (auto simp: uart_ready_def gives_way_def burst_port_def tx_full_def UART_FR_TXFF_def UART_FR_RXFE_def push_bit_eq_mult
      intro!: exI [of _ 0])

lemma burst_port_stream: "rx_stream (burst_port bs) [] (\<lambda>evs. length bs) bs"
proof -
  have "(ucast (ucast w :: u32) :: u8) = w" for w :: u8
    by (rule bit_word_eqI) (auto simp: bit_simps)
  moreover have "UART_FR_RXFE \<noteq> 0"
    by (simp add: UART_FR_RXFE_def push_bit_eq_mult)
  ultimately show ?thesis
    by (simp add: rx_stream_def burst_port_def)
qed

section \<open>A port whose bytes trickle in\<close>

text \<open>With each interrupt up to eight more bytes of \<open>bs\<close> are in the queue, so that it is never full.\<close>

definition trickled :: "u8 list \<Rightarrow> io_trace \<Rightarrow> nat" where
  "trickled bs t = min (length bs) (8 * handler_starts t)"

definition trickle_port :: "u8 list \<Rightarrow> device" where
  "trickle_port bs t a =
     (if a = UART0_FR then (if rx_taken t < trickled bs t then 0 else UART_FR_RXFE)
      else if a = UART0_DR \<and> rx_taken t < trickled bs t then ucast (bs ! rx_taken t) else 0)"

lemma trickle_port_ready: "uart_ready (trickle_port bs)"
  by (auto simp: uart_ready_def gives_way_def trickle_port_def tx_full_def UART_FR_TXFF_def UART_FR_RXFE_def push_bit_eq_mult
      intro!: exI [of _ 0])

lemma trickle_port_stream: "rx_stream (trickle_port bs) [] (trickled bs) bs"
proof -
  have "(ucast (ucast w :: u32) :: u8) = w" for w :: u8
    by (rule bit_word_eqI) (auto simp: bit_simps)
  moreover have "UART_FR_RXFE \<noteq> 0"
    by (simp add: UART_FR_RXFE_def push_bit_eq_mult)
  moreover have "trickled bs evs \<le> trickled bs (evs @ e)" "trickled bs evs \<le> length bs" for evs e
    by (auto simp: trickled_def min_def)
  ultimately show ?thesis
    by (simp add: rx_stream_def trickle_port_def)
qed

end
