(* ===== verification/Frame_Uart.thy ===== *)
theory Frame_Uart
  imports Frame_Demo Uart_Rx
begin

unbundle bit_operations_syntax

text \<open>
  Frames that arrive over the wire, through the receive handler of
  \<open>src/code/qemu-cortex-m/06-protocol-state-machine/main.c\<close>: its loop is an instance of
  \<open>byte_handler\<close> whose body is the parser.
\<close>

definition feed_body :: "u8 \<Rightarrow> frame_parser \<Rightarrow> (frame_parser \<times> u8 list) option" where
  "feed_body b p = do { (p, ev) \<leftarrow> frame_feed p b; Some (p, event_text p ev) }"

interpretation parser: byte_handler UART0_rx_isr rx_drain handle feed_body frame_inv
proof
  fix dev s t
  show "UART0_rx_isr dev (s, t) = rx_drain dev (s, reg_write UART0_ICR 0xFFFF t)"
    by simp
  show "rx_drain dev (s, t) = (case reg_read dev UART0_FR t of (v, t) \<Rightarrow>
      if v AND UART_FR_RXFE = 0
      then case reg_read dev UART0_DR t of (v, t) \<Rightarrow> handle dev (ucast (v AND 0xFF)) (s, t) \<bind> rx_drain dev
      else Some (s, t))"
    by (subst rx_drain.simps) (simp del: handle.simps)
next
  fix dev s b t
  assume A: "uart_ready dev" "frame_inv s"
  obtain p' ev where f: "frame_feed s b = Some (p', ev)"
    using frame_feed_inv [OF A(2), of b] by auto
  show "\<exists>s' out evs. feed_body b s = Some (s', out) \<and> frame_inv s' \<and> handle dev b (s, t) = Some (s', t @ evs) \<and>
      uart_only evs \<and> writes_to UART0_DR evs = map ucast out"
    using handle_step [OF A f, of t] f by (auto simp: feed_body_def)
qed

text \<open>The bytes absorbed are the bytes fed to the parser.\<close>

lemma run_length: "frame_run p bs = Some (p', es) \<Longrightarrow> length es = length bs"
  by (induction bs arbitrary: p es) (auto split: bind_splits)

lemma absorb_quiet:
  "frame_run p bs = Some (p', es) \<Longrightarrow> set es \<subseteq> {FRAME_EV_NONE} \<Longrightarrow> absorb feed_body bs p = Some (p', [])"
  by (induction bs arbitrary: p es) (fastforce simp: feed_body_def event_text_def split: bind_splits)+

lemma absorb_event:
  assumes "frame_run p (bs @ [b]) = Some (p', es @ [e])" and "set es \<subseteq> {FRAME_EV_NONE}"
  shows "absorb feed_body (bs @ [b]) p = Some (p', event_text p' e)"
proof -
  obtain p1 where "frame_run p bs = Some (p1, es)" "frame_feed p1 b = Some (p', e)"
    using assms(1) by (auto simp: frame_run_append split: bind_splits)
  then show ?thesis
    using absorb_quiet [OF _ assms(2)] by (simp add: absorb_append feed_body_def)
qed

text \<open>A frame absorbed up to any byte: nothing is printed before its last one.\<close>

lemma absorb_encode:
  assumes "frame_rel p None" and "length m \<le> FRAME_MAX_PAYLOAD" and "absorb feed_body (take k (frame_encode m)) p = Some (p', out)"
  shows "if k < length (frame_encode m) then out = [] \<and> fp_frames_ok p' = fp_frames_ok p
    else frame_message p' = m \<and> fp_frames_ok p' = fp_frames_ok p + 1 \<and> frame_rel p' None \<and>
      out = wire ''FRAME OK'' @ [13, 10] @ payload_text m"
proof -
  have len: "length (frame_encode m) = length m + 5"
    by (simp add: frame_encode_def Let_def crc_wire_def)
  let ?es = "replicate (length m + 4) FRAME_EV_NONE @ [FRAME_EV_COMPLETE]"
  obtain q where q: "frame_run p (frame_encode m) = Some (q, ?es)" "frame_rel q None" "frame_message q = m"
    using frame_run_encode [OF assms(1,2)] by blast
  show ?thesis
  proof (cases "k < length (frame_encode m)")
    case True
    have "frame_run p (take k (frame_encode m) @ drop k (frame_encode m)) = Some (q, ?es)"
      using q(1) by simp
    then obtain p1 es1 es2 where r: "frame_run p (take k (frame_encode m)) = Some (p1, es1)" "es1 @ es2 = ?es"
      unfolding frame_run_append by (auto split: bind_splits)
    have "length es1 = k"
      using run_length [OF r(1)] True by simp
    then have "es1 = take k ?es"
      unfolding r(2) [symmetric] by simp
    then have es1: "es1 = replicate k FRAME_EV_NONE"
      using True len by simp
    then have "set es1 \<subseteq> {FRAME_EV_NONE}"
      by (simp add: set_replicate_conv_if)
    then show ?thesis
      using True absorb_quiet [OF r(1)] assms(3) run_counts [OF r(1)] by (auto simp: es1 count_list_replicate)
  next
    case False
    then have "take k (frame_encode m) = butlast (frame_encode m) @ [last (frame_encode m)]"
      using len by (subst append_butlast_last_id) auto
    then have "absorb feed_body (take k (frame_encode m)) p = Some (q, event_text q FRAME_EV_COMPLETE)"
      using absorb_event [of p "butlast (frame_encode m)" "last (frame_encode m)"] q(1) len by (cases "frame_encode m") auto
    then show ?thesis
      using False assms(3) q run_counts [OF q(1)] by (auto simp: event_text_def count_list_replicate)
  qed
qed

section \<open>Properties\<close>

text \<open>A frame sent over the wire is received: however its bytes arrive and however many interrupts
  they take, the handler loses, repeats and reorders none. Before the last byte nothing is
  printed; with it the parser holds the message, has counted one more good frame, and the
  acknowledgement with the payload has been printed, once. A handler that starts after the last
  byte has come in takes it.\<close>

theorem uart_frame_received:
  assumes "uart_ready dev" and "frame_rel p None" and "frame_inv p" and "length m \<le> FRAME_MAX_PAYLOAD"
    and "rx_stream dev t arrived (frame_encode m)"
  shows "\<exists>p' evs. handler_runs (UART0_rx_isr dev) n (p, t) = Some (p', t @ evs) \<and>
    (0 < n \<longrightarrow> arrived [] \<le> rx_taken evs) \<and>
    (if rx_taken evs < length (frame_encode m) then writes_to UART0_DR evs = [] \<and> fp_frames_ok p' = fp_frames_ok p
     else frame_message p' = m \<and> fp_frames_ok p' = fp_frames_ok p + 1 \<and> fp_state p' = FRAME_ST_IDLE \<and>
       writes_to UART0_DR evs = map ucast (wire ''FRAME OK'' @ [13, 10] @ payload_text m))"
proof -
  obtain p' out evs where r: "handler_runs (UART0_rx_isr dev) n (p, t) = Some (p', t @ evs)"
      "0 < n \<longrightarrow> arrived [] \<le> rx_taken evs" "absorb feed_body (take (rx_taken evs) (frame_encode m)) p = Some (p', out)"
      "writes_to UART0_DR evs = map ucast out"
    using parser.serves [OF assms(1,3,5), of "[]" n] by auto
  then show ?thesis
    using absorb_encode [OF assms(2,4) r(3)] frame_rel_idle [of p' None] by (auto split: if_splits)
qed

theorem uart_frame_received_witness:
  "\<exists>p t. UART0_rx_isr (burst_port (frame_encode [0x41])) (frame_reset frame_zero, []) = Some (p, t) \<and> frame_message p = [0x41]"
proof -
  have "length [0x41 :: u8] \<le> FRAME_MAX_PAYLOAD"
    by (simp add: FRAME_MAX_PAYLOAD_def)
  from uart_frame_received [OF burst_port_ready frame_zero_rel this burst_port_stream, of 1]
  obtain p t where "UART0_rx_isr (burst_port (frame_encode [0x41])) (frame_reset frame_zero, []) = Some (p, t)"
      "length (frame_encode [0x41]) \<le> rx_taken t" "rx_taken t < length (frame_encode [0x41]) \<or> frame_message p = [0x41]"
    by (auto split: bind_splits if_splits simp del: UART0_rx_isr.simps)
  then show ?thesis
    by auto
qed

end
