(* ===== verification/Crc_Errors.thy ===== *)
theory Crc_Errors
  imports Crc
begin

unbundle bit_operations_syntax

text \<open>
  Which transmission errors the CRC of \<open>src/code/portable/frame/frame.c\<close> detects, counted in flipped
  bits. The register is linear, so an error is detected exactly when the register is not zero after
  the pattern of flipped bits, its syndrome. The generator is a multiple of \<open>x + 1\<close>, so every odd
  number of flips shows; and the powers of \<open>x\<close> up to the length of a frame are distinct
  modulo it, so two flips show.
\<close>

section \<open>Counting bits\<close>

fun ones :: "bool list \<Rightarrow> nat" where
  "ones [] = 0"
| "ones (b # bs) = (if b then Suc (ones bs) else ones bs)"

lemma ones_append [simp]: "ones (xs @ ys) = ones xs + ones ys"
  by (induction xs) simp_all

lemma ones_0: "ones bs = 0 \<longleftrightarrow> bs = replicate (length bs) False"
  by (induction bs) auto

definition weight :: "u8 \<Rightarrow> nat" where
  "weight b = ones (byte_bits b)"

definition bit_errors :: "u8 list \<Rightarrow> u8 list \<Rightarrow> nat" where
  "bit_errors xs ys = sum_list (map2 (\<lambda>x y. weight (x XOR y)) xs ys)"

lemma byte_bits_xor: "byte_bits (x XOR y) = poly_add (byte_bits x) (byte_bits y)"
  by (simp add: byte_bits_def bit_simps)

lemma length_byte_bits [simp]: "length (byte_bits b) = 8"
  by (simp add: byte_bits_def)

text \<open>The pattern of flipped bits.\<close>

definition flips :: "u8 list \<Rightarrow> u8 list \<Rightarrow> bool list" where
  "flips xs ys = concat (map2 (\<lambda>x y. byte_bits (x XOR y)) xs ys)"

lemma flips_simps [simp]:
  "flips [] ys = []" "flips (x # xs) (y # ys) = byte_bits (x XOR y) @ flips xs ys"
  by (simp_all add: flips_def)

lemma ones_flips: "ones (flips xs ys) = bit_errors xs ys"
  unfolding flips_def bit_errors_def by (induction xs ys rule: list_induct2') (simp_all add: weight_def)

lemma length_flips: "length xs = length ys \<Longrightarrow> length (flips xs ys) = 8 * length xs"
  by (induction xs ys rule: list_induct2) simp_all

lemma bit_errors_append: "length xs = length xs' \<Longrightarrow> bit_errors (xs @ ys) (xs' @ ys') = bit_errors xs xs' + bit_errors ys ys'"
  by (simp add: bit_errors_def)

section \<open>The syndrome\<close>

lemma shift_bit_xor: "crc_shift_bit (a XOR b) (x = (\<not> y)) = crc_shift_bit a x XOR crc_shift_bit b y"
  by (auto simp: crc_shift_bit_def bit_simps push_bit_xor ac_simps)

lemma shift_bits_xor:
  "length xs = length ys \<Longrightarrow>
   foldl crc_shift_bit (a XOR b) (poly_add xs ys) = foldl crc_shift_bit a xs XOR foldl crc_shift_bit b ys"
  by (induction xs ys arbitrary: a b rule: list_induct2) (simp_all add: shift_bit_xor)

lemma crc_bytes_xor:
  assumes "length xs = length ys"
  shows "crc_bytes a xs XOR crc_bytes b ys = foldl crc_shift_bit (a XOR b) (flips xs ys)"
  using assms
proof (induction xs ys arbitrary: a b rule: list_induct2)
  case (Cons x xs y ys)
  have "foldl crc_shift_bit (a XOR b) (byte_bits (x XOR y)) = crc16_ccitt_update a x XOR crc16_ccitt_update b y"
    by (simp add: byte_bits_xor shift_bits_xor update_bits)
  with Cons show ?case
    by simp
qed simp

lemma shift_zeros: "foldl crc_shift_bit c (replicate k False) = (crc_step ^^ k) c"
proof (induction k arbitrary: c)
  case (Suc k)
  have "crc_shift_bit c False = crc_step c"
    using crc_step_shift [of c False] by simp
  with Suc [of "crc_step c"] show ?case
    by (simp add: funpow_swap1)
qed simp

lemma shift_zero_iff: "crc_shift_bit c b = 0 \<longleftrightarrow> c = (if b then 0x8000 else 0)"
proof -
  have "crc_shift_bit c b = 0 \<longleftrightarrow> c XOR (if b then 0x8000 else 0) = 0"
    unfolding crc_step_shift [symmetric] by (rule crc_step_eq_0)
  then show ?thesis
    by (simp only: word_xor_eq_0)
qed

lemma crc_steps_eq_0: "(crc_step ^^ k) c = 0 \<longleftrightarrow> c = 0"
  by (induction k) (simp_all add: crc_step_eq_0)

text \<open>The checksum that came with the message counts as the last sixteen bits of the pattern.\<close>

lemma word_bits_bytes: "word_bits d = byte_bits (ucast (drop_bit 8 d)) @ byte_bits (ucast d)"
  by (simp add: word_bits_def byte_bits_def bit_simps)

lemma word_of_bytes: "push_bit 8 (ucast (ucast (drop_bit 8 d) :: u8)) XOR ucast (ucast d :: u8) = d" for d :: u16
  by (rule bit_word_eqI) (auto simp: bit_simps)

lemma shift_word: "foldl crc_shift_bit c (word_bits d) = 0 \<longleftrightarrow> c = d"
proof -
  have "foldl crc_shift_bit c (word_bits d) = (crc_step ^^ 16) (c XOR d)"
    by (simp add: word_bits_bytes update_bits [symmetric] update_two word_of_bytes)
  then show ?thesis
    by (simp only: crc_steps_eq_0 word_xor_eq_0)
qed

lemma crc_match_iff:
  assumes "length xs = length ys"
  shows "crc_bytes a ys = w \<longleftrightarrow> foldl crc_shift_bit 0 (flips xs ys @ word_bits (crc_bytes a xs XOR w)) = 0"
proof -
  have "crc_bytes a xs XOR crc_bytes a ys = foldl crc_shift_bit 0 (flips xs ys)"
    using crc_bytes_xor [OF assms, of a a] by simp
  then show ?thesis
    by (simp add: shift_word) (metis word_xor_cancel_left)
qed

section \<open>Odd numbers of flips\<close>

lemma odd_poly_add: "length xs = length ys \<Longrightarrow> odd (ones (poly_add xs ys)) \<longleftrightarrow> odd (ones xs) \<noteq> odd (ones ys)"
  by (induction xs ys rule: list_induct2) auto

lemma odd_push: "odd (ones (word_bits (push_bit 1 c))) \<longleftrightarrow> odd (ones (word_bits c)) \<noteq> bit c 15"
proof -
  have "word_bits c = bit c 15 # tl (word_bits c)"
    by (simp add: word_bits_def)
  then have "ones (word_bits c) = (if bit c 15 then Suc (ones (tl (word_bits c))) else ones (tl (word_bits c)))"
    by (metis ones.simps(2))
  then show ?thesis
    unfolding word_bits_push by simp
qed

lemma odd_shift_bit: "odd (ones (word_bits (crc_shift_bit c b))) \<longleftrightarrow> odd (ones (word_bits c)) \<noteq> b"
proof -
  have p: "odd (ones ccitt_poly)"
    by (simp add: ccitt_poly_def)
  have x: "odd (ones (word_bits (v XOR 0x1021))) \<longleftrightarrow> even (ones (word_bits v))" for v
    unfolding word_bits_xor word_bits_poly using p by (subst odd_poly_add) simp_all
  show ?thesis
    using x [of "push_bit 1 c"] odd_push [of c]
    by (cases "bit c 15"; cases b) (auto simp: crc_shift_bit_def simp del: One_nat_def)
qed

lemma odd_shift: "odd (ones (word_bits (foldl crc_shift_bit c bs))) \<longleftrightarrow> odd (ones (word_bits c)) \<noteq> odd (ones bs)"
proof (induction bs arbitrary: c)
  case (Cons b bs)
  show ?case
    using Cons [of "crc_shift_bit c b"] odd_shift_bit [of c b] by (cases b) auto
qed simp

lemma odd_syndrome: "odd (ones bs) \<Longrightarrow> foldl crc_shift_bit 0 bs \<noteq> 0"
  using odd_shift [of 0 bs] by (auto simp: word_bits_def)

section \<open>Two flips\<close>

text \<open>\<open>returns k c\<close>: within \<open>k\<close> rounds the register comes to \<open>x^15\<close>.\<close>

fun returns :: "nat \<Rightarrow> u16 \<Rightarrow> bool" where
  "returns 0 c \<longleftrightarrow> c = 0x8000"
| "returns (Suc k) c \<longleftrightarrow> c = 0x8000 \<or> returns k (crc_step c)"

lemma returns_iff: "returns k c \<longleftrightarrow> (\<exists>j \<le> k. (crc_step ^^ j) c = 0x8000)"
proof (induction k arbitrary: c)
  case (Suc k)
  have "(\<exists>j \<le> Suc k. (crc_step ^^ j) c = 0x8000) \<longleftrightarrow> c = 0x8000 \<or> (\<exists>j \<le> k. (crc_step ^^ Suc j) c = 0x8000)"
    by (metis Suc_le_mono funpow_0 not0_implies_Suc zero_le)
  then show ?case
    by (simp add: Suc funpow_swap1)
qed simp

lemma no_return: "\<not> returns 600 0x1021"
  by code_simp

lemma one_oneE:
  assumes "ones bs = Suc n"
  obtains i cs where "bs = replicate i False @ True # cs" "ones cs = n"
proof -
  have "\<exists>i cs. bs = replicate i False @ True # cs \<and> ones cs = n"
    using assms
  proof (induction bs)
    case (Cons b bs)
    show ?case
    proof (cases b)
      case True
      then show ?thesis
        using Cons.prems by (intro exI [of _ 0] exI [of _ bs]) simp
    next
      case False
      then obtain i cs where "bs = replicate i False @ True # cs" "ones cs = n"
        using Cons by auto
      then show ?thesis
        using False by (intro exI [of _ "Suc i"] exI [of _ cs]) simp
    qed
  qed simp
  then show thesis
    using that by blast
qed

lemma two_onesE:
  assumes "ones bs = 2"
  obtains i j k where "bs = replicate i False @ True # replicate j False @ True # replicate k False"
proof -
  obtain i cs where cs: "bs = replicate i False @ True # cs" "ones cs = Suc 0"
    using assms by (auto simp: numeral_2_eq_2 elim: one_oneE)
  obtain j ds where "cs = replicate j False @ True # ds" "ones ds = 0"
    using cs(2) by (rule one_oneE)
  then show thesis
    using cs(1) that [of i j "length ds"] ones_0 [of ds] by simp
qed

lemma two_syndrome:
  assumes "ones bs = 2" and "length bs \<le> 600"
  shows "foldl crc_shift_bit 0 bs \<noteq> 0"
proof
  assume z: "foldl crc_shift_bit 0 bs = 0"
  obtain i j k where bs: "bs = replicate i False @ True # replicate j False @ True # replicate k False"
    using two_onesE [OF assms(1)] .
  have i: "(crc_step ^^ i) 0 = 0"
    by (simp add: crc_steps_eq_0)
  have one: "crc_shift_bit 0 True = 0x1021"
    by code_simp
  have "(crc_step ^^ j) 0x1021 = 0x8000"
    using z unfolding bs foldl_append foldl_Cons shift_zeros i one crc_steps_eq_0 shift_zero_iff by simp
  moreover have "j \<le> 600"
    using assms(2) bs by simp
  ultimately show False
    using no_return unfolding returns_iff by blast
qed

text \<open>Up to 73 bytes and their checksum: an odd number of flips, or two, never makes the received
  message and the received checksum agree.\<close>

lemma bit_errors_detected:
  assumes "length xs = length ys" and "length xs \<le> 73"
    and "e = bit_errors xs ys + ones (word_bits (crc_bytes a xs XOR w))" and "odd e \<or> e = 2"
  shows "crc_bytes a ys \<noteq> w"
proof -
  let ?bs = "flips xs ys @ word_bits (crc_bytes a xs XOR w)"
  have "ones ?bs = e" "length ?bs \<le> 600"
    using assms(1-3) by (simp_all add: ones_flips length_flips)
  then show ?thesis
    unfolding crc_match_iff [OF assms(1)] using assms(4) odd_syndrome [of ?bs] two_syndrome [of ?bs] by metis
qed

end
