(* ===== verification/Frame_Errors.thy ===== *)
theory Frame_Errors
  imports Frame Crc_Errors
begin

unbundle bit_operations_syntax

text \<open>
  Frames with flipped bits at the receiver of \<open>src/code/portable/frame/frame.c\<close>. The flips are anywhere in
  the message and its two CRC bytes; the start byte, the length and the end byte arrive intact.
\<close>

section \<open>Flips in a frame\<close>

lemma weight_0 [simp]: "weight 0 = 0"
  by (simp add: weight_def byte_bits_def)

lemma ones_word_bits_wire:
  "ones (word_bits (c XOR (ucast lo OR push_bit 8 (ucast hi)))) = bit_errors [ucast c, ucast (drop_bit 8 c)] [lo, hi]"
proof -
  let ?w = "ucast lo OR push_bit 8 (ucast hi) :: u16"
  have "ucast (c XOR ?w) = ucast c XOR lo" "ucast (drop_bit 8 (c XOR ?w)) = ucast (drop_bit 8 c) XOR hi"
    by (rule bit_word_eqI; auto simp: bit_simps dest: bit_imp_le_length)+
  then show ?thesis
    by (simp add: word_bits_bytes bit_errors_def weight_def del: drop_bit_xor)
qed

lemma crc_wire_flips:
  assumes "length m' = length m" and "length m \<le> FRAME_MAX_PAYLOAD"
    and "e = bit_errors (m @ crc_wire n m) (m' @ [lo, hi])" and "odd e \<or> e = 2"
  shows "[lo, hi] \<noteq> crc_wire n m'"
proof -
  let ?w = "ucast lo OR push_bit 8 (ucast hi) :: u16"
  have "bit_errors (n # m) (n # m') = bit_errors m m'"
    by (simp add: bit_errors_def)
  moreover have "bit_errors (crc_wire n m) [lo, hi] = ones (word_bits (crc_bytes 0xFFFF (n # m) XOR ?w))"
    by (simp only: ones_word_bits_wire crc_wire_def Let_def)
  ultimately have e: "e = bit_errors (n # m) (n # m') + ones (word_bits (crc_bytes 0xFFFF (n # m) XOR ?w))"
    using assms(1,3) by (simp only: bit_errors_append)
  then have "crc_bytes 0xFFFF (n # m') \<noteq> ?w"
    using assms(1,2) by (intro bit_errors_detected [OF _ _ e assms(4)]) (simp_all add: FRAME_MAX_PAYLOAD_def)
  then show ?thesis
    by (metis crc_wire_eq)
qed

section \<open>Properties\<close>

text \<open>C12. Every odd number of flipped bits and every two flipped bits in the message and the CRC of a
  frame are caught, wherever they are, so any one, two or three are: an idle parser reports
  \<open>FRAME_EV_ERR_CRC\<close> at the second CRC byte, counts one CRC error, completes nothing, and discards
  only the end mark.\<close>

theorem frame_bit_errors_detected:
  assumes "frame_rel p None" and "length m \<le> FRAME_MAX_PAYLOAD" and "n = of_nat (length m)"
    and "length m' = length m" and "e = bit_errors (m @ crc_wire n m) (m' @ [lo, hi])" and "odd e \<or> e = 2"
  shows "\<exists>p'. frame_run p ([FRAME_STX, n] @ m' @ [lo, hi] @ [FRAME_ETX]) =
      Some (p', replicate (length m + 3) FRAME_EV_NONE @ [FRAME_EV_ERR_CRC, FRAME_EV_NONE]) \<and>
    fp_state p' = FRAME_ST_IDLE \<and> fp_err_crc p' = fp_err_crc p + 1 \<and>
    fp_frames_ok p' = fp_frames_ok p \<and> fp_bytes_discarded p' = fp_bytes_discarded p + 1"
proof -
  have "length m' = unat n" "unat n \<le> FRAME_MAX_PAYLOAD"
    using assms(2-4) length_code [of m] by simp_all
  from frame_run_bad_crc [OF assms(1) spec_run_bad_crc [OF this crc_wire_flips [OF assms(4,2,5,6)]]]
  show ?thesis
    by (simp only: assms(4))
qed

theorem frame_bit_errors_detected_witness:
  "\<exists>p'. frame_run (frame_reset frame_zero) ([FRAME_STX, 1] @ [0x42] @ [0xDB, 0x77] @ [FRAME_ETX]) =
      Some (p', replicate 4 FRAME_EV_NONE @ [FRAME_EV_ERR_CRC, FRAME_EV_NONE])"
proof -
  let ?m = "[0x41] :: u8 list"
  have m: "length ?m \<le> FRAME_MAX_PAYLOAD" "1 = of_nat (length ?m)" "length [0x42 :: u8] = length ?m" "length ?m + 3 = 4"
    by (simp_all add: FRAME_MAX_PAYLOAD_def)
  have "3 = bit_errors (?m @ crc_wire 1 ?m) ([0x42] @ [0xDB, 0x77])"
    by code_simp
  from frame_bit_errors_detected [OF frame_zero_rel(1) m(1-3) this] show ?thesis
    unfolding m(4) by fastforce
qed

text \<open>Three is the limit. The CRC goes out with its low byte first, so these four flips, the last bit of
  the message and three bits of its CRC, lie within 13 bits of the frame and are not caught.\<close>

lemma four_errors_pass:
  "bit_errors ([0x41] @ crc_wire 1 [0x41]) ([0x40] @ crc_wire 1 [0x40]) = 4"
  "map2 (\<lambda>x y. x XOR y) ([0x41] @ crc_wire 1 [0x41]) ([0x40] @ crc_wire 1 [0x40]) = [0x01, 0x21, 0x10]"
  by code_simp+

end
