(* ===== verification/Deliveries.thy ===== *)
theory Deliveries
  imports Transitions
begin

text \<open>
  What a caller keeps of a machine that answers every input with an event: the outputs \<open>out s e\<close> it
  reads from the machine's state when the event tells it to. \<open>output_refinement\<close> is a machine whose
  outputs are those of an abstract one; the receivers of \<open>Frame\<close> and \<open>Isotp\<close> are instances.
\<close>

fun machine_outputs ::
    "('s \<Rightarrow> 'x \<Rightarrow> ('s \<times> 'e) option) \<Rightarrow> ('s \<Rightarrow> 'e \<Rightarrow> 'o option) \<Rightarrow> 's \<Rightarrow> 'x list \<Rightarrow> ('s \<times> 'o list) option" where
  "machine_outputs step out s [] = Some (s, [])"
| "machine_outputs step out s (x # xs) = do {
     (s1, e) \<leftarrow> step s x;
     (s2, ys) \<leftarrow> machine_outputs step out s1 xs;
     Some (s2, case out s1 e of None \<Rightarrow> ys | Some y \<Rightarrow> y # ys)
   }"

lemma machine_outputs_append:
  "machine_outputs step out s (xs @ ys) = do {
     (s1, os) \<leftarrow> machine_outputs step out s xs;
     (s2, os') \<leftarrow> machine_outputs step out s1 ys;
     Some (s2, os @ os')
   }"
  by (induction xs arbitrary: s) (auto split: bind_splits option.splits)

fun spec_outputs :: "('a \<Rightarrow> 'x \<Rightarrow> 'a \<times> 'o option) \<Rightarrow> 'a \<Rightarrow> 'x list \<Rightarrow> 'a \<times> 'o list" where
  "spec_outputs spec a [] = (a, [])"
| "spec_outputs spec a (x # xs) =
     (let (a1, y) = spec a x; (a2, ys) = spec_outputs spec a1 xs in (a2, case y of None \<Rightarrow> ys | Some y \<Rightarrow> y # ys))"

lemma spec_outputs_append:
  "spec_outputs spec a (xs @ ys) =
     (let (a1, os) = spec_outputs spec a xs; (a2, os') = spec_outputs spec a1 ys in (a2, os @ os'))"
  by (induction xs arbitrary: a) (auto split: prod.splits option.splits)

locale output_refinement =
  fixes step :: "'s \<Rightarrow> 'x \<Rightarrow> ('s \<times> 'e) option"
    and out :: "'s \<Rightarrow> 'e \<Rightarrow> 'o option"
    and spec :: "'a \<Rightarrow> 'x \<Rightarrow> 'a \<times> 'o option"
    and rel :: "'s \<Rightarrow> 'a \<Rightarrow> bool"
    and ok :: "'x \<Rightarrow> bool"
  assumes outputs: "rel s a \<Longrightarrow> ok x \<Longrightarrow>
    \<exists>s' e. step s x = Some (s', e) \<and> out s' e = snd (spec a x) \<and> rel s' (fst (spec a x))"
begin

lemma run_outputs:
  assumes "rel s a" and "list_all ok xs"
  shows "\<exists>s'. machine_outputs step out s xs = Some (s', snd (spec_outputs spec a xs)) \<and>
    rel s' (fst (spec_outputs spec a xs))"
  using assms
proof (induction xs arbitrary: s a)
  case (Cons x xs)
  then obtain s1 e where s1: "step s x = Some (s1, e)" "out s1 e = snd (spec a x)" "rel s1 (fst (spec a x))"
    using outputs by fastforce
  then show ?case
    using Cons.IH [OF s1(3)] Cons.prems(2) by (auto simp: Let_def split_beta)
qed simp

end

end
