(* ===== verification/Frame_Stream.thy ===== *)
theory Frame_Stream
  imports Frame_Errors Deliveries
begin

text \<open>
  A whole stream at the receiver of \<open>src/code/portable/frame/frame.c\<close>: frames, frames that arrive with
  flipped bits, and noise between them. \<open>frame_deliveries\<close> is a caller that keeps the message of every
  completed frame.
\<close>

section \<open>A caller that keeps the messages\<close>

abbreviation frame_deliveries :: "frame_parser \<Rightarrow> u8 list \<Rightarrow> (frame_parser \<times> u8 list list) option" where
  "frame_deliveries \<equiv> machine_outputs frame_feed frame_obs"

interpretation delivered: output_refinement frame_feed frame_obs
  "\<lambda>a b. case spec_feed a b of (a', e, m) \<Rightarrow> (a', m)" frame_rel "\<lambda>b. True"
proof
  fix p a b
  assume "frame_rel p a"
  moreover obtain a' e m where "spec_feed a b = (a', e, m)"
    using prod_cases3 by blast
  ultimately show "\<exists>p' e. frame_feed p b = Some (p', e) \<and>
      frame_obs p' e = snd (case spec_feed a b of (a', e, m) \<Rightarrow> (a', m)) \<and>
      frame_rel p' (fst (case spec_feed a b of (a', e, m) \<Rightarrow> (a', m)))"
    using frame_feed_refines by simp blast
qed

text \<open>What the abstract receiver delivers of a stream.\<close>

abbreviation spec_deliveries :: "u8 list option \<Rightarrow> u8 list \<Rightarrow> u8 list option \<times> u8 list list" where
  "spec_deliveries \<equiv> spec_outputs (\<lambda>a b. case spec_feed a b of (a', e, m) \<Rightarrow> (a', m))"

lemma deliveries_none:
  "frame_run p bs = Some (p', es) \<Longrightarrow> FRAME_EV_COMPLETE \<notin> set es \<Longrightarrow> frame_deliveries p bs = Some (p', [])"
  by (induction bs arbitrary: p es) (auto simp: frame_obs_def split: bind_splits)

lemma deliveries_last:
  assumes "frame_run p (bs @ [b]) = Some (p', es @ [FRAME_EV_COMPLETE])" and "FRAME_EV_COMPLETE \<notin> set es"
  shows "frame_deliveries p (bs @ [b]) = Some (p', [frame_message p'])"
proof -
  obtain p1 where "frame_run p bs = Some (p1, es)" "frame_feed p1 b = Some (p', FRAME_EV_COMPLETE)"
    using assms(1) by (auto simp: frame_run_append split: bind_splits)
  then show ?thesis
    using deliveries_none [OF _ assms(2)] by (simp add: machine_outputs_append frame_obs_def)
qed

section \<open>What is on the line\<close>

text \<open>\<open>Noise b\<close> is a byte that is not a start byte, \<open>Sent m\<close> the frame of \<open>m\<close>, and \<open>Damaged m m' lo hi\<close> the
  frame of \<open>m\<close> whose message arrives as \<open>m'\<close> and its CRC bytes as \<open>lo\<close> and \<open>hi\<close>.\<close>

datatype item = Noise u8 | Sent "u8 list" | Damaged "u8 list" "u8 list" u8 u8

fun item_ok :: "item \<Rightarrow> bool" where
  "item_ok (Noise b) \<longleftrightarrow> b \<noteq> FRAME_STX"
| "item_ok (Sent m) \<longleftrightarrow> length m \<le> FRAME_MAX_PAYLOAD"
| "item_ok (Damaged m m' lo hi) \<longleftrightarrow> length m \<le> FRAME_MAX_PAYLOAD \<and> length m' = length m \<and>
     (let e = bit_errors (m @ crc_wire (of_nat (length m)) m) (m' @ [lo, hi]) in odd e \<or> e = 2)"

fun item_bytes :: "item \<Rightarrow> u8 list" where
  "item_bytes (Noise b) = [b]"
| "item_bytes (Sent m) = frame_encode m"
| "item_bytes (Damaged m m' lo hi) = [FRAME_STX, of_nat (length m)] @ m' @ [lo, hi] @ [FRAME_ETX]"

fun messages :: "item list \<Rightarrow> u8 list list" where
  "messages [] = []"
| "messages (Sent m # is) = m # messages is"
| "messages (_ # is) = messages is"

fun damages :: "item list \<Rightarrow> nat" where
  "damages [] = 0"
| "damages (Damaged _ _ _ _ # is) = Suc (damages is)"
| "damages (_ # is) = damages is"

text \<open>Bytes the parser discards: the noise, and the end byte of every damaged frame.\<close>

fun strays :: "item list \<Rightarrow> nat" where
  "strays [] = 0"
| "strays (Sent _ # is) = strays is"
| "strays (_ # is) = Suc (strays is)"

lemma items_Cons:
  "messages (i # is) = messages [i] @ messages is" "damages (i # is) = damages [i] + damages is"
  "strays (i # is) = strays [i] + strays is"
  by (cases i; simp)+

text \<open>One of them, from an idle parser to an idle parser.\<close>

definition item_events :: "item list \<Rightarrow> frame_event list \<Rightarrow> bool" where
  "item_events is es \<longleftrightarrow> count_list es FRAME_EV_COMPLETE = length (messages is) \<and>
     count_list es FRAME_EV_ERR_CRC = damages is \<and> count_list es FRAME_EV_ERR_LENGTH = 0 \<and>
     count_list es FRAME_EV_ERR_FRAMING = 0"

lemma item_received:
  assumes "item_ok i" and "frame_rel p None"
  shows "\<exists>p' es. spec_run None (item_bytes i) = (None, es) \<and> frame_run p (item_bytes i) = Some (p', es) \<and> frame_rel p' None \<and>
    frame_deliveries p (item_bytes i) = Some (p', messages [i]) \<and> item_events [i] es \<and>
    spec_discards None (item_bytes i) = strays [i]"
proof (cases i)
  case (Noise b)
  then have s: "spec_run None (item_bytes i) = (None, [FRAME_EV_NONE])" "spec_discards None (item_bytes i) = strays [i]"
    using assms(1) by simp_all
  with frame_run_refines [OF assms(2) s(1)] show ?thesis
    using Noise deliveries_none [of p "item_bytes i"] by (auto simp: item_events_def)
next
  case (Sent m)
  then have m: "length m \<le> FRAME_MAX_PAYLOAD"
    using assms(1) by simp
  let ?es = "replicate (length m + 4) FRAME_EV_NONE"
  obtain p' where p': "frame_run p (frame_encode m) = Some (p', ?es @ [FRAME_EV_COMPLETE])" "frame_rel p' None"
      "frame_message p' = m" "spec_discards None (frame_encode m) = 0"
    using frame_run_encode [OF assms(2) m] by blast
  have "frame_encode m = butlast (frame_encode m) @ [last (frame_encode m)]"
    by (intro append_butlast_last_id [symmetric]) (simp add: frame_encode_def Let_def)
  then have "frame_deliveries p (frame_encode m) = Some (p', [frame_message p'])"
    using deliveries_last [of p "butlast (frame_encode m)" "last (frame_encode m)" p' ?es] p'(1) by simp
  then show ?thesis
    using Sent p' spec_run_encode [OF m] by (auto simp: item_events_def count_list_replicate)
next
  case (Damaged m m' lo hi)
  let ?n = "of_nat (length m) :: u8"
  let ?es = "replicate (length m' + 3) FRAME_EV_NONE @ [FRAME_EV_ERR_CRC, FRAME_EV_NONE]"
  have m: "length m \<le> FRAME_MAX_PAYLOAD" "length m' = length m" "length m' = unat ?n" "unat ?n \<le> FRAME_MAX_PAYLOAD"
    using assms(1) Damaged length_code [of m] by simp_all
  have "[lo, hi] \<noteq> crc_wire ?n m'"
    using assms(1) Damaged by (intro crc_wire_flips [OF m(2,1) refl]) (simp add: Let_def)
  note s = spec_run_bad_crc [OF m(3,4) this]
  obtain p' where p': "frame_run p (item_bytes i) = Some (p', ?es)" "frame_rel p' None"
    using frame_run_refines [OF assms(2) s(1)] Damaged by auto
  moreover have "frame_deliveries p (item_bytes i) = Some (p', [])"
    using p'(1) by (intro deliveries_none) auto
  ultimately show ?thesis
    using Damaged s by (auto simp: item_events_def count_list_replicate)
qed

section \<open>The stream\<close>

lemma stream_received:
  assumes "list_all item_ok is" and "frame_rel p None"
  shows "\<exists>p' es. frame_run p (concat (map item_bytes is)) = Some (p', es) \<and> frame_rel p' None \<and>
    frame_deliveries p (concat (map item_bytes is)) = Some (p', messages is) \<and> item_events is es \<and>
    spec_discards None (concat (map item_bytes is)) = strays is"
  using assms
proof (induction "is" arbitrary: p)
  case Nil
  then show ?case
    by (simp add: item_events_def)
next
  case (Cons i "is")
  obtain p1 e1 where i: "spec_run None (item_bytes i) = (None, e1)" "frame_run p (item_bytes i) = Some (p1, e1)" "frame_rel p1 None"
      "frame_deliveries p (item_bytes i) = Some (p1, messages [i])" "item_events [i] e1"
      "spec_discards None (item_bytes i) = strays [i]"
    using item_received [of i p] Cons.prems by auto
  obtain p' es where r: "frame_run p1 (concat (map item_bytes is)) = Some (p', es)" "frame_rel p' None"
      "frame_deliveries p1 (concat (map item_bytes is)) = Some (p', messages is)" "item_events is es"
      "spec_discards None (concat (map item_bytes is)) = strays is"
    using Cons.IH [OF _ i(3)] Cons.prems(1) by auto
  have "frame_run p (concat (map item_bytes (i # is))) = Some (p', e1 @ es)"
    using i(2) r(1) by (simp add: frame_run_append)
  moreover have "frame_deliveries p (concat (map item_bytes (i # is))) = Some (p', messages (i # is))"
    unfolding items_Cons(1) [of i "is"] using i(4) r(3) by (simp add: machine_outputs_append)
  moreover have "item_events (i # is) (e1 @ es)"
    using i(5) r(4) unfolding item_events_def items_Cons [of i "is"] by simp
  moreover have "spec_discards None (concat (map item_bytes (i # is))) = strays (i # is)"
    unfolding items_Cons(3) [of i "is"] using i(1,6) r(5) by (simp add: spec_discards_append)
  ultimately show ?case
    using r(2) by blast
qed

section \<open>Properties\<close>

text \<open>C8. A stream of any number of frames, with noise other than start bytes between them and any of
  them damaged by one, two, three or any odd number of flipped bits in its message and CRC bytes
  (start byte, length and end byte arrive as sent), is delivered exactly: the messages of the
  undamaged frames, each once and in order, and nothing else. Every damaged frame is counted as a CRC
  error, the noise and the end bytes of the damaged frames as discarded, and the parser is
  idle again at the end.\<close>

theorem frame_stream_delivers:
  assumes "frame_rel p None" and "list_all item_ok is"
  shows "\<exists>p'. frame_deliveries p (concat (map item_bytes is)) = Some (p', messages is) \<and> fp_state p' = FRAME_ST_IDLE \<and>
    fp_frames_ok p' = fp_frames_ok p + of_nat (length (messages is)) \<and> fp_err_crc p' = fp_err_crc p + of_nat (damages is) \<and>
    fp_bytes_discarded p' = fp_bytes_discarded p + of_nat (strays is) \<and>
    fp_err_length p' = fp_err_length p \<and> fp_err_framing p' = fp_err_framing p"
proof -
  obtain p' es where r: "frame_run p (concat (map item_bytes is)) = Some (p', es)" "frame_rel p' None"
      "frame_deliveries p (concat (map item_bytes is)) = Some (p', messages is)" "item_events is es"
      "spec_discards None (concat (map item_bytes is)) = strays is"
    using stream_received [OF assms(2,1)] by blast
  then show ?thesis
    using run_counts [OF r(1)] run_discards [OF assms(1) r(1)] frame_rel_idle [OF r(2)] by (simp add: item_events_def)
qed

theorem frame_stream_delivers_witness:
  "\<exists>p'. frame_deliveries (frame_reset frame_zero)
      (concat (map item_bytes [Noise 0x55, Sent [1, 2], Damaged [0x41] [0x42] 0xDB 0x77, Sent []])) = Some (p', [[1, 2], []])"
proof -
  have "bit_errors ([0x41] @ crc_wire (of_nat (length [0x41 :: u8])) [0x41]) ([0x42] @ [0xDB, 0x77]) = 3"
    by code_simp
  then have "list_all item_ok [Noise 0x55, Sent [1, 2], Damaged [0x41] [0x42] 0xDB 0x77, Sent []]"
    by (simp add: FRAME_MAX_PAYLOAD_def FRAME_STX_def)
  from frame_stream_delivers [OF frame_zero_rel(1) this] show ?thesis
    unfolding messages.simps by blast
qed

end
