(* ===== verification/Frame_Uart_Stream.thy ===== *)
theory Frame_Uart_Stream
  imports Frame_Uart Frame_Stream
begin

unbundle bit_operations_syntax

text \<open>
  The receiver of \<open>src/code/qemu-cortex-m/06-protocol-state-machine/main.c\<close> from the wire to the
  terminal. What the interrupt handler prints is a function of the bytes taken from the port, given by
  the abstract receiver of theory \<open>Frame\<close>; for a stream of frames and noise it is one line per
  frame.
\<close>

section \<open>What the body of the handler does\<close>

lemma absorb_spec:
  "frame_rel p a \<Longrightarrow> \<exists>p'. absorb feed_body bs p = Some (p', spec_print a bs) \<and> frame_rel p' (fst (spec_run a bs))"
proof (induction bs arbitrary: p a)
  case (Cons b bs)
  obtain a1 ev m where s: "spec_feed a b = (a1, ev, m)"
    by (cases "spec_feed a b")
  obtain p1 where p1: "frame_feed p b = Some (p1, ev)" "frame_rel p1 a1" "frame_obs p1 ev = m"
    using frame_feed_refines [OF Cons.prems s] by blast
  obtain p' where "absorb feed_body bs p1 = Some (p', spec_print a1 bs)" "frame_rel p' (fst (spec_run a1 bs))"
    using Cons.IH [OF p1(2)] by blast
  moreover have "feed_body b p = Some (p1, spec_text ev m)"
    using p1(1) event_spec_text [OF p1(3)] by (simp add: feed_body_def)
  ultimately show ?case
    using s by (auto split: prod.splits)
qed simp

section \<open>One line per frame\<close>

fun item_text :: "item \<Rightarrow> u8 list" where
  "item_text (Noise b) = []"
| "item_text (Sent m) = wire ''FRAME OK'' @ [13, 10] @ payload_text m"
| "item_text (Damaged m m' lo hi) = wire ''REJECTED: CRC mismatch'' @ [13, 10]"

lemma item_printed:
  assumes "item_ok i"
  shows "spec_print None (item_bytes i) = item_text i \<and> fst (spec_run None (item_bytes i)) = None"
proof (cases i)
  case (Noise b)
  then show ?thesis
    using assms by (simp add: spec_text_def)
next
  case (Sent m)
  then show ?thesis
    using assms spec_print_encode [of m] spec_run_encode [of m] by simp
next
  case (Damaged m m' lo hi)
  let ?n = "of_nat (length m) :: u8"
  have m: "length m \<le> FRAME_MAX_PAYLOAD" "length m' = length m" "length m' = unat ?n" "unat ?n \<le> FRAME_MAX_PAYLOAD"
    using assms Damaged length_code [of m] by simp_all
  have ne: "[lo, hi] \<noteq> crc_wire ?n m'"
    using assms Damaged by (intro crc_wire_flips [OF m(2,1) refl]) (simp add: Let_def)
  show ?thesis
    unfolding Damaged item_bytes.simps item_text.simps spec_print_bad_crc [OF m(3,4) ne] spec_run_bad_crc(1) [OF m(3,4) ne]
    by simp
qed

lemma stream_printed:
  "list_all item_ok is \<Longrightarrow> spec_print None (concat (map item_bytes is)) = concat (map item_text is) \<and>
    fst (spec_run None (concat (map item_bytes is))) = None"
proof (induction "is")
  case (Cons i "is")
  then show ?case
    using item_printed [of i] by (auto simp: spec_print_append spec_run_append Let_def split: prod.splits)
qed simp

section \<open>The handler\<close>

lemma receiver_runs:
  assumes "uart_ready dev" and "frame_rel p a" and "frame_inv p" and "rx_stream dev t arrived bs"
  shows "\<exists>p' evs. handler_runs (UART0_rx_isr dev) n (p, t) = Some (p', t @ evs) \<and>
    (0 < n \<longrightarrow> arrived [] \<le> rx_taken evs) \<and> rx_taken evs \<le> length bs \<and>
    (0 < n \<longrightarrow> (\<exists>pre. handler_starts pre = n \<and> arrived pre \<le> rx_taken evs)) \<and>
    frame_rel p' (fst (spec_run a (take (rx_taken evs) bs))) \<and>
    writes_to UART0_DR evs = map ucast (spec_print a (take (rx_taken evs) bs))"
proof -
  obtain p' out evs where r: "handler_runs (UART0_rx_isr dev) n (p, t) = Some (p', t @ evs)"
      "0 < n \<longrightarrow> arrived [] \<le> rx_taken evs" "rx_taken evs \<le> arrived evs"
      "0 < n \<longrightarrow> (\<exists>pre. handler_starts pre = n \<and> arrived pre \<le> rx_taken evs)"
      "absorb feed_body (take (rx_taken evs) bs) p = Some (p', out)" "writes_to UART0_DR evs = map ucast out"
    using parser.serves [OF assms(1,3,4), of "[]" n] by auto
  moreover have "arrived evs \<le> length bs"
    using rx_streamD(1) [OF assms(4)] .
  ultimately show ?thesis
    using absorb_spec [OF assms(2), of "take (rx_taken evs) bs"] by auto
qed

section \<open>Properties\<close>

text \<open>C34. The interrupt-driven receiver refines the abstract one, on a port whose transmit side makes
  room: whatever bytes its receive queue accepts, well formed or not (bytes lost to a full queue are
  not among them), whenever they come in and however often the handler runs, it takes a prefix of them
  that has at least those waiting when it began, ends in the state the abstract receiver has after
  that prefix, and prints exactly what that receiver's events and messages say.\<close>

theorem uart_receiver_refines:
  assumes "uart_ready dev" and "frame_rel p a" and "frame_inv p" and "rx_stream dev t arrived bs"
  shows "\<exists>p' evs. handler_runs (UART0_rx_isr dev) n (p, t) = Some (p', t @ evs) \<and>
    (0 < n \<longrightarrow> arrived [] \<le> rx_taken evs) \<and> rx_taken evs \<le> length bs \<and>
    frame_rel p' (fst (spec_run a (take (rx_taken evs) bs))) \<and>
    writes_to UART0_DR evs = map ucast (spec_print a (take (rx_taken evs) bs))"
  using receiver_runs [OF assms, of n] by blast

theorem uart_receiver_refines_witness:
  "\<exists>p' evs. handler_runs (UART0_rx_isr (burst_port [0x55, FRAME_STX, 65])) 1 (frame_reset frame_zero, []) = Some (p', evs) \<and>
    writes_to UART0_DR evs = map ucast (spec_text FRAME_EV_ERR_LENGTH None)"
proof -
  let ?bs = "[0x55, FRAME_STX, 65]"
  have p: "spec_print None ?bs = spec_text FRAME_EV_ERR_LENGTH None"
    by (simp add: FRAME_STX_def FRAME_MAX_PAYLOAD_def) (simp add: spec_text_def)
  have "length ?bs \<le> rx_taken evs \<Longrightarrow> take (rx_taken evs) ?bs = ?bs" for evs
    by (rule take_all)
  then show ?thesis
    using uart_receiver_refines [OF burst_port_ready frame_zero_rel burst_port_stream, where n = 1] p
    by (metis append_Nil less_one)
qed

text \<open>C35. A stream of frames over the wire, with noise other than start bytes between them and any of
  them damaged by one, two, three or any odd number of flipped bits in the message and CRC bytes, all of
  it accepted by the receive queue of a port whose transmit side makes room: when the last byte has come
  in before the \<open>n\<close>-th run of the handler begins, the terminal has after that run exactly one
  acknowledgement with its payload for every undamaged frame and one rejection for every damaged one,
  in the order of the frames, and the parser is idle. The bytes may come in at any time before that.\<close>

theorem uart_stream_printed:
  assumes "uart_ready dev" and "frame_rel p None" and "frame_inv p" and "list_all item_ok is"
    and "rx_stream dev t arrived (concat (map item_bytes is))" and "0 < n"
    and in_time: "\<And>pre. handler_starts pre = n \<Longrightarrow> arrived pre = length (concat (map item_bytes is))"
  shows "\<exists>p' evs. handler_runs (UART0_rx_isr dev) n (p, t) = Some (p', t @ evs) \<and>
    writes_to UART0_DR evs = map ucast (concat (map item_text is)) \<and> fp_state p' = FRAME_ST_IDLE"
proof -
  let ?bs = "concat (map item_bytes is)"
  obtain p' evs pre where r: "handler_runs (UART0_rx_isr dev) n (p, t) = Some (p', t @ evs)"
      "handler_starts pre = n" "arrived pre \<le> rx_taken evs"
      "writes_to UART0_DR evs = map ucast (spec_print None (take (rx_taken evs) ?bs))"
      "frame_rel p' (fst (spec_run None (take (rx_taken evs) ?bs)))"
    using receiver_runs [OF assms(1-3,5), of n] assms(6) by blast
  moreover have "take (rx_taken evs) ?bs = ?bs"
    using r(3) in_time [OF r(2)] by (intro take_all) simp
  ultimately show ?thesis
    using stream_printed [OF assms(4)] frame_rel_idle [of p' None] by auto
qed

text \<open>Twenty bytes that come in over three interrupts.\<close>

definition wire_items :: "item list" where
  "wire_items = [Noise 0x55, Sent [7, 8], Damaged [0x41] [0x42] 0xDB 0x77, Noise 0x03, Sent []]"

theorem uart_stream_printed_witness:
  "\<exists>p' evs. handler_runs (UART0_rx_isr (trickle_port (concat (map item_bytes wire_items)))) 3 (frame_reset frame_zero, []) =
      Some (p', evs) \<and>
    writes_to UART0_DR evs = map ucast (wire ''FRAME OK'' @ [13, 10] @ payload_text [7, 8] @
      wire ''REJECTED: CRC mismatch'' @ [13, 10] @ wire ''FRAME OK'' @ [13, 10] @ payload_text [])"
proof -
  let ?bs = "concat (map item_bytes wire_items)"
  have "bit_errors ([0x41] @ crc_wire (of_nat (length [0x41 :: u8])) [0x41]) ([0x42] @ [0xDB, 0x77]) = 3"
    by code_simp
  then have ok: "list_all item_ok wire_items"
    by (simp add: wire_items_def FRAME_MAX_PAYLOAD_def FRAME_STX_def)
  have "length ?bs = 20"
    by (simp add: wire_items_def frame_encode_def Let_def crc_wire_def)
  then have "trickled ?bs pre = length ?bs" if "handler_starts pre = 3" for pre
    using that by (simp add: trickled_def)
  from uart_stream_printed [where n = 3, OF trickle_port_ready frame_zero_rel ok trickle_port_stream _ this]
  show ?thesis
    by (simp add: wire_items_def) blast
qed

end
