(* ===== verification/Ringbuf.thy ===== *)
theory Ringbuf
  imports Prelude
begin

text \<open>
  The single-producer single-consumer byte ring of
  \<open>code/portable/ringbuf/ringbuf.h\<close>. First the operations as whole calls and
  their refinement to a bounded first-in first-out queue, through the locale
  \<open>bounded_queue\<close>; then \<open>rb_put\<close> and \<open>rb_get\<close> split at every access to
  shared memory, so that an interrupt may come between any two of them, with
  the invariant that makes the lock-free protocol correct under every
  interleaving.
\<close>

section \<open>The ring\<close>

definition RB_CAPACITY :: u32 where "RB_CAPACITY = 64"

record ringbuf =
  rb_buf :: "u8 list"
  rb_head :: u32
  rb_tail :: u32

definition rb_init :: "ringbuf \<Rightarrow> ringbuf" where
  "rb_init rb = rb\<lparr>rb_head := 0, rb_tail := 0\<rparr>"

definition rb_count :: "ringbuf \<Rightarrow> u32" where
  "rb_count rb = rb_head rb - rb_tail rb"

definition rb_empty :: "ringbuf \<Rightarrow> bool" where
  "rb_empty rb \<longleftrightarrow> rb_count rb = 0"

definition rb_full :: "ringbuf \<Rightarrow> bool" where
  "rb_full rb \<longleftrightarrow> RB_CAPACITY \<le> rb_count rb"

text \<open>The slot of a free-running index.\<close>

definition rb_slot :: "u32 \<Rightarrow> nat" where
  "rb_slot i = unat (i AND (RB_CAPACITY - 1))"

definition rb_put :: "ringbuf \<Rightarrow> u8 \<Rightarrow> (ringbuf \<times> bool) option" where
  "rb_put rb b =
     (let head = rb_head rb
      in if RB_CAPACITY \<le> head - rb_tail rb then Some (rb, False)
         else do {
           buf \<leftarrow> arr_set (rb_buf rb) (rb_slot head) b;
           Some (rb\<lparr>rb_buf := buf, rb_head := head + 1\<rparr>, True)
         })"

text \<open>\<open>out\<close> is what the caller's variable holds; a failed call leaves it alone.\<close>

definition rb_get :: "ringbuf \<Rightarrow> u8 \<Rightarrow> (ringbuf \<times> u8 \<times> bool) option" where
  "rb_get rb out =
     (let tail = rb_tail rb
      in if rb_head rb = tail then Some (rb, out, False)
         else do {
           v \<leftarrow> arr_get (rb_buf rb) (rb_slot tail);
           Some (rb\<lparr>rb_tail := tail + 1\<rparr>, v, True)
         })"

section \<open>The interface: a bounded queue\<close>

datatype 'a queue_op = Put 'a | Get

text \<open>A sequence of calls, the variable \<open>out\<close> passed to every \<open>Get\<close>. Each call adds the value of this
  variable after it and whether it succeeded.\<close>

fun queue_run ::
  "('q \<Rightarrow> 'a \<Rightarrow> ('q \<times> bool) option) \<Rightarrow> ('q \<Rightarrow> 'a \<Rightarrow> ('q \<times> 'a \<times> bool) option) \<Rightarrow>
   'a \<Rightarrow> 'q \<Rightarrow> 'a queue_op list \<Rightarrow> ('q \<times> ('a \<times> bool) list) option" where
  "queue_run put get out q [] = Some (q, [])"
| "queue_run put get out q (Put x # ops) =
     do {
       (q', ok) \<leftarrow> put q x;
       (q'', rs) \<leftarrow> queue_run put get out q' ops;
       Some (q'', (out, ok) # rs)
     }"
| "queue_run put get out q (Get # ops) =
     do {
       (q', v, ok) \<leftarrow> get q out;
       (q'', rs) \<leftarrow> queue_run put get v q' ops;
       Some (q'', (v, ok) # rs)
     }"

text \<open>The same calls on a list of at most \<open>cap\<close> elements: a \<open>Put\<close> succeeds exactly when there is room and
  adds at the end, a \<open>Get\<close> exactly when there is an element and takes the first.\<close>

fun spec_queue :: "nat \<Rightarrow> 'a \<Rightarrow> 'a list \<Rightarrow> 'a queue_op list \<Rightarrow> 'a list \<times> ('a \<times> bool) list" where
  "spec_queue cap out xs [] = (xs, [])"
| "spec_queue cap out xs (Put x # ops) =
     (if length xs < cap
      then map_prod id (Cons (out, True)) (spec_queue cap out (xs @ [x]) ops)
      else map_prod id (Cons (out, False)) (spec_queue cap out xs ops))"
| "spec_queue cap out [] (Get # ops) = map_prod id (Cons (out, False)) (spec_queue cap out [] ops)"
| "spec_queue cap out (x # xs) (Get # ops) = map_prod id (Cons (x, True)) (spec_queue cap x xs ops)"

locale bounded_queue =
  fixes put :: "'q \<Rightarrow> 'a \<Rightarrow> ('q \<times> bool) option"
    and get :: "'q \<Rightarrow> 'a \<Rightarrow> ('q \<times> 'a \<times> bool) option"
    and contents :: "'q \<Rightarrow> 'a list"
    and inv :: "'q \<Rightarrow> bool"
    and capacity :: nat
  assumes put_room: "inv q \<Longrightarrow> length (contents q) < capacity \<Longrightarrow>
      \<exists>q'. put q x = Some (q', True) \<and> inv q' \<and> contents q' = contents q @ [x]"
    and put_full: "inv q \<Longrightarrow> length (contents q) = capacity \<Longrightarrow> put q x = Some (q, False)"
    and get_some: "inv q \<Longrightarrow> contents q = y # ys \<Longrightarrow>
      \<exists>q'. get q out = Some (q', y, True) \<and> inv q' \<and> contents q' = ys"
    and get_none: "inv q \<Longrightarrow> contents q = [] \<Longrightarrow> get q out = Some (q, out, False)"
    and bounded: "inv q \<Longrightarrow> length (contents q) \<le> capacity"
begin

lemma put_cases:
  assumes "inv q"
  obtains q' where "put q x = Some (q', True)" "inv q'" "contents q' = contents q @ [x]"
      "length (contents q) < capacity"
  | "put q x = Some (q, False)" "length (contents q) = capacity"
  using put_room [OF assms] put_full [OF assms] bounded [OF assms]
  by (metis le_neq_implies_less)

lemma get_cases:
  assumes "inv q"
  obtains q' y where "get q out = Some (q', y, True)" "inv q'" "contents q = y # contents q'"
  | "get q out = Some (q, out, False)" "contents q = []"
  using get_some [OF assms] get_none [OF assms] by (cases "contents q") metis+

text \<open>No call fails, and the results and contents are those of the list.\<close>

lemma run_fifo:
  "inv q \<Longrightarrow> \<exists>q'. queue_run put get out q ops = Some (q', snd (spec_queue capacity out (contents q) ops)) \<and> inv q' \<and>
     contents q' = fst (spec_queue capacity out (contents q) ops)"
proof (induction ops arbitrary: q out)
  case (Cons op ops)
  show ?case
  proof (cases op)
    case (Put x)
    from Cons.prems show ?thesis
    proof (cases rule: put_cases [where x = x])
      case (1 q')
      with Cons.IH [of q' out] Put show ?thesis by auto
    next
      case 2
      with Cons.IH [OF Cons.prems, of out] Put show ?thesis by auto
    qed
  next
    case Get
    from Cons.prems show ?thesis
    proof (cases rule: get_cases [where out = out])
      case (1 q' y)
      with Cons.IH [of q' y] Get show ?thesis by auto
    next
      case 2
      with Cons.IH [OF Cons.prems, of out] Get show ?thesis by auto
    qed
  qed
qed simp

end

section \<open>The ring is a bounded queue\<close>

definition rb_contents :: "ringbuf \<Rightarrow> u8 list" where
  "rb_contents rb = map (\<lambda>i. rb_buf rb ! ((unat (rb_tail rb) + i) mod 64)) [0..<unat (rb_count rb)]"

definition rb_inv :: "ringbuf \<Rightarrow> bool" where
  "rb_inv rb \<longleftrightarrow> length (rb_buf rb) = 64 \<and> unat (rb_count rb) \<le> 64"

lemma rb_slot_mod: "rb_slot i = unat i mod 64"
proof -
  have "i AND 63 = take_bit 6 i"
    by (simp add: take_bit_eq_mask mask_eq_exp_minus_1)
  then have "rb_slot i = take_bit 6 (unat i)"
    by (simp add: rb_slot_def RB_CAPACITY_def unsigned_take_bit_eq)
  then show ?thesis by (simp add: take_bit_eq_mod)
qed

lemma unat_offset_mod: "unat (t + of_nat i) mod 64 = (unat t + i) mod 64" for t :: u32
proof -
  have "unat (t + of_nat i) = (unat t + i) mod 2 ^ 32"
    by (simp add: unat_word_ariths unat_of_nat mod_simps)
  then show ?thesis by (simp add: mod_mod_cancel)
qed

lemma mod_64_offset: "i < j \<Longrightarrow> j < 64 \<Longrightarrow> (a + j) mod 64 \<noteq> (a + i) mod 64" for a :: nat
  using mod_eq_dvd_iff_nat [of "a + i" "a + j" 64] nat_dvd_not_less [of "j - i" 64] by auto

lemma rb_head_tail: "rb_head rb = rb_tail rb + of_nat (unat (rb_count rb))"
  by (simp add: rb_count_def)

lemma rb_slot_head: "rb_slot (rb_head rb) = (unat (rb_tail rb) + unat (rb_count rb)) mod 64"
  by (simp only: rb_slot_mod unat_offset_mod [symmetric] rb_head_tail [symmetric])

lemma length_rb_contents [simp]: "length (rb_contents rb) = unat (rb_count rb)"
  by (simp add: rb_contents_def)

lemma rb_full_iff: "rb_inv rb \<Longrightarrow> RB_CAPACITY \<le> rb_count rb \<longleftrightarrow> unat (rb_count rb) = 64"
  by (auto simp: rb_inv_def RB_CAPACITY_def word_le_nat_alt)

text \<open>Publishing an element stored in the head's slot appends it.\<close>

lemma rb_publish:
  assumes "rb_inv rb" "unat (rb_count rb) < 64" "rb_buf rb ! rb_slot (rb_head rb) = b"
  shows "rb_contents (rb\<lparr>rb_head := rb_head rb + 1\<rparr>) = rb_contents rb @ [b]"
    "rb_inv (rb\<lparr>rb_head := rb_head rb + 1\<rparr>)"
    "rb_count (rb\<lparr>rb_head := rb_head rb + 1\<rparr>) = rb_count rb + 1"
proof -
  show c: "rb_count (rb\<lparr>rb_head := rb_head rb + 1\<rparr>) = rb_count rb + 1"
    by (simp add: rb_count_def)
  have u: "unat (rb_count rb + 1) = Suc (unat (rb_count rb))"
    using assms(2) by (subst unat_Suc_lt) simp_all
  show "rb_contents (rb\<lparr>rb_head := rb_head rb + 1\<rparr>) = rb_contents rb @ [b]"
    using assms(3) by (simp add: rb_contents_def c u rb_slot_head)
  show "rb_inv (rb\<lparr>rb_head := rb_head rb + 1\<rparr>)"
    using assms by (simp add: rb_inv_def c u)
qed

text \<open>A store to the head's slot of a ring that is not full touches no element.\<close>

lemma rb_store:
  assumes "unat (rb_count rb) < 64"
  shows "rb_contents (rb\<lparr>rb_buf := (rb_buf rb)[rb_slot (rb_head rb) := b]\<rparr>) = rb_contents rb"
    "rb_count (rb\<lparr>rb_buf := (rb_buf rb)[rb_slot (rb_head rb) := b]\<rparr>) = rb_count rb"
proof -
  show c: "rb_count (rb\<lparr>rb_buf := (rb_buf rb)[rb_slot (rb_head rb) := b]\<rparr>) = rb_count rb"
    by (simp add: rb_count_def)
  have "(unat (rb_tail rb) + unat (rb_count rb)) mod 64 \<noteq> (unat (rb_tail rb) + i) mod 64"
    if "i < unat (rb_count rb)" for i
    using that assms by (simp add: mod_64_offset)
  then show "rb_contents (rb\<lparr>rb_buf := (rb_buf rb)[rb_slot (rb_head rb) := b]\<rparr>) = rb_contents rb"
    unfolding rb_contents_def c by (auto simp: rb_slot_head)
qed

text \<open>The oldest element is in the tail's slot, and advancing the tail removes it.\<close>

lemma rb_consume:
  assumes "rb_inv rb" "rb_count rb \<noteq> 0"
  shows "rb_contents rb = rb_buf rb ! rb_slot (rb_tail rb) # rb_contents (rb\<lparr>rb_tail := rb_tail rb + 1\<rparr>)"
    "rb_inv (rb\<lparr>rb_tail := rb_tail rb + 1\<rparr>)"
    "unat (rb_count (rb\<lparr>rb_tail := rb_tail rb + 1\<rparr>)) = unat (rb_count rb) - 1"
proof -
  have c: "rb_count (rb\<lparr>rb_tail := rb_tail rb + 1\<rparr>) = rb_count rb - 1"
    by (simp add: rb_count_def)
  show u: "unat (rb_count (rb\<lparr>rb_tail := rb_tail rb + 1\<rparr>)) = unat (rb_count rb) - 1"
    using assms(2) by (simp add: c unat_minus_one)
  obtain k where k: "unat (rb_count rb) = Suc k"
    using assms(2) by (metis not0_implies_Suc unat_eq_zero)
  have "(unat (rb_tail rb) + Suc i) mod 64 = (unat (rb_tail rb + 1) + i) mod 64" for i
    using unat_offset_mod [of "rb_tail rb" 1] by (simp add: mod_simps) (metis mod_add_left_eq add_Suc)
  then show "rb_contents rb = rb_buf rb ! rb_slot (rb_tail rb) # rb_contents (rb\<lparr>rb_tail := rb_tail rb + 1\<rparr>)"
    by (simp add: rb_contents_def u k rb_slot_mod map_upt_Suc del: upt_Suc)
  show "rb_inv (rb\<lparr>rb_tail := rb_tail rb + 1\<rparr>)"
    using assms(1) by (auto simp: rb_inv_def u)
qed

lemma rb_slot_bound: "rb_slot i < 64"
  by (simp add: rb_slot_mod)

interpretation rb: bounded_queue rb_put rb_get rb_contents rb_inv 64
proof
  fix q x assume i: "rb_inv q" and l: "length (rb_contents q) < 64"
  let ?q = "q\<lparr>rb_buf := (rb_buf q)[rb_slot (rb_head q) := x]\<rparr>"
  have s: "rb_contents ?q = rb_contents q" "rb_count ?q = rb_count q" "rb_inv ?q"
    "rb_buf ?q ! rb_slot (rb_head ?q) = x"
    using rb_store [of q x] l i rb_slot_bound by (simp_all add: rb_inv_def)
  have "rb_put q x = Some (?q\<lparr>rb_head := rb_head ?q + 1\<rparr>, True)"
    using i l rb_full_iff [OF i] rb_slot_bound
    by (simp add: rb_put_def rb_count_def [symmetric] rb_inv_def mem Let_def)
  with rb_publish [of ?q x] s l
  show "\<exists>q'. rb_put q x = Some (q', True) \<and> rb_inv q' \<and> rb_contents q' = rb_contents q @ [x]"
    by simp
next
  fix q x assume "rb_inv q" "length (rb_contents q) = 64"
  then show "rb_put q x = Some (q, False)"
    using rb_full_iff [of q] by (simp add: rb_put_def rb_count_def [symmetric])
next
  fix q y ys out assume i: "rb_inv q" and c: "rb_contents q = y # ys"
  then have ne: "rb_count q \<noteq> 0" by (auto simp: rb_contents_def)
  have "rb_get q out = Some (q\<lparr>rb_tail := rb_tail q + 1\<rparr>, rb_buf q ! rb_slot (rb_tail q), True)"
    using i ne rb_slot_bound by (simp add: rb_get_def rb_count_def rb_inv_def mem Let_def)
  with rb_consume [OF i ne] c
  show "\<exists>q'. rb_get q out = Some (q', y, True) \<and> rb_inv q' \<and> rb_contents q' = ys"
    by simp
next
  fix q out assume "rb_inv q" "rb_contents q = []"
  then have "unat (rb_count q) = 0" by (metis length_rb_contents list.size(3))
  then show "rb_get q out = Some (q, out, False)"
    by (simp add: rb_get_def rb_count_def unat_eq_zero)
next
  fix q assume "rb_inv q"
  then show "length (rb_contents q) \<le> 64" by (simp add: rb_inv_def)
qed

section \<open>The lock-free protocol, one memory access at a time\<close>

text \<open>
  The producer's and the consumer's program counters, with the local variables
  the C code holds at that point: \<open>P_Head\<close> after \<open>head = rb->head\<close>, \<open>P_Room\<close>
  after the capacity test passed, \<open>P_Stored\<close> after the store to \<open>buf\<close>;
  \<open>C_Tail\<close> after \<open>tail = rb->tail\<close>, \<open>C_Some\<close> after the empty test failed,
  \<open>C_Read\<close> after the load from \<open>buf\<close>.
\<close>

datatype producer = P_Idle | P_Head u8 u32 | P_Room u8 u32 | P_Stored u8 u32

datatype consumer = C_Idle | C_Tail u32 | C_Some u32 | C_Read u32 u8

record spsc =
  sp_ring :: ringbuf
  sp_prod :: producer
  sp_cons :: consumer
  sp_accepted :: "u8 list"
  sp_dropped :: "u8 list"
  sp_consumed :: "u8 list"

text \<open>Each rule is one access to shared memory; either side may move next.\<close>

inductive spsc_step :: "spsc \<Rightarrow> spsc \<Rightarrow> bool" where
  put_load_head: "sp_prod s = P_Idle \<Longrightarrow>
     spsc_step s (s\<lparr>sp_prod := P_Head b (rb_head (sp_ring s))\<rparr>)"
| put_full: "sp_prod s = P_Head b h \<Longrightarrow> RB_CAPACITY \<le> h - rb_tail (sp_ring s) \<Longrightarrow>
     spsc_step s (s\<lparr>sp_prod := P_Idle, sp_dropped := sp_dropped s @ [b]\<rparr>)"
| put_room: "sp_prod s = P_Head b h \<Longrightarrow> \<not> RB_CAPACITY \<le> h - rb_tail (sp_ring s) \<Longrightarrow>
     spsc_step s (s\<lparr>sp_prod := P_Room b h\<rparr>)"
| put_store: "sp_prod s = P_Room b h \<Longrightarrow> arr_set (rb_buf (sp_ring s)) (rb_slot h) b = Some buf \<Longrightarrow>
     spsc_step s (s\<lparr>sp_prod := P_Stored b h, sp_ring := (sp_ring s)\<lparr>rb_buf := buf\<rparr>\<rparr>)"
| put_publish: "sp_prod s = P_Stored b h \<Longrightarrow>
     spsc_step s (s\<lparr>sp_prod := P_Idle, sp_ring := (sp_ring s)\<lparr>rb_head := h + 1\<rparr>,
       sp_accepted := sp_accepted s @ [b]\<rparr>)"
| get_load_tail: "sp_cons s = C_Idle \<Longrightarrow>
     spsc_step s (s\<lparr>sp_cons := C_Tail (rb_tail (sp_ring s))\<rparr>)"
| get_empty: "sp_cons s = C_Tail t \<Longrightarrow> rb_head (sp_ring s) = t \<Longrightarrow>
     spsc_step s (s\<lparr>sp_cons := C_Idle\<rparr>)"
| get_some: "sp_cons s = C_Tail t \<Longrightarrow> rb_head (sp_ring s) \<noteq> t \<Longrightarrow>
     spsc_step s (s\<lparr>sp_cons := C_Some t\<rparr>)"
| get_read: "sp_cons s = C_Some t \<Longrightarrow> arr_get (rb_buf (sp_ring s)) (rb_slot t) = Some v \<Longrightarrow>
     spsc_step s (s\<lparr>sp_cons := C_Read t v\<rparr>)"
| get_publish: "sp_cons s = C_Read t v \<Longrightarrow>
     spsc_step s (s\<lparr>sp_cons := C_Idle, sp_ring := (sp_ring s)\<lparr>rb_tail := t + 1\<rparr>,
       sp_consumed := sp_consumed s @ [v]\<rparr>)"

text \<open>The start: both sides idle, an empty ring whose indices may be anywhere.\<close>

definition spsc_init :: "ringbuf \<Rightarrow> spsc" where
  "spsc_init rb = \<lparr>sp_ring = rb, sp_prod = P_Idle, sp_cons = C_Idle, sp_accepted = [],
     sp_dropped = [], sp_consumed = []\<rparr>"

inductive spsc_reach :: "ringbuf \<Rightarrow> spsc \<Rightarrow> bool" for rb where
  init: "spsc_reach rb (spsc_init rb)"
| step: "spsc_reach rb s \<Longrightarrow> spsc_step s s' \<Longrightarrow> spsc_reach rb s'"

fun prod_ok :: "ringbuf \<Rightarrow> producer \<Rightarrow> bool" where
  "prod_ok rb P_Idle \<longleftrightarrow> True"
| "prod_ok rb (P_Head b h) \<longleftrightarrow> h = rb_head rb"
| "prod_ok rb (P_Room b h) \<longleftrightarrow> h = rb_head rb \<and> unat (rb_count rb) < 64"
| "prod_ok rb (P_Stored b h) \<longleftrightarrow>
     h = rb_head rb \<and> unat (rb_count rb) < 64 \<and> rb_buf rb ! rb_slot h = b"

fun cons_ok :: "ringbuf \<Rightarrow> consumer \<Rightarrow> bool" where
  "cons_ok rb C_Idle \<longleftrightarrow> True"
| "cons_ok rb (C_Tail t) \<longleftrightarrow> t = rb_tail rb"
| "cons_ok rb (C_Some t) \<longleftrightarrow> t = rb_tail rb \<and> rb_count rb \<noteq> 0"
| "cons_ok rb (C_Read t v) \<longleftrightarrow>
     t = rb_tail rb \<and> rb_count rb \<noteq> 0 \<and> v = rb_buf rb ! rb_slot t"

definition spsc_inv :: "spsc \<Rightarrow> bool" where
  "spsc_inv s \<longleftrightarrow>
     rb_inv (sp_ring s) \<and> prod_ok (sp_ring s) (sp_prod s) \<and> cons_ok (sp_ring s) (sp_cons s) \<and>
     sp_accepted s = sp_consumed s @ rb_contents (sp_ring s)"

lemma rb_count_lt: "unat (rb_count rb) < 64 \<longleftrightarrow> \<not> RB_CAPACITY \<le> rb_head rb - rb_tail rb"
  by (simp add: RB_CAPACITY_def rb_count_def word_le_nat_alt not_le)

lemma rb_slots_differ:
  assumes "rb_count rb \<noteq> 0" "unat (rb_count rb) < 64"
  shows "rb_slot (rb_head rb) \<noteq> rb_slot (rb_tail rb)"
  using mod_64_offset [of 0 "unat (rb_count rb)" "unat (rb_tail rb)"] assms
  by (simp add: rb_slot_head) (simp add: rb_slot_mod unat_gt_0)

text \<open>What one side's steps do to the other side's knowledge.\<close>

lemma cons_ok_store:
  "cons_ok rb c \<Longrightarrow> unat (rb_count rb) < 64 \<Longrightarrow>
   cons_ok (rb\<lparr>rb_buf := (rb_buf rb)[rb_slot (rb_head rb) := b]\<rparr>) c"
  using rb_slots_differ [of rb] by (cases c) (auto simp: rb_store)

lemma cons_ok_publish:
  assumes "cons_ok rb c" "unat (rb_count rb) < 64"
  shows "cons_ok (rb\<lparr>rb_head := rb_head rb + 1\<rparr>) c"
proof -
  have "unat (rb_count rb + 1) = unat (rb_count rb) + 1"
    using assms(2) by (intro unat_Suc_lt) simp
  moreover have "rb_count (rb\<lparr>rb_head := rb_head rb + 1\<rparr>) = rb_count rb + 1"
    by (simp add: rb_count_def)
  ultimately have "rb_count (rb\<lparr>rb_head := rb_head rb + 1\<rparr>) \<noteq> 0"
    by (metis Suc_eq_plus1 nat.distinct(1) unat_0)
  with assms(1) show ?thesis by (cases c) auto
qed

lemma prod_ok_consume:
  "prod_ok rb p \<Longrightarrow> rb_inv rb \<Longrightarrow> rb_count rb \<noteq> 0 \<Longrightarrow> prod_ok (rb\<lparr>rb_tail := rb_tail rb + 1\<rparr>) p"
  using rb_consume(3) [of rb] by (cases p) auto

lemma spsc_step_inv: "spsc_step s s' \<Longrightarrow> spsc_inv s \<Longrightarrow> spsc_inv s'"
proof (induction rule: spsc_step.induct)
  case (put_room s b h)
  then show ?case by (simp add: spsc_inv_def rb_count_lt)
next
  case (put_store s b h buf)
  then show ?case
    using rb_store [of "sp_ring s" b] cons_ok_store [of "sp_ring s" "sp_cons s" b] rb_slot_bound
    by (auto simp: spsc_inv_def rb_inv_def arr_set_eq_Some)
next
  case (put_publish s b h)
  then show ?case
    using rb_publish [of "sp_ring s" b] cons_ok_publish [of "sp_ring s" "sp_cons s"]
    by (auto simp: spsc_inv_def)
next
  case (get_some s t)
  then show ?case by (simp add: spsc_inv_def rb_count_def)
next
  case (get_read s t v)
  then show ?case by (simp add: spsc_inv_def arr_get_eq_Some)
next
  case (get_publish s t v)
  then show ?case
    using rb_consume [of "sp_ring s"] prod_ok_consume [of "sp_ring s" "sp_prod s"]
    by (auto simp: spsc_inv_def)
qed (simp_all add: spsc_inv_def)

definition rb_start :: "ringbuf \<Rightarrow> bool" where
  "rb_start rb \<longleftrightarrow> length (rb_buf rb) = 64 \<and> rb_head rb = rb_tail rb"

lemma spsc_reach_inv: "spsc_reach rb s \<Longrightarrow> rb_start rb \<Longrightarrow> spsc_inv s"
proof (induction rule: spsc_reach.induct)
  case init
  then show ?case
    by (simp add: spsc_inv_def spsc_init_def rb_start_def rb_inv_def rb_contents_def rb_count_def)
next
  case (step s s')
  then show ?case using spsc_step_inv by blast
qed

text \<open>Undisturbed, the split steps are the calls.\<close>

lemma rtranclp_step: "r a b \<Longrightarrow> r\<^sup>*\<^sup>* b c \<Longrightarrow> r\<^sup>*\<^sup>* a c"
  by (rule converse_rtranclp_into_rtranclp)

lemma put_steps:
  assumes "sp_prod s = P_Idle" "rb_put (sp_ring s) b = Some (rb', ok)"
  shows "spsc_step\<^sup>*\<^sup>* s (s\<lparr>sp_ring := rb',
    sp_accepted := sp_accepted s @ (if ok then [b] else []),
    sp_dropped := sp_dropped s @ (if ok then [] else [b])\<rparr>)"
proof -
  let ?h = "rb_head (sp_ring s)"
  let ?s1 = "s\<lparr>sp_prod := P_Head b ?h\<rparr>"
  have 1: "spsc_step s ?s1" using assms(1) by (rule put_load_head)
  show ?thesis
  proof (cases "RB_CAPACITY \<le> ?h - rb_tail (sp_ring s)")
    case True
    with assms(2) have r: "rb' = sp_ring s" "\<not> ok" by (auto simp: rb_put_def Let_def)
    from put_full [of ?s1 b ?h] True
    have "spsc_step ?s1 (s\<lparr>sp_prod := P_Idle, sp_dropped := sp_dropped s @ [b]\<rparr>)" by simp
    moreover have "s\<lparr>sp_prod := P_Idle, sp_dropped := sp_dropped s @ [b]\<rparr> =
      s\<lparr>sp_ring := rb', sp_accepted := sp_accepted s @ [], sp_dropped := sp_dropped s @ [b]\<rparr>"
      using assms(1) r by simp
    ultimately show ?thesis using 1 r by (auto intro: rtranclp_step)
  next
    case False
    with assms(2) obtain buf where r: "arr_set (rb_buf (sp_ring s)) (rb_slot ?h) b = Some buf"
      "rb' = (sp_ring s)\<lparr>rb_buf := buf, rb_head := ?h + 1\<rparr>" ok
      by (auto simp: rb_put_def Let_def split: bind_splits)
    let ?s2 = "s\<lparr>sp_prod := P_Room b ?h\<rparr>"
    let ?s3 = "s\<lparr>sp_prod := P_Stored b ?h, sp_ring := (sp_ring s)\<lparr>rb_buf := buf\<rparr>\<rparr>"
    have 2: "spsc_step ?s1 ?s2" using put_room [of ?s1 b ?h] False by simp
    have 3: "spsc_step ?s2 ?s3" using put_store [of ?s2 b ?h buf] r(1) by simp
    have "spsc_step ?s3 (s\<lparr>sp_ring := rb', sp_accepted := sp_accepted s @ [b]\<rparr>)"
      using put_publish [of ?s3 b ?h] assms(1) r(2) by (cases s) simp
    with 1 2 3 r(3) show ?thesis by (auto intro: rtranclp_step)
  qed
qed

lemma get_steps:
  assumes "sp_cons s = C_Idle" "rb_get (sp_ring s) out = Some (rb', v, ok)"
  shows "spsc_step\<^sup>*\<^sup>* s (s\<lparr>sp_ring := rb',
    sp_consumed := sp_consumed s @ (if ok then [v] else [])\<rparr>)"
proof -
  let ?t = "rb_tail (sp_ring s)"
  let ?s1 = "s\<lparr>sp_cons := C_Tail ?t\<rparr>"
  have 1: "spsc_step s ?s1" using assms(1) by (rule get_load_tail)
  show ?thesis
  proof (cases "rb_head (sp_ring s) = ?t")
    case True
    with assms(2) have r: "rb' = sp_ring s" "\<not> ok" by (auto simp: rb_get_def Let_def)
    have "spsc_step ?s1 (s\<lparr>sp_cons := C_Idle\<rparr>)"
      using get_empty [of ?s1 ?t] True by simp
    moreover have "s\<lparr>sp_cons := C_Idle\<rparr> = s\<lparr>sp_ring := rb', sp_consumed := sp_consumed s @ []\<rparr>"
      using assms(1) r by (cases s) simp
    ultimately have "spsc_step ?s1 (s\<lparr>sp_ring := rb', sp_consumed := sp_consumed s @ []\<rparr>)"
      by (rule back_subst)
    with 1 r show ?thesis by (auto intro: rtranclp_step)
  next
    case False
    with assms(2) have r: "arr_get (rb_buf (sp_ring s)) (rb_slot ?t) = Some v"
      "rb' = (sp_ring s)\<lparr>rb_tail := ?t + 1\<rparr>" ok
      by (auto simp: rb_get_def Let_def split: bind_splits)
    let ?s2 = "s\<lparr>sp_cons := C_Some ?t\<rparr>"
    let ?s3 = "s\<lparr>sp_cons := C_Read ?t v\<rparr>"
    have 2: "spsc_step ?s1 ?s2" using get_some [of ?s1 ?t] False by simp
    have 3: "spsc_step ?s2 ?s3" using get_read [of ?s2 ?t v] r(1) by simp
    have "spsc_step ?s3 (s\<lparr>sp_ring := rb', sp_consumed := sp_consumed s @ [v]\<rparr>)"
      using get_publish [of ?s3 ?t v] assms(1) r(2) by (cases s) simp
    with 1 2 3 r(3) show ?thesis by (auto intro: rtranclp_step)
  qed
qed

section \<open>Properties\<close>

definition ring_at :: "u32 \<Rightarrow> ringbuf" where
  "ring_at i = \<lparr>rb_buf = replicate 64 0, rb_head = i, rb_tail = i\<rparr>"

lemma ring_at_start: "rb_start (ring_at i)" "rb_inv (ring_at i)" "rb_contents (ring_at i) = []"
  by (simp_all add: rb_start_def rb_inv_def rb_contents_def rb_count_def ring_at_def)

text \<open>C9. The ring refines a bounded first-in first-out queue: from any well-formed ring, whatever its
  free-running indices (the wrap at \<open>2^32\<close> included), any sequence of \<open>rb_put\<close> and \<open>rb_get\<close>
  calls stays inside \<open>buf\<close> and gives, call for call, the results of a list of at most 64 bytes: a put
  succeeds exactly when there is room, a get exactly when a byte is stored, and then delivers the
  oldest; a refused get leaves the caller's variable alone.\<close>

theorem ring_is_fifo:
  assumes "rb_inv rb"
  shows "\<exists>rb'. queue_run rb_put rb_get out rb ops = Some (rb', snd (spec_queue 64 out (rb_contents rb) ops)) \<and>
    rb_inv rb' \<and> rb_contents rb' = fst (spec_queue 64 out (rb_contents rb) ops)"
  using assms by (rule rb.run_fifo)

theorem ring_is_fifo_witness:
  "\<exists>rb'. queue_run rb_put rb_get 0 (ring_at 0xFFFFFFFF) [Get, Put 1, Put 2, Get, Put 3, Get] =
      Some (rb', [(0, False), (0, True), (0, True), (1, True), (1, True), (2, True)]) \<and> rb_contents rb' = [3]"
  using ring_is_fifo [OF ring_at_start(2) [of "0xFFFFFFFF"], of 0 "[Get, Put 1, Put 2, Get, Put 3, Get]"]
    ring_at_start(3) [of "0xFFFFFFFF"]
  by (auto simp del: queue_run.simps)

text \<open>The ring holds exactly 64 bytes: \<open>rb_put\<close> is refused precisely when 64 are stored,
  and \<open>rb_get\<close> precisely when none is; a refused call changes neither the ring nor the
  caller's output variable.\<close>

theorem ring_refuses_exactly:
  assumes "rb_inv rb"
  shows "\<exists>rb1 ok rb2 v ok'. rb_put rb b = Some (rb1, ok) \<and> rb_get rb out = Some (rb2, v, ok') \<and>
    (ok \<longleftrightarrow> length (rb_contents rb) \<noteq> 64) \<and> (ok' \<longleftrightarrow> rb_contents rb \<noteq> []) \<and>
    (\<not> ok \<longrightarrow> rb1 = rb) \<and> (\<not> ok' \<longrightarrow> rb2 = rb \<and> v = out) \<and>
    rb_full rb = (length (rb_contents rb) = 64) \<and> rb_empty rb = (rb_contents rb = [])"
proof -
  have f: "rb_full rb = (length (rb_contents rb) = 64)"
    using rb_full_iff [OF assms] by (simp add: rb_full_def)
  have e: "rb_empty rb = (rb_contents rb = [])"
    by (simp add: rb_empty_def unat_eq_zero [symmetric] length_rb_contents [symmetric] del: length_rb_contents)
  show ?thesis
    using f e
    by (cases rule: rb.put_cases [OF assms, where x = b]; cases rule: rb.get_cases [OF assms, where out = out]) auto
qed

theorem ring_refuses_exactly_witness:
  "\<exists>rb2 v. rb_get (ring_at 5) 0x5A = Some (rb2, v, False) \<and> rb2 = ring_at 5 \<and> v = 0x5A"
  using ring_refuses_exactly [OF ring_at_start(2) [of 5], where out = "0x5A" and b = 0] ring_at_start(3) [of 5] by auto

text \<open>C3. No critical section is needed: in every state reachable by interleaving the memory
  accesses of one producer and one consumer in any order, the bytes accepted are the bytes
  consumed followed by the bytes in the ring, and at most 64 are stored.\<close>

theorem spsc_linearizable:
  assumes "spsc_reach rb s" and "rb_start rb"
  shows "sp_accepted s = sp_consumed s @ rb_contents (sp_ring s) \<and>
    length (rb_contents (sp_ring s)) \<le> 64"
  using spsc_reach_inv [OF assms] by (simp add: spsc_inv_def rb_inv_def)

theorem spsc_linearizable_witness:
  "\<exists>s. spsc_reach (ring_at 0xFFFFFFFE) s \<and> sp_cons s = C_Tail 0xFFFFFFFE \<and>
     sp_accepted s = sp_consumed s @ rb_contents (sp_ring s)"
proof -
  let ?s = "(spsc_init (ring_at 0xFFFFFFFE))\<lparr>sp_cons := C_Tail 0xFFFFFFFE\<rparr>"
  have "spsc_reach (ring_at 0xFFFFFFFE) ?s"
    using spsc_reach.step [OF spsc_reach.init spsc_step.get_load_tail,
        of "ring_at 0xFFFFFFFE"]
    by (simp add: spsc_init_def ring_at_def)
  with spsc_linearizable [OF this ring_at_start(1)] show ?thesis by (intro exI [of _ ?s]) simp
qed

text \<open>C19. The two sides never touch the same slot: whenever the producer is about to store a
  byte while the consumer is about to load one, the slots differ and both are inside \<open>buf\<close>.\<close>

theorem spsc_race_free:
  assumes "spsc_reach rb s" and "rb_start rb"
    and "sp_prod s = P_Room b h" and "sp_cons s = C_Some t"
  shows "rb_slot h \<noteq> rb_slot t \<and> rb_slot h < length (rb_buf (sp_ring s)) \<and>
    rb_slot t < length (rb_buf (sp_ring s))"
  using spsc_reach_inv [OF assms(1,2)] rb_slots_differ [of "sp_ring s"] rb_slot_bound assms(3,4)
  by (auto simp: spsc_inv_def rb_inv_def)

text \<open>A run that stores one byte and then has both sides at the point of the claim.\<close>

lemma spsc_reach_steps: "spsc_step\<^sup>*\<^sup>* s s' \<Longrightarrow> spsc_reach rb s \<Longrightarrow> spsc_reach rb s'"
  by (induction rule: rtranclp_induct) (auto intro: spsc_reach.step)

definition race_ring :: ringbuf where
  "race_ring = (ring_at 7)\<lparr>rb_buf := (replicate 64 0)[7 := 1], rb_head := 8\<rparr>"

definition race_state :: spsc where
  "race_state = \<lparr>sp_ring = race_ring, sp_prod = P_Room 9 8, sp_cons = C_Some 7, sp_accepted = [1],
     sp_dropped = [], sp_consumed = []\<rparr>"

lemma race_state_reachable: "spsc_reach (ring_at 7) race_state"
proof -
  let ?s0 = "spsc_init (ring_at 7)"
  let ?s1 = "race_state\<lparr>sp_prod := P_Idle, sp_cons := C_Idle\<rparr>"
  let ?s2 = "race_state\<lparr>sp_prod := P_Idle, sp_cons := C_Tail 7\<rparr>"
  let ?s3 = "race_state\<lparr>sp_prod := P_Idle\<rparr>"
  let ?s4 = "race_state\<lparr>sp_prod := P_Head 9 8\<rparr>"
  have "rb_put (sp_ring ?s0) 1 = Some (race_ring, True)"
    by (simp add: rb_put_def spsc_init_def race_ring_def ring_at_def Let_def RB_CAPACITY_def
        rb_slot_mod mem)
  from put_steps [OF _ this] have "spsc_step\<^sup>*\<^sup>* ?s0 ?s1"
    by (simp add: spsc_init_def race_state_def)
  then have 1: "spsc_reach (ring_at 7) ?s1" by (rule spsc_reach_steps) (rule init)
  have 2: "spsc_step ?s1 ?s2"
    using get_load_tail [of ?s1] by (simp add: race_state_def race_ring_def ring_at_def)
  have 3: "spsc_step ?s2 ?s3"
    using get_some [of ?s2 7] by (simp add: race_state_def race_ring_def ring_at_def)
  have 4: "spsc_step ?s3 ?s4"
    using put_load_head [of ?s3 9] by (simp add: race_state_def race_ring_def ring_at_def)
  have 5: "spsc_step ?s4 race_state"
    using put_room [of ?s4 9 8]
    by (simp add: race_state_def race_ring_def ring_at_def RB_CAPACITY_def word_le_nat_alt)
  show ?thesis
    by (rule spsc_reach.step [OF spsc_reach.step [OF spsc_reach.step [OF spsc_reach.step [OF 1 2] 3] 4] 5])
qed

theorem spsc_race_free_witness:
  "sp_prod race_state = P_Room 9 8 \<and> sp_cons race_state = C_Some 7 \<and> rb_slot 8 \<noteq> rb_slot 7"
  using spsc_race_free [OF race_state_reachable ring_at_start(1), of 9 8 7]
  by (simp add: race_state_def)

text \<open>The split steps are the functions of the header: run without interruption, the
  producer's accesses have the effect and the result of one \<open>rb_put\<close> call, and the consumer's
  those of one \<open>rb_get\<close> call.\<close>

theorem spsc_steps_are_calls:
  assumes "sp_prod s = P_Idle" and "sp_cons s = C_Idle"
    and "rb_put (sp_ring s) b = Some (rb1, ok1)" and "rb_get rb1 out = Some (rb2, v, ok2)"
  shows "spsc_step\<^sup>*\<^sup>* s (s\<lparr>sp_ring := rb2,
    sp_accepted := sp_accepted s @ (if ok1 then [b] else []),
    sp_dropped := sp_dropped s @ (if ok1 then [] else [b]),
    sp_consumed := sp_consumed s @ (if ok2 then [v] else [])\<rparr>)"
proof -
  let ?s = "s\<lparr>sp_ring := rb1, sp_accepted := sp_accepted s @ (if ok1 then [b] else []),
    sp_dropped := sp_dropped s @ (if ok1 then [] else [b])\<rparr>"
  have a: "spsc_step\<^sup>*\<^sup>* s ?s" using assms(1,3) by (rule put_steps)
  have b: "spsc_step\<^sup>*\<^sup>* ?s (?s\<lparr>sp_ring := rb2, sp_consumed := sp_consumed ?s @ (if ok2 then [v] else [])\<rparr>)"
    using assms(2,4) by (intro get_steps) simp_all
  from rtranclp_trans [OF a b] show ?thesis by (cases s) simp
qed

theorem spsc_steps_are_calls_witness:
  "\<exists>s. spsc_step\<^sup>*\<^sup>* (spsc_init (ring_at 7)) s \<and> sp_accepted s = [1] \<and> sp_consumed s = [1]"
proof -
  have p: "rb_put (sp_ring (spsc_init (ring_at 7))) 1 = Some (race_ring, True)"
    by (simp add: rb_put_def spsc_init_def race_ring_def ring_at_def Let_def RB_CAPACITY_def
        rb_slot_mod mem)
  have g: "rb_get race_ring 0 = Some (race_ring\<lparr>rb_tail := 8\<rparr>, 1, True)"
    by (simp add: rb_get_def race_ring_def ring_at_def Let_def rb_slot_mod mem)
  let ?s = "(spsc_init (ring_at 7))\<lparr>sp_ring := race_ring\<lparr>rb_tail := 8\<rparr>, sp_accepted := [1],
    sp_consumed := [1]\<rparr>"
  have "spsc_step\<^sup>*\<^sup>* (spsc_init (ring_at 7)) ?s"
    using spsc_steps_are_calls [OF _ _ p g] by (simp add: spsc_init_def)
  then show ?thesis by (intro exI [of _ ?s]) simp
qed

end
