(* ===== verification/Spsc_Progress.thy ===== *)
theory Spsc_Progress
  imports Ringbuf
begin

text \<open>
  \<open>rb_put\<close> and \<open>rb_get\<close> of \<open>src/code/portable/ringbuf/ringbuf.h\<close> never block: in every interleaving each
  side can always make its next access, whatever the other side is doing or has stopped doing, and a
  call is over after a fixed number of its own accesses. The locale \<open>wait_free\<close> has the argument
  once; it is interpreted on the producer and on the consumer.
\<close>

section \<open>Bounded by its own steps\<close>

text \<open>A run is the list of its states; \<open>moves own\<close> counts the steps in it that are \<open>own\<close>.\<close>

fun moves :: "('s \<Rightarrow> 's \<Rightarrow> bool) \<Rightarrow> 's list \<Rightarrow> nat" where
  "moves own (x # y # path) = of_bool (own x y) + moves own (y # path)"
| "moves own _ = 0"

text \<open>\<open>left s\<close> is the number of own steps a side has left in state \<open>s\<close> until its call returns.\<close>

locale wait_free =
  fixes step :: "'s \<Rightarrow> 's \<Rightarrow> bool"
    and own :: "'s \<Rightarrow> 's \<Rightarrow> bool"
    and inv :: "'s \<Rightarrow> bool"
    and left :: "'s \<Rightarrow> nat"
  assumes kept: "step s s' \<Longrightarrow> inv s \<Longrightarrow> inv s'"
    and enabled: "inv s \<Longrightarrow> 0 < left s \<Longrightarrow> \<exists>s'. step s s' \<and> own s s'"
    and nearer: "step s s' \<Longrightarrow> own s s' \<Longrightarrow> 0 < left s \<Longrightarrow> left s' < left s"
    and undisturbed: "step s s' \<Longrightarrow> \<not> own s s' \<Longrightarrow> left s' = left s"
begin

lemma returns:
  assumes "successively step (s # path)" and "left s \<le> moves own (s # path)"
  shows "\<exists>x \<in> set (s # path). left x = 0"
  using assms
proof (induction path arbitrary: s)
  case (Cons y path)
  show ?case
  proof (cases "left s = 0")
    case False
    have s: "step s y" "successively step (y # path)"
      using Cons.prems(1) by simp_all
    have "left y \<le> moves own (y # path)"
      using Cons.prems(2) nearer [OF s(1)] undisturbed [OF s(1)] False by (cases "own s y") auto
    from Cons.IH [OF s(2) this] show ?thesis
      by auto
  qed simp
qed simp

lemma run_kept: "successively step (s # path) \<Longrightarrow> inv s \<Longrightarrow> x \<in> set (s # path) \<Longrightarrow> inv x"
  by (induction path arbitrary: s) (auto dest: kept)

end

section \<open>The two sides\<close>

definition producer_step :: "spsc \<Rightarrow> spsc \<Rightarrow> bool" where
  "producer_step s s' \<longleftrightarrow> sp_prod s' \<noteq> sp_prod s"

definition consumer_step :: "spsc \<Rightarrow> spsc \<Rightarrow> bool" where
  "consumer_step s s' \<longleftrightarrow> sp_cons s' \<noteq> sp_cons s"

fun put_left :: "producer \<Rightarrow> nat" where
  "put_left P_Idle = 0"
| "put_left (P_Head b h) = 3"
| "put_left (P_Room b h) = 2"
| "put_left (P_Stored b h) = 1"

fun get_left :: "consumer \<Rightarrow> nat" where
  "get_left C_Idle = 0"
| "get_left (C_Tail t) = 3"
| "get_left (C_Some t) = 2"
| "get_left (C_Read t v) = 1"

lemma left_0: "put_left p = 0 \<longleftrightarrow> p = P_Idle" "get_left c = 0 \<longleftrightarrow> c = C_Idle"
  by (cases p; simp) (cases c; simp)

lemma left_pos: "0 < put_left p \<longleftrightarrow> p \<noteq> P_Idle" "0 < get_left c \<longleftrightarrow> c \<noteq> C_Idle"
  by (simp_all add: left_0 flip: neq0_conv)

text \<open>Every step is one side's.\<close>

lemma one_side: "spsc_step s s' \<Longrightarrow> producer_step s s' \<longleftrightarrow> \<not> consumer_step s s'"
  by (induction rule: spsc_step.induct) (auto simp: producer_step_def consumer_step_def)

lemma producer_enabled:
  assumes "spsc_inv s" and "sp_prod s \<noteq> P_Idle"
  shows "\<exists>s'. spsc_step s s' \<and> producer_step s s'"
proof (cases "sp_prod s")
  case (P_Head b h)
  then show ?thesis
    using put_full [of s b h] put_room [of s b h] by (fastforce simp: producer_step_def)
next
  case (P_Room b h)
  have "rb_slot h < length (rb_buf (sp_ring s))"
    using assms(1) rb_slot_bound [of h] by (simp add: spsc_inv_def rb_inv_def)
  then have "arr_set (rb_buf (sp_ring s)) (rb_slot h) b = Some ((rb_buf (sp_ring s))[rb_slot h := b])"
    by (simp add: mem)
  from put_store [OF P_Room this] show ?thesis
    using P_Room by (fastforce simp: producer_step_def)
next
  case (P_Stored b h)
  then show ?thesis
    using put_publish [of s b h] by (fastforce simp: producer_step_def)
qed (use assms(2) in simp)

lemma consumer_enabled:
  assumes "spsc_inv s" and "sp_cons s \<noteq> C_Idle"
  shows "\<exists>s'. spsc_step s s' \<and> consumer_step s s'"
proof (cases "sp_cons s")
  case (C_Tail t)
  then show ?thesis
    using get_empty [of s t] get_some [of s t] by (fastforce simp: consumer_step_def)
next
  case (C_Some t)
  have "rb_slot t < length (rb_buf (sp_ring s))"
    using assms(1) rb_slot_bound [of t] by (simp add: spsc_inv_def rb_inv_def)
  then have "arr_get (rb_buf (sp_ring s)) (rb_slot t) = Some (rb_buf (sp_ring s) ! rb_slot t)"
    by (simp add: mem)
  from get_read [OF C_Some this] show ?thesis
    using C_Some by (fastforce simp: consumer_step_def)
next
  case (C_Read t v)
  then show ?thesis
    using get_publish [of s t v] by (fastforce simp: consumer_step_def)
qed (use assms(2) in simp)

lemma put_nearer:
  "spsc_step s s' \<Longrightarrow> producer_step s s' \<Longrightarrow> 0 < put_left (sp_prod s) \<Longrightarrow> put_left (sp_prod s') < put_left (sp_prod s)"
  by (induction rule: spsc_step.induct) (auto simp: producer_step_def)

lemma get_nearer:
  "spsc_step s s' \<Longrightarrow> consumer_step s s' \<Longrightarrow> 0 < get_left (sp_cons s) \<Longrightarrow> get_left (sp_cons s') < get_left (sp_cons s)"
  by (induction rule: spsc_step.induct) (auto simp: consumer_step_def)

interpretation put: wait_free spsc_step producer_step spsc_inv "\<lambda>s. put_left (sp_prod s)"
proof unfold_locales
  show "\<exists>s'. spsc_step s s' \<and> producer_step s s'" if "spsc_inv s" "0 < put_left (sp_prod s)" for s
    using that producer_enabled by (simp only: left_pos)
qed (use spsc_step_inv put_nearer in \<open>auto simp: producer_step_def\<close>)

interpretation get: wait_free spsc_step consumer_step spsc_inv "\<lambda>s. get_left (sp_cons s)"
proof unfold_locales
  show "\<exists>s'. spsc_step s s' \<and> consumer_step s s'" if "spsc_inv s" "0 < get_left (sp_cons s)" for s
    using that consumer_enabled by (simp only: left_pos)
qed (use spsc_step_inv get_nearer in \<open>auto simp: consumer_step_def\<close>)

lemma left_bound: "put_left p \<le> 3" "get_left c \<le> 3"
  by (cases p; simp) (cases c; simp)

section \<open>Properties\<close>

text \<open>C20. Both operations are wait-free. In every reachable state a side in the middle of a call can make
  its next access, wherever the other side stands; and in every run from there, whatever the
  other side does in between, a pending call has returned once its side has made three more
  accesses.\<close>

theorem spsc_wait_free:
  assumes "spsc_reach rb s" and "rb_start rb" and "successively spsc_step (s # path)"
  shows "(\<forall>x \<in> set (s # path). (sp_prod x \<noteq> P_Idle \<longrightarrow> (\<exists>x'. spsc_step x x' \<and> producer_step x x')) \<and>
      (sp_cons x \<noteq> C_Idle \<longrightarrow> (\<exists>x'. spsc_step x x' \<and> consumer_step x x'))) \<and>
    (3 \<le> moves producer_step (s # path) \<longrightarrow> (\<exists>x \<in> set (s # path). sp_prod x = P_Idle)) \<and>
    (3 \<le> moves consumer_step (s # path) \<longrightarrow> (\<exists>x \<in> set (s # path). sp_cons x = C_Idle))"
proof (intro conjI ballI impI)
  have inv: "spsc_inv s"
    using assms(1,2) by (rule spsc_reach_inv)
  fix x
  assume "x \<in> set (s # path)"
  then have x: "spsc_inv x"
    using put.run_kept [OF assms(3) inv] by blast
  show "\<exists>x'. spsc_step x x' \<and> producer_step x x'" if "sp_prod x \<noteq> P_Idle"
    using producer_enabled [OF x that] .
  show "\<exists>x'. spsc_step x x' \<and> consumer_step x x'" if "sp_cons x \<noteq> C_Idle"
    using consumer_enabled [OF x that] .
next
  assume "3 \<le> moves producer_step (s # path)"
  then show "\<exists>x \<in> set (s # path). sp_prod x = P_Idle"
    using put.returns [OF assms(3)] order_trans [OF left_bound(1)] by (simp only: left_0)
next
  assume "3 \<le> moves consumer_step (s # path)"
  then show "\<exists>x \<in> set (s # path). sp_cons x = C_Idle"
    using get.returns [OF assms(3)] order_trans [OF left_bound(2)] by (simp only: left_0)
qed

text \<open>Both sides are about to access the buffer in \<open>race_state\<close>; the producer can go first.\<close>

theorem spsc_wait_free_witness:
  "sp_prod race_state \<noteq> P_Idle \<and> (\<exists>x'. spsc_step race_state x' \<and> producer_step race_state x')"
  using spsc_wait_free [OF race_state_reachable ring_at_start(1), of "[]"]
  by (simp add: race_state_def)

end
