(* ===== verification/Bittiming.thy ===== *)
theory Bittiming
  imports Prelude
begin

text \<open>
  The CAN bit-timing solver and the bus-length budget of
  \<open>src/code/portable/can/can_bittiming.c\<close>. The two nested loops of the solver are
  \<open>u32_for\<close> loops over the state \<open>btl_search\<close> (the local variables and \<open>*out\<close>); a null
  pointer is \<open>None\<close>, and a result \<open>None\<close> is a division by zero or a loop that never ends.
  The specification works on natural numbers: \<open>bt_valid\<close> says which triples of prescaler and
  segments are exact solutions within the limits, \<open>bt_better\<close> is the documented ranking.
\<close>

section \<open>The limits and the timing\<close>

record can_btl_limits =
  brp_min :: u32
  brp_max :: u32
  tseg1_min :: u32
  tseg1_max :: u32
  tseg2_min :: u32
  tseg2_max :: u32
  sjw_max :: u32
  tq_min :: u32
  tq_max :: u32

definition CAN_LIMITS_BXCAN :: can_btl_limits where
  "CAN_LIMITS_BXCAN = \<lparr> brp_min = 1, brp_max = 1024, tseg1_min = 1, tseg1_max = 16,
     tseg2_min = 1, tseg2_max = 8, sjw_max = 4, tq_min = 8, tq_max = 25 \<rparr>"

record can_bittiming =
  brp :: u32
  tseg1 :: u32
  tseg2 :: u32
  sjw :: u32
  total_tq :: u32
  bitrate_hz :: u32
  sample_point_permille :: u32
  bitrate_error_ppm :: int

section \<open>The solver\<close>

definition abs_diff :: "u32 \<Rightarrow> u32 \<Rightarrow> u32" where
  "abs_diff a b = (if a > b then a - b else b - a)"

record btl_search =
  bs_found :: bool
  best_sp_err :: u32
  best_tq :: u32
  bs_out :: can_bittiming

text \<open>The jump width: TSEG2 limited by the controller, then by TSEG1, and at least 1.\<close>

definition btl_sjw :: "can_btl_limits \<Rightarrow> u32 \<Rightarrow> u32 \<Rightarrow> u32" where
  "btl_sjw lim t1 t2 =
     (let w = (if t2 < sjw_max lim then t2 else sjw_max lim);
          w = (if w > t1 then t1 else w)
      in if w = 0 then 1 else w)"

text \<open>The body of the inner loop, for one split of the bit time.\<close>

definition tseg1_body ::
    "can_btl_limits \<Rightarrow> u32 \<Rightarrow> u32 \<Rightarrow> u32 \<Rightarrow> u32 \<Rightarrow> u32 \<Rightarrow> btl_search \<Rightarrow>
     (btl_search \<times> bool) option" where
  "tseg1_body lim f_can target b tq t1 s =
     (if 1 + t1 \<ge> tq then Some (s, True)
      else let t2 = tq - 1 - t1 in
        if t2 < tseg2_min lim \<or> t2 > tseg2_max lim then Some (s, False)
        else do {
          sp \<leftarrow> udiv ((1 + t1) * 1000) tq;
          let err = abs_diff sp target;
          let better = (err < best_sp_err s \<or> (err = best_sp_err s \<and> tq > best_tq s));
          if \<not> better then Some (s, False)
          else do {
            rate \<leftarrow> udiv f_can (b * tq);
            Some (\<lparr> bs_found = True, best_sp_err = err, best_tq = tq,
                   bs_out = \<lparr> brp = b, tseg1 = t1, tseg2 = t2, sjw = btl_sjw lim t1 t2,
                     total_tq = tq, bitrate_hz = rate, sample_point_permille = sp,
                     bitrate_error_ppm = 0 \<rparr> \<rparr>, False)
          }
        })"

text \<open>The body of the outer loop, for one prescaler.\<close>

definition brp_body ::
    "can_btl_limits \<Rightarrow> u32 \<Rightarrow> u32 \<Rightarrow> u32 \<Rightarrow> u32 \<Rightarrow> btl_search \<Rightarrow> (btl_search \<times> bool) option" where
  "brp_body lim f_can bitrate target b s =
     (let divisor = b * bitrate in
      if divisor = 0 \<or> f_can mod divisor \<noteq> 0 then Some (s, False)
      else do {
        tq \<leftarrow> udiv f_can divisor;
        if tq < tq_min lim \<or> tq > tq_max lim then Some (s, False)
        else do {
          s \<leftarrow> u32_for (tseg1_min lim) (tseg1_max lim) (tseg1_body lim f_can target b tq) s;
          Some (s, False)
        }
      })"

definition can_solve_bittiming ::
    "u32 \<Rightarrow> u32 \<Rightarrow> u32 \<Rightarrow> can_btl_limits option \<Rightarrow> can_bittiming option \<Rightarrow>
     (bool \<times> can_bittiming option) option" where
  "can_solve_bittiming f_can bitrate target lim out =
     (if f_can = 0 \<or> bitrate = 0 then Some (False, out)
      else case (lim, out) of
        (Some l, Some o0) \<Rightarrow> do {
          s \<leftarrow> u32_for (brp_min l) (brp_max l) (brp_body l f_can bitrate target)
                 \<lparr> bs_found = False, best_sp_err = 0xFFFFFFFF, best_tq = 0, bs_out = o0 \<rparr>;
          Some (bs_found s, Some (bs_out s))
        }
      | _ \<Rightarrow> Some (False, out))"

section \<open>The bus length\<close>

definition can_max_bus_length_m :: "can_bittiming option \<Rightarrow> u32 \<Rightarrow> u32 \<Rightarrow> u32 option" where
  "can_max_bus_length_m t f_can delay_ns =
     (case t of
        None \<Rightarrow> Some 0
      | Some t \<Rightarrow>
          if f_can = 0 \<or> brp t = 0 then Some 0
          else do {
            tq_ns \<leftarrow> udiv ((ucast (brp t) :: u64) * 1000000000) (ucast f_can);
            if tseg1 t < 2 then Some 0
            else do {
              let prop_ns = ucast (tseg1 t - 1) * tq_ns;
              budget \<leftarrow> udiv prop_ns 2;
              if budget \<le> ucast delay_ns then Some 0
              else do {
                let bus_ns = budget - ucast delay_ns;
                m \<leftarrow> udiv bus_ns 5;
                Some (ucast m)
              }
            }
          })"


section \<open>The specification\<close>

text \<open>A candidate is a triple of prescaler, TSEG1 and TSEG2.\<close>

definition bt_total :: "nat \<times> nat \<times> nat \<Rightarrow> nat" where
  "bt_total c = (case c of (b, t1, t2) \<Rightarrow> 1 + t1 + t2)"

definition bt_valid :: "can_btl_limits \<Rightarrow> nat \<Rightarrow> nat \<Rightarrow> nat \<times> nat \<times> nat \<Rightarrow> bool" where
  "bt_valid lim f r c = (case c of (b, t1, t2) \<Rightarrow>
     unat (brp_min lim) \<le> b \<and> b \<le> unat (brp_max lim) \<and>
     unat (tseg1_min lim) \<le> t1 \<and> t1 \<le> unat (tseg1_max lim) \<and>
     unat (tseg2_min lim) \<le> t2 \<and> t2 \<le> unat (tseg2_max lim) \<and> 1 \<le> t2 \<and>
     unat (tq_min lim) \<le> bt_total c \<and> bt_total c \<le> unat (tq_max lim) \<and>
     b * bt_total c * r = f)"

definition bt_sp :: "nat \<times> nat \<times> nat \<Rightarrow> nat" where
  "bt_sp c = (case c of (b, t1, t2) \<Rightarrow> (1 + t1) * 1000 div bt_total c)"

definition bt_err :: "nat \<Rightarrow> nat \<times> nat \<times> nat \<Rightarrow> nat" where
  "bt_err target c = nat \<bar>int (bt_sp c) - int target\<bar>"

definition bt_better :: "nat \<Rightarrow> nat \<times> nat \<times> nat \<Rightarrow> nat \<times> nat \<times> nat \<Rightarrow> bool" where
  "bt_better target c c' \<longleftrightarrow> bt_err target c < bt_err target c' \<or>
     bt_err target c = bt_err target c' \<and> bt_total c > bt_total c'"

definition bt_triple :: "can_bittiming \<Rightarrow> nat \<times> nat \<times> nat" where
  "bt_triple t = (unat (brp t), unat (tseg1 t), unat (tseg2 t))"

definition bt_reports :: "can_btl_limits \<Rightarrow> u32 \<Rightarrow> can_bittiming \<Rightarrow> bool" where
  "bt_reports lim r t \<longleftrightarrow> unat (total_tq t) = bt_total (bt_triple t) \<and> bitrate_hz t = r \<and>
     unat (sample_point_permille t) = bt_sp (bt_triple t) \<and> bitrate_error_ppm t = 0 \<and>
     sjw t = btl_sjw lim (tseg1 t) (tseg2 t)"

text \<open>The loop counters and the products of the solver stay below \<open>2 ^ 32\<close>. For the bxCAN
  limits this is a requested rate of at most 4194303 bit/s.\<close>

definition btl_no_wrap :: "can_btl_limits \<Rightarrow> u32 \<Rightarrow> bool" where
  "btl_no_wrap lim r \<longleftrightarrow> unat (brp_max lim) + 1 < 2 ^ 32 \<and> unat (tseg1_max lim) + 1 < 2 ^ 32 \<and>
     unat (tq_max lim) * 1000 < 2 ^ 32 \<and> unat (brp_max lim) * unat r < 2 ^ 32"

text \<open>The loop invariant: the recorded timing is a best one among the candidates seen.\<close>

definition search_inv :: "can_btl_limits \<Rightarrow> u32 \<Rightarrow> u32 \<Rightarrow> u32 \<Rightarrow> can_bittiming \<Rightarrow>
    (nat \<Rightarrow> nat \<Rightarrow> bool) \<Rightarrow> btl_search \<Rightarrow> bool" where
  "search_inv lim f r target o0 seen s \<longleftrightarrow>
     (if bs_found s
      then bt_valid lim (unat f) (unat r) (bt_triple (bs_out s)) \<and> bt_reports lim r (bs_out s) \<and>
        unat (best_sp_err s) = bt_err (unat target) (bt_triple (bs_out s)) \<and>
        unat (best_tq s) = bt_total (bt_triple (bs_out s)) \<and>
        (\<forall>b t1 t2. bt_valid lim (unat f) (unat r) (b, t1, t2) \<longrightarrow> seen b t1 \<longrightarrow>
           \<not> bt_better (unat target) (b, t1, t2) (bt_triple (bs_out s)))
      else best_sp_err s = 0xFFFFFFFF \<and> best_tq s = 0 \<and> bs_out s = o0 \<and>
        (\<forall>b t1 t2. bt_valid lim (unat f) (unat r) (b, t1, t2) \<longrightarrow> \<not> seen b t1))"

lemma bt_better_step:
  "\<not> bt_better target x c \<Longrightarrow> bt_better target c' c \<Longrightarrow> \<not> bt_better target x c'"
  by (auto simp: bt_better_def)

lemma bt_better_irrefl [simp]: "\<not> bt_better target c c"
  by (simp add: bt_better_def)

lemma search_inv_mono:
  "search_inv lim f r target o0 seen s \<Longrightarrow>
   (\<And>b t1 t2. bt_valid lim (unat f) (unat r) (b, t1, t2) \<Longrightarrow> seen' b t1 \<Longrightarrow> seen b t1) \<Longrightarrow>
   search_inv lim f r target o0 seen' s"
  by (auto simp: search_inv_def split: if_splits; blast)


lemma abs_diff_unat: "unat (abs_diff a b) = nat \<bar>int (unat a) - int (unat b)\<bar>"
  by (cases "b < a") (auto simp: abs_diff_def word_less_nat_alt unat_minus_le word_le_nat_alt simp del: of_nat_unat)

lemma btl_no_wrap_rate:
  assumes "btl_no_wrap lim r" and "b \<le> brp_max lim"
  shows "unat (b * r) = unat b * unat r"
proof -
  have "unat b * unat r \<le> unat (brp_max lim) * unat r"
    using assms(2) by (intro mult_le_mono1) (simp add: word_le_nat_alt)
  also have "\<dots> < 2 ^ 32"
    using assms(1) by (simp add: btl_no_wrap_def)
  finally show ?thesis
    by (intro unat_mult_lt) simp
qed

text \<open>The facts on one candidate split.\<close>

text \<open>The facts at hand when the inner loop looks at the split \<open>t1\<close>.\<close>

definition btl_split :: "can_btl_limits \<Rightarrow> u32 \<Rightarrow> u32 \<Rightarrow> u32 \<Rightarrow> u32 \<Rightarrow> u32 \<Rightarrow> bool" where
  "btl_split lim f r b tq t1 \<longleftrightarrow> btl_no_wrap lim r \<and> brp_min lim \<le> b \<and> b \<le> brp_max lim \<and>
     unat b * unat tq * unat r = unat f \<and> f \<noteq> 0 \<and> tq_min lim \<le> tq \<and> tq \<le> tq_max lim \<and>
     tseg1_min lim \<le> t1 \<and> t1 \<le> tseg1_max lim"

lemma btl_splitD:
  assumes "btl_split lim f r b tq t1"
  shows "btl_no_wrap lim r" "brp_min lim \<le> b" "b \<le> brp_max lim"
    "unat b * unat tq * unat r = unat f" "f \<noteq> 0" "tq_min lim \<le> tq" "tq \<le> tq_max lim"
    "tseg1_min lim \<le> t1" "t1 \<le> tseg1_max lim"
  using assms unfolding btl_split_def by auto

lemma split_pos:
  assumes sp: "btl_split lim f r b tq t1"
  shows "0 < unat b" "0 < unat tq" "0 < unat r"
  using btl_splitD(4) [OF sp] btl_splitD(5) [OF sp] unat_eq_zero [of f] by (auto intro!: Nat.gr0I simp del: unat_eq_zero)

lemma split_t1_Suc:
  assumes sp: "btl_split lim f r b tq t1"
  shows "unat (1 + t1) = 1 + unat t1"
proof -
  have "unat t1 + 1 < 2 ^ LENGTH(32)"
    using btl_splitD(1) [OF sp] btl_splitD(9) [OF sp] unfolding btl_no_wrap_def word_le_nat_alt by simp
  from unat_Suc_lt [OF this] show ?thesis
    by (simp only: add.commute)
qed

lemma split_total_unique:
  assumes sp: "btl_split lim f r b tq t1" and "bt_valid lim (unat f) (unat r) (unat b, t, t2)"
  shows "1 + t + t2 = unat tq"
proof -
  have "unat b * (1 + t + t2) * unat r = unat b * unat tq * unat r"
    using assms unfolding bt_valid_def bt_total_def prod.case btl_splitD(4) [OF sp] by blast
  then have "unat b * (1 + t + t2) = unat b * unat tq"
    using split_pos(3) [OF sp] by (simp only: mult_cancel2) simp
  then show ?thesis
    using split_pos(1) [OF sp] by (simp only: mult_cancel1) simp
qed

lemma split_t2_unat:
  assumes sp: "btl_split lim f r b tq t1"
  shows "1 + t1 < tq \<Longrightarrow> unat (tq - 1 - t1) = unat tq - 1 - unat t1"
  using split_t1_Suc [OF sp] unat_minus_le [of "1 + t1" tq]
  by (simp add: diff_diff_eq word_le_nat_alt word_less_nat_alt)

lemma split_valid:
  assumes sp: "btl_split lim f r b tq t1" and "1 + t1 < tq" and "tseg2_min lim \<le> tq - 1 - t1" and "tq - 1 - t1 \<le> tseg2_max lim"
  shows "bt_valid lim (unat f) (unat r) (unat b, unat t1, unat (tq - 1 - t1))"
    and "bt_total (unat b, unat t1, unat (tq - 1 - t1)) = unat tq"
proof -
  have *: "1 + unat t1 < unat tq"
    using assms(2) split_t1_Suc [OF sp] by (simp add: word_less_nat_alt)
  show t: "bt_total (unat b, unat t1, unat (tq - 1 - t1)) = unat tq"
    using * by (simp add: bt_total_def split_t2_unat [OF sp] assms(2))
  show "bt_valid lim (unat f) (unat r) (unat b, unat t1, unat (tq - 1 - t1))"
    using assms * btl_splitD(2,3) [OF sp] btl_splitD(8,9) [OF sp] btl_splitD(6,7) [OF sp] btl_splitD(4) [OF sp]
    unfolding bt_valid_def prod.case t by (simp add: word_le_nat_alt split_t2_unat [OF sp])
qed

lemma split_sp:
  assumes sp: "btl_split lim f r b tq t1" and "1 + t1 < tq"
  shows "unat ((1 + t1) * 1000 div tq) = bt_sp (unat b, unat t1, unat (tq - 1 - t1))"
proof -
  have *: "1 + unat t1 < unat tq"
    using assms(2) split_t1_Suc [OF sp] by (simp add: word_less_nat_alt)
  have "(1 + unat t1) * 1000 < 2 ^ 32"
    using btl_splitD(1) [OF sp] btl_splitD(7) [OF sp] * by (simp add: btl_no_wrap_def word_le_nat_alt)
  then have "unat ((1 + t1) * 1000) = (1 + unat t1) * 1000"
    using unat_mult_lt [of "1 + t1" "1000 :: u32"] by (simp add: split_t1_Suc [OF sp])
  then show ?thesis
    using * by (simp add: bt_sp_def bt_total_def split_t2_unat [OF sp] assms unat_div)
qed

lemma split_rate:
  assumes sp: "btl_split lim f r b tq t1"
  shows "f div (b * tq) = r" "b * tq \<noteq> 0"
proof -
  have "unat b * unat tq * 1 \<le> unat b * unat tq * unat r"
    using split_pos [OF sp] by (intro mult_le_mono2) simp
  also have "\<dots> < 2 ^ 32"
    using btl_splitD(4) [OF sp] unsigned_less [of f] by simp
  finally have m: "unat (b * tq) = unat b * unat tq"
    by (intro unat_mult_lt) simp
  show nz: "b * tq \<noteq> 0"
    using m split_pos [OF sp] by (metis mult_is_0 not_less0 unat_0)
  have "unat (f div (b * tq)) = unat r"
    using split_pos [OF sp] by (simp add: unat_div m flip: btl_splitD(4) [OF sp])
  then show "f div (b * tq) = r"
    by (simp only: word_unat_eq_iff)
qed

text \<open>The search record after a split has been taken, and the test that takes it.\<close>

definition split_taken :: "can_btl_limits \<Rightarrow> u32 \<Rightarrow> u32 \<Rightarrow> u32 \<Rightarrow> u32 \<Rightarrow> u32 \<Rightarrow> btl_search" where
  "split_taken lim r target b tq t1 =
     (let sp = (1 + t1) * 1000 div tq; t2 = tq - 1 - t1
      in \<lparr> bs_found = True, best_sp_err = abs_diff sp target, best_tq = tq,
           bs_out = \<lparr> brp = b, tseg1 = t1, tseg2 = t2, sjw = btl_sjw lim t1 t2, total_tq = tq,
             bitrate_hz = r, sample_point_permille = sp, bitrate_error_ppm = 0 \<rparr> \<rparr>)"

definition split_better :: "u32 \<Rightarrow> u32 \<Rightarrow> u32 \<Rightarrow> btl_search \<Rightarrow> bool" where
  "split_better target tq t1 s \<longleftrightarrow>
     (let err = abs_diff ((1 + t1) * 1000 div tq) target
      in err < best_sp_err s \<or> (err = best_sp_err s \<and> tq > best_tq s))"

abbreviation visited :: "u32 \<Rightarrow> nat \<Rightarrow> nat \<Rightarrow> nat \<Rightarrow> bool" where
  "visited b n \<equiv> \<lambda>b' t. b' < unat b \<or> b' = unat b \<and> t < n"

abbreviation split_triple :: "u32 \<Rightarrow> u32 \<Rightarrow> u32 \<Rightarrow> nat \<times> nat \<times> nat" where
  "split_triple b tq t1 \<equiv> (unat b, unat t1, unat (tq - 1 - t1))"

definition split_fits :: "can_btl_limits \<Rightarrow> u32 \<Rightarrow> u32 \<Rightarrow> bool" where
  "split_fits lim tq t1 \<longleftrightarrow> 1 + t1 < tq \<and> tseg2_min lim \<le> tq - 1 - t1 \<and> tq - 1 - t1 \<le> tseg2_max lim"

lemma split_err:
  assumes "btl_split lim f r b tq t1" and "split_fits lim tq t1"
  shows "unat (abs_diff ((1 + t1) * 1000 div tq) target) = bt_err (unat target) (split_triple b tq t1)"
  using assms by (simp only: split_fits_def abs_diff_unat split_sp [OF assms(1)] bt_err_def)

lemma split_body:
  assumes sp: "btl_split lim f r b tq t1" and fits: "split_fits lim tq t1"
  shows "tseg1_body lim f target b tq t1 s =
    Some (if split_better target tq t1 s then split_taken lim r target b tq t1 else s, False)"
proof -
  let ?t2 = "tq - 1 - t1"
  have c: "\<not> 1 + t1 \<ge> tq" "\<not> (?t2 < tseg2_min lim \<or> ?t2 > tseg2_max lim)" "tq \<noteq> 0"
    using fits split_pos(2) [OF sp] by (auto simp: not_less split_fits_def)
  show ?thesis
    unfolding tseg1_body_def Let_def if_not_P [OF c(1)] if_not_P [OF c(2)] udiv_def
      if_not_P [OF c(3)] if_not_P [OF split_rate(2) [OF sp]] split_rate(1) [OF sp] bind.bind_lunit
      split_better_def split_taken_def
    by (cases "abs_diff ((1 + t1) * 1000 div tq) target < best_sp_err s \<or>
        (abs_diff ((1 + t1) * 1000 div tq) target = best_sp_err s \<and> tq > best_tq s)")
      (simp_all only: if_True if_False not_True_eq_False not_False_eq_True bind.bind_lunit)
qed

text \<open>The only valid candidate with the prescaler and first segment at hand is the one looked at.\<close>

lemma visited_step:
  assumes sp: "btl_split lim f r b tq t1" and fits: "split_fits lim tq t1"
    and "bt_valid lim (unat f) (unat r) (b', t, t2)" and "visited b (unat t1 + 1) b' t"
  shows "visited b (unat t1) b' t \<or> (b', t, t2) = split_triple b tq t1"
proof (cases "b' = unat b \<and> t = unat t1")
  case True
  then have "1 + unat t1 + t2 = unat tq"
    using assms(3) by (intro split_total_unique [OF sp]) simp
  then show ?thesis
    using True split_valid(2) [OF sp] fits by (auto simp: split_fits_def bt_total_def)
next
  case False
  then show ?thesis
    using assms(4) by auto
qed

lemma search_inv_take:
  assumes sp: "btl_split lim f r b tq t1" and fits: "split_fits lim tq t1"
    and before: "\<And>b' t t2. bt_valid lim (unat f) (unat r) (b', t, t2) \<Longrightarrow> visited b (unat t1) b' t \<Longrightarrow>
      \<not> bt_better (unat target) (b', t, t2) (split_triple b tq t1)"
  shows "search_inv lim f r target o0 (visited b (unat t1 + 1)) (split_taken lim r target b tq t1)"
proof -
  let ?new = "split_taken lim r target b tq t1"
  have tr: "bt_triple (bs_out ?new) = split_triple b tq t1"
    by (simp add: bt_triple_def split_taken_def Let_def)
  have v: "bt_valid lim (unat f) (unat r) (split_triple b tq t1)" "bt_total (split_triple b tq t1) = unat tq"
    using split_valid [OF sp] fits by (simp_all add: split_fits_def)
  have "bt_reports lim r (bs_out ?new)"
    using v(2) split_sp [OF sp] fits unfolding bt_reports_def tr by (simp add: split_taken_def Let_def split_fits_def)
  moreover have "\<not> bt_better (unat target) (b', t, t2) (split_triple b tq t1)"
    if "bt_valid lim (unat f) (unat r) (b', t, t2)" "visited b (unat t1 + 1) b' t" for b' t t2
    using visited_step [OF sp fits that] before [OF that(1)] by auto
  moreover have "bs_found ?new" "unat (best_sp_err ?new) = bt_err (unat target) (split_triple b tq t1)"
    "unat (best_tq ?new) = bt_total (split_triple b tq t1)"
    using split_err [OF sp fits] v(2) by (simp_all add: split_taken_def Let_def)
  ultimately show ?thesis
    using v(1) unfolding search_inv_def tr by auto
qed

lemma search_inv_keep:
  assumes sp: "btl_split lim f r b tq t1" and fits: "split_fits lim tq t1"
    and inv: "search_inv lim f r target o0 (visited b (unat t1)) s" and "bs_found s"
    and "\<not> bt_better (unat target) (split_triple b tq t1) (bt_triple (bs_out s))"
  shows "search_inv lim f r target o0 (visited b (unat t1 + 1)) s"
proof -
  have "\<not> bt_better (unat target) (b', t, t2) (bt_triple (bs_out s))"
    if h: "bt_valid lim (unat f) (unat r) (b', t, t2)" "visited b (unat t1 + 1) b' t" for b' t t2
  proof (cases "(b', t, t2) = split_triple b tq t1")
    case True
    then show ?thesis
      using assms(5) by simp
  next
    case False
    then have "visited b (unat t1) b' t"
      using visited_step [OF sp fits h] by blast
    then show ?thesis
      using inv assms(4) h(1) unfolding search_inv_def by (simp only: if_True) blast
  qed
  then show ?thesis
    using inv assms(4) unfolding search_inv_def by simp
qed

lemma split_better_found:
  assumes sp: "btl_split lim f r b tq t1" and fits: "split_fits lim tq t1"
    and "search_inv lim f r target o0 seen s" and "bs_found s"
  shows "split_better target tq t1 s \<longleftrightarrow> bt_better (unat target) (split_triple b tq t1) (bt_triple (bs_out s))"
proof -
  have "bt_total (split_triple b tq t1) = unat tq"
    using split_valid(2) [OF sp] fits by (simp add: split_fits_def)
  then show ?thesis
    using assms(3,4) split_err [OF sp fits]
    by (simp add: search_inv_def bt_better_def split_better_def Let_def word_less_nat_alt word_unat_eq_iff)
qed

lemma split_better_first:
  assumes sp: "btl_split lim f r b tq t1" and "search_inv lim f r target o0 seen s" and "\<not> bs_found s"
  shows "split_better target tq t1 s"
proof -
  have m: "(0xFFFFFFFF :: u32) = - 1"
    by simp
  have le: "abs_diff ((1 + t1) * 1000 div tq) target \<le> 0xFFFFFFFF"
    unfolding m by (rule word_order.extremum)
  have init: "best_sp_err s = 0xFFFFFFFF" "best_tq s = 0"
    using assms(2,3) unfolding search_inv_def by simp_all
  have "0 < tq"
    using split_pos(2) [OF sp] by (simp only: word_less_nat_alt unat_0)
  then show ?thesis
    using le unfolding split_better_def Let_def init order_le_less by blast
qed

lemma split_step_fits:
  assumes sp: "btl_split lim f r b tq t1" and fits: "split_fits lim tq t1"
    and inv: "search_inv lim f r target o0 (visited b (unat t1)) s"
  shows "search_inv lim f r target o0 (visited b (unat t1 + 1))
    (if split_better target tq t1 s then split_taken lim r target b tq t1 else s)"
proof (cases "bs_found s")
  case True
  note better = split_better_found [OF sp fits inv True]
  show ?thesis
  proof (cases "split_better target tq t1 s")
    case b: True
    have "\<not> bt_better (unat target) (b', t, t2) (split_triple b tq t1)"
      if "bt_valid lim (unat f) (unat r) (b', t, t2)" "visited b (unat t1) b' t" for b' t t2
    proof (rule bt_better_step [OF _ better [THEN iffD1, OF b]])
      show "\<not> bt_better (unat target) (b', t, t2) (bt_triple (bs_out s))"
        using inv True that unfolding search_inv_def by (simp only: if_True) blast
    qed
    then show ?thesis
      unfolding if_P [OF b] by (intro search_inv_take [OF sp fits])
  next
    case b: False
    then show ?thesis
      using search_inv_keep [OF sp fits inv True] better by simp
  qed
next
  case False
  then have "search_inv lim f r target o0 (visited b (unat t1 + 1)) (split_taken lim r target b tq t1)"
    using inv by (intro search_inv_take [OF sp fits]) (auto simp: search_inv_def)
  then show ?thesis
    using split_better_first [OF sp inv False] by simp
qed

lemma split_step:
  assumes sp: "btl_split lim f r b tq t1" and inv: "search_inv lim f r target o0 (visited b (unat t1)) s"
  shows "\<exists>s' brk. tseg1_body lim f target b tq t1 s = Some (s', brk) \<and>
    (if brk then search_inv lim f r target o0 (\<lambda>b' t. b' < unat b + 1) s'
     else search_inv lim f r target o0 (visited b (unat t1 + 1)) s')"
proof -
  let ?t2 = "tq - 1 - t1"
  consider (brk) "1 + t1 \<ge> tq"
    | (range) "1 + t1 < tq" "?t2 < tseg2_min lim \<or> ?t2 > tseg2_max lim"
    | (cand) "split_fits lim tq t1"
    unfolding split_fits_def by force
  then show ?thesis
  proof cases
    case brk
    then have "unat tq \<le> 1 + unat t1"
      using split_t1_Suc [OF sp] by (simp add: word_le_nat_alt)
    then have "search_inv lim f r target o0 (\<lambda>b' t. b' < unat b + 1) s"
      using split_total_unique [OF sp]
      by (intro search_inv_mono [OF inv]) (force simp: bt_valid_def less_Suc_eq)
    then show ?thesis
      using brk by (intro exI [of _ s] exI [of _ True]) (simp add: tseg1_body_def)
  next
    case range
    have "search_inv lim f r target o0 (visited b (unat t1 + 1)) s"
      using split_total_unique [OF sp] range split_t2_unat [OF sp]
      by (intro search_inv_mono [OF inv])
        (force simp: bt_valid_def less_Suc_eq word_less_nat_alt)
    then show ?thesis
      using range
      by (intro exI [of _ s] exI [of _ False]) (auto simp: tseg1_body_def Let_def not_le)
  next
    case cand
    then show ?thesis
      using split_step_fits [OF sp cand inv] unfolding split_body [OF sp cand]
      by (intro exI [of _ "if split_better target tq t1 s then split_taken lim r target b tq t1 else s"] exI [of _ False])
        (simp only: if_False simp_thms)
  qed
qed

text \<open>A valid candidate needs a prescaler that divides the clock, and quanta within the limits.\<close>

lemma bt_valid_brp:
  assumes nw: "btl_no_wrap lim r" and f: "f \<noteq> 0" and b: "b \<le> brp_max lim"
    and v: "bt_valid lim (unat f) (unat r) (unat b, t1, t2)"
  shows "b * r \<noteq> 0 \<and> f mod (b * r) = 0 \<and> tq_min lim \<le> f div (b * r) \<and> f div (b * r) \<le> tq_max lim"
proof -
  note d = btl_no_wrap_rate [OF nw b]
  have e: "unat f = unat (b * r) * (1 + t1 + t2)"
    using v by (simp add: bt_valid_def bt_total_def d algebra_simps)
  then have nz: "unat (b * r) \<noteq> 0"
    using f unat_eq_zero [of f] by (metis mult_is_0)
  then have q: "unat (f div (b * r)) = 1 + t1 + t2"
    by (simp add: unat_div e)
  have "unat (f mod (b * r)) = 0"
    by (simp add: unat_mod e)
  then show ?thesis
    using v q nz unat_eq_zero [of "f mod (b * r)"] unat_eq_zero [of "b * r"]
    by (simp add: bt_valid_def bt_total_def word_le_nat_alt)
qed

lemma brp_quanta:
  assumes "btl_no_wrap lim r" and "b \<le> brp_max lim" and "f mod (b * r) = 0"
  shows "unat b * unat (f div (b * r)) * unat r = unat f"
proof -
  note d = btl_no_wrap_rate [OF assms(1,2)]
  have "unat f mod unat (b * r) = 0"
    using assms(3) by (metis unat_0 unat_mod)
  then have "unat (b * r) * unat (f div (b * r)) = unat f"
    by (simp add: unat_div mod_eq_0_iff_dvd del: d)
  then show ?thesis
    by (simp add: d algebra_simps)
qed

lemma tseg1_loop:
  assumes nw: "btl_no_wrap lim r" and split: "\<And>t1. tseg1_min lim \<le> t1 \<Longrightarrow> t1 \<le> tseg1_max lim \<Longrightarrow> btl_split lim f r b tq t1"
    and inv: "search_inv lim f r target o0 (\<lambda>b' t. b' < unat b) s"
  shows "\<exists>s'. u32_for (tseg1_min lim) (tseg1_max lim) (tseg1_body lim f target b tq) s = Some s' \<and>
    search_inv lim f r target o0 (\<lambda>b' t. b' < unat b + 1) s'"
proof (rule u32_for_rule [where I = "\<lambda>n. search_inv lim f r target o0 (visited b n)"])
  show "unat (tseg1_max lim) + 1 < 2 ^ 32"
    using nw by (simp add: btl_no_wrap_def)
  show "search_inv lim f r target o0 (visited b (unat (tseg1_min lim))) s"
    by (rule search_inv_mono [OF inv]) (auto simp: bt_valid_def)
next
  fix n s' assume "search_inv lim f r target o0 (visited b n) s'" and "unat (tseg1_max lim) < n"
  then show "search_inv lim f r target o0 (\<lambda>b' t. b' < unat b + 1) s'"
    by (elim search_inv_mono) (auto simp: bt_valid_def)
next
  fix t1 s'
  assume "tseg1_min lim \<le> t1" "t1 \<le> tseg1_max lim" and "search_inv lim f r target o0 (visited b (unat t1)) s'"
  then show "\<exists>s'' brk. tseg1_body lim f target b tq t1 s' = Some (s'', brk) \<and>
      (if brk then search_inv lim f r target o0 (\<lambda>b' t. b' < unat b + 1) s''
       else search_inv lim f r target o0 (visited b (unat t1 + 1)) s'')"
    by (intro split_step split)
qed

lemma brp_body_step:
  assumes nw: "btl_no_wrap lim r" and f: "f \<noteq> 0"
    and b: "brp_min lim \<le> b" "b \<le> brp_max lim"
    and inv: "search_inv lim f r target o0 (\<lambda>b' t. b' < unat b) s"
  shows "\<exists>s'. brp_body lim f r target b s = Some (s', False) \<and>
    search_inv lim f r target o0 (\<lambda>b' t. b' < unat b + 1) s'"
proof (cases "b * r = 0 \<or> f mod (b * r) \<noteq> 0 \<or> f div (b * r) < tq_min lim \<or> f div (b * r) > tq_max lim")
  case True
  then have "\<not> bt_valid lim (unat f) (unat r) (unat b, t1, t2)" for t1 t2
    using bt_valid_brp [OF nw f b(2)] by (meson leD)
  then have "search_inv lim f r target o0 (\<lambda>b' t. b' < unat b + 1) s"
    by (intro search_inv_mono [OF inv]) (metis less_antisym Suc_eq_plus1)
  then show ?thesis
    using True by (auto simp: brp_body_def Let_def udiv_def)
next
  case False
  then have "btl_split lim f r b (f div (b * r)) t1" if "tseg1_min lim \<le> t1" "t1 \<le> tseg1_max lim" for t1
    using nw b f that brp_quanta [OF nw b(2)] by (auto simp: btl_split_def)
  from tseg1_loop [OF nw this inv] show ?thesis
    using False by (auto simp: brp_body_def Let_def udiv_def)
qed

lemma can_solve_search:
  assumes "btl_no_wrap lim r" and "f \<noteq> 0" and "r \<noteq> 0"
  shows "\<exists>s. can_solve_bittiming f r target (Some lim) (Some o0) = Some (bs_found s, Some (bs_out s)) \<and>
    search_inv lim f r target o0 (\<lambda>b t. True) s"
proof -
  let ?s0 = "\<lparr> bs_found = False, best_sp_err = 0xFFFFFFFF, best_tq = 0, bs_out = o0 \<rparr>"
  have "\<exists>s. u32_for (brp_min lim) (brp_max lim) (brp_body lim f r target) ?s0 = Some s \<and>
    search_inv lim f r target o0 (\<lambda>b t. True) s"
  proof (rule u32_for_rule [where I = "\<lambda>n. search_inv lim f r target o0 (\<lambda>b' t. b' < n)"])
    show "unat (brp_max lim) + 1 < 2 ^ 32"
      using assms(1) by (simp add: btl_no_wrap_def)
    show "search_inv lim f r target o0 (\<lambda>b' t. b' < unat (brp_min lim)) ?s0"
      by (auto simp: search_inv_def bt_valid_def)
  next
    fix n s assume "search_inv lim f r target o0 (\<lambda>b' t. b' < n) s" and "unat (brp_max lim) < n"
    then show "search_inv lim f r target o0 (\<lambda>b t. True) s"
      by (elim search_inv_mono) (auto simp: bt_valid_def)
  next
    fix b s
    assume "brp_min lim \<le> b" "b \<le> brp_max lim" "search_inv lim f r target o0 (\<lambda>b' t. b' < unat b) s"
    from brp_body_step [OF assms(1,2) this]
    show "\<exists>s' brk. brp_body lim f r target b s = Some (s', brk) \<and>
      (if brk then search_inv lim f r target o0 (\<lambda>b t. True) s'
       else search_inv lim f r target o0 (\<lambda>b' t. b' < unat b + 1) s')"
      by auto
  qed
  then show ?thesis
    using assms by (auto simp: can_solve_bittiming_def)
qed


lemma btl_sjw_bounds:
  assumes "t1 \<noteq> 0" and "t2 \<noteq> 0"
  shows "1 \<le> unat (btl_sjw lim t1 t2)" and "unat (btl_sjw lim t1 t2) \<le> unat t1"
    and "unat (btl_sjw lim t1 t2) \<le> unat t2" and "sjw_max lim \<noteq> 0 \<Longrightarrow> btl_sjw lim t1 t2 \<le> sjw_max lim"
  using assms by (auto simp: btl_sjw_def Let_def word_le_nat_alt word_less_nat_alt unat_gt_0 Suc_le_eq)

section \<open>Properties\<close>

definition bt_zero :: can_bittiming where
  "bt_zero = \<lparr> brp = 0, tseg1 = 0, tseg2 = 0, sjw = 0, total_tq = 0, bitrate_hz = 0,
     sample_point_permille = 0, bitrate_error_ppm = 0 \<rparr>"

definition btl_narrow :: can_btl_limits where
  "btl_narrow = CAN_LIMITS_BXCAN \<lparr> brp_max := 6 \<rparr>"

lemmas btl_eval = can_solve_bittiming_def brp_body_def tseg1_body_def udiv_def Let_def
  abs_diff_def btl_sjw_def u32_for_go u32_for_stop btl_narrow_def CAN_LIMITS_BXCAN_def

lemma narrow_42MHz_500k:
  "can_solve_bittiming 42000000 500000 875 (Some btl_narrow) (Some bt_zero) =
    Some (True, Some \<lparr> brp = 6, tseg1 = 11, tseg2 = 2, sjw = 2, total_tq = 14, bitrate_hz = 500000,
      sample_point_permille = 857, bitrate_error_ppm = 0 \<rparr>)"
  by (simp add: btl_eval)

text \<open>C6. As long as no product of prescaler and rate wraps (\<open>btl_no_wrap\<close>), a reported timing is an exact solution within the controller limits (prescaler times
  time quanta times requested rate is the clock), its reported fields are those of the
  solution, and no other exact solution has a smaller sample-point error, or the same error
  with more time quanta.\<close>

theorem bittiming_optimal:
  assumes "btl_no_wrap lim r" and "f \<noteq> 0" and "r \<noteq> 0"
    and "can_solve_bittiming f r target (Some lim) (Some o0) = Some (True, Some t)"
  shows "bt_valid lim (unat f) (unat r) (bt_triple t) \<and> bt_reports lim r t \<and>
    (\<forall>c. bt_valid lim (unat f) (unat r) c \<longrightarrow> \<not> bt_better (unat target) c (bt_triple t))"
proof -
  obtain s where "can_solve_bittiming f r target (Some lim) (Some o0) = Some (bs_found s, Some (bs_out s))"
    and "search_inv lim f r target o0 (\<lambda>b t. True) s"
    using can_solve_search [OF assms(1-3)] by blast
  then show ?thesis
    using assms(4) by (auto simp: search_inv_def)
qed

theorem bittiming_optimal_witness:
  "\<exists>t. can_solve_bittiming 42000000 500000 875 (Some btl_narrow) (Some bt_zero) = Some (True, Some t) \<and>
     bt_triple t = (6, 11, 2) \<and> 6 * bt_total (bt_triple t) * 500000 = 42000000 \<and> \<not> bt_better 875 (6, 10, 3) (bt_triple t)"
proof -
  have "bt_valid btl_narrow 42000000 500000 (6, 10, 3)"
    by (simp add: bt_valid_def bt_total_def btl_narrow_def CAN_LIMITS_BXCAN_def)
  then show ?thesis
    using bittiming_optimal [of btl_narrow 500000 42000000 875 bt_zero, OF _ _ _ narrow_42MHz_500k] narrow_42MHz_500k
    by (simp add: bt_triple_def bt_valid_def btl_no_wrap_def btl_narrow_def CAN_LIMITS_BXCAN_def)
qed

text \<open>C17. As long as no product wraps (\<open>btl_no_wrap\<close>) the search ends, and reports failure exactly when no exact solution exists within the
  limits; on failure the output record is left as it was.\<close>

theorem bittiming_complete:
  assumes "btl_no_wrap lim r" and "f \<noteq> 0" and "r \<noteq> 0"
  shows "\<exists>ok t. can_solve_bittiming f r target (Some lim) (Some o0) = Some (ok, Some t) \<and>
    (ok \<longleftrightarrow> (\<exists>c. bt_valid lim (unat f) (unat r) c)) \<and> (\<not> ok \<longrightarrow> t = o0)"
proof -
  obtain s where s: "can_solve_bittiming f r target (Some lim) (Some o0) = Some (bs_found s, Some (bs_out s))"
    and inv: "search_inv lim f r target o0 (\<lambda>b t. True) s"
    using can_solve_search [OF assms] by blast
  have "bs_found s \<longleftrightarrow> (\<exists>c. bt_valid lim (unat f) (unat r) c)"
    using inv unfolding search_inv_def by (cases "bs_found s") (simp_all only: if_True if_False, blast, force)
  moreover have "\<not> bs_found s \<longrightarrow> bs_out s = o0"
    using inv by (simp add: search_inv_def)
  ultimately show ?thesis
    using s by blast
qed

theorem bittiming_complete_witness:
  "\<exists>t. can_solve_bittiming 8000000 83333 875 (Some CAN_LIMITS_BXCAN) (Some bt_zero) = Some (False, Some t) \<and> t = bt_zero"
proof -
  have "\<not> bt_valid CAN_LIMITS_BXCAN 8000000 83333 c" for c
  proof
    assume "bt_valid CAN_LIMITS_BXCAN 8000000 83333 c"
    then have "fst c * bt_total c * 83333 = 8000000"
      by (cases c) (simp add: bt_valid_def)
    then have "83333 dvd (8000000 :: nat)"
      by (metis dvd_triv_right)
    then show False
      by simp
  qed
  then show ?thesis
    using bittiming_complete [of CAN_LIMITS_BXCAN 83333 8000000 875 bt_zero]
    by (auto simp: btl_no_wrap_def CAN_LIMITS_BXCAN_def)
qed

text \<open>The resynchronisation jump width is at least 1 and exceeds neither phase segment nor the
  controller limit.\<close>

theorem bittiming_sjw:
  assumes "btl_no_wrap lim r" and "f \<noteq> 0" and "r \<noteq> 0" and "tseg1_min lim \<noteq> 0" and "sjw_max lim \<noteq> 0"
    and "can_solve_bittiming f r target (Some lim) (Some o0) = Some (True, Some t)"
  shows "1 \<le> sjw t \<and> sjw t \<le> tseg2 t \<and> sjw t \<le> tseg1 t \<and> sjw t \<le> sjw_max lim"
proof -
  obtain s where "can_solve_bittiming f r target (Some lim) (Some o0) = Some (bs_found s, Some (bs_out s))"
    and "search_inv lim f r target o0 (\<lambda>b t. True) s"
    using can_solve_search [OF assms(1-3)] by blast
  then have v: "bt_valid lim (unat f) (unat r) (bt_triple t)" "sjw t = btl_sjw lim (tseg1 t) (tseg2 t)"
    using assms(6) by (auto simp: search_inv_def bt_reports_def)
  have "tseg1 t \<noteq> 0" "tseg2 t \<noteq> 0"
    using v(1) assms(4) by (auto simp: bt_valid_def bt_triple_def simp flip: unat_eq_zero)
  then show ?thesis
    using btl_sjw_bounds [of "tseg1 t" "tseg2 t" lim] assms(5) v(2)
    by (simp add: word_le_nat_alt)
qed

theorem bittiming_sjw_witness: "(1::u32) \<le> 2 \<and> (2::u32) \<le> sjw_max btl_narrow"
  using bittiming_sjw [of btl_narrow 500000 42000000, OF _ _ _ _ _ narrow_42MHz_500k]
  by (simp add: btl_no_wrap_def btl_narrow_def CAN_LIMITS_BXCAN_def)

section \<open>Wrapping products\<close>

text \<open>What the search records whatever the products do: a timing whose rate is at most the clock
  and whose error is given as 0.\<close>

definition search_claims :: "u32 \<Rightarrow> btl_search \<Rightarrow> bool" where
  "search_claims f s \<longleftrightarrow>
     (if bs_found s then bitrate_error_ppm (bs_out s) = 0 \<and> bitrate_hz (bs_out s) \<le> f
      else best_sp_err s = 0xFFFFFFFF \<and> best_tq s = 0)"

lemma unat_one_plus:
  fixes t :: u32
  assumes "unat t + 1 < 2 ^ 32"
  shows "unat (1 + t) = 1 + unat t"
  using unat_Suc_lt [of t] assms by (simp add: add.commute [of 1 t])

lemma split_body_claims:
  assumes "tq \<noteq> 0" and "b * tq \<noteq> 0" and "search_claims f s"
  shows "\<exists>s' brk. tseg1_body lim f target b tq t1 s = Some (s', brk) \<and> search_claims f s' \<and>
    (bs_found s \<longrightarrow> bs_found s') \<and> (brk \<longrightarrow> tq \<le> 1 + t1) \<and> (split_fits lim tq t1 \<longrightarrow> bs_found s')"
proof -
  let ?err = "abs_diff ((1 + t1) * 1000 div tq) target"
  have m: "(0xFFFFFFFF :: u32) = - 1"
    by simp
  have "?err \<le> 0xFFFFFFFF"
    unfolding m by (rule word_order.extremum)
  then have first: "?err < best_sp_err s \<or> ?err = best_sp_err s \<and> tq > best_tq s" if "\<not> bs_found s"
    using that assms(1,3) by (auto simp: search_claims_def order_le_less word_neq_0_conv)
  have rate: "f div (b * tq) \<le> f"
    by (simp add: word_le_nat_alt unat_div)
  show ?thesis
    using assms first rate
    by (auto simp: tseg1_body_def Let_def udiv_def split_fits_def search_claims_def not_le)
qed

text \<open>With \<open>b\<close> even, \<open>b * (r + 2 ^ 31)\<close> and \<open>b * r\<close> are the same 32-bit product.\<close>

lemma even_product_wraps:
  assumes "even (unat b)"
  shows "b * (r + 0x80000000) = (b * r :: u32)"
proof -
  obtain k where k: "unat b = 2 * k"
    using assms by (elim evenE)
  have "b = 2 * of_nat k"
    using arg_cong [OF k, of "of_nat :: nat \<Rightarrow> u32"] by simp
  then have "b * 0x80000000 = of_nat k * (2 * 0x80000000)"
    by (simp only: ac_simps)
  moreover have "(2 * 0x80000000 :: u32) = 0"
    by simp
  ultimately show ?thesis
    by (simp only: distrib_left mult_zero_right add_0_right)
qed

lemma tseg1_loop_claims:
  assumes hi: "unat (tseg1_max lim) + 1 < 2 ^ 32" and nz: "tq \<noteq> 0" "b * tq \<noteq> 0" and s: "search_claims f s"
  shows "\<exists>s'. u32_for (tseg1_min lim) (tseg1_max lim) (tseg1_body lim f target b tq) s = Some s' \<and>
    search_claims f s' \<and> (bs_found s \<longrightarrow> bs_found s') \<and>
    ((\<exists>t1. tseg1_min lim \<le> t1 \<and> t1 \<le> tseg1_max lim \<and> split_fits lim tq t1) \<longrightarrow> bs_found s')"
proof -
  let ?I = "\<lambda>n s'. search_claims f s' \<and> (bs_found s \<longrightarrow> bs_found s') \<and>
    (\<forall>t1. tseg1_min lim \<le> t1 \<and> split_fits lim tq t1 \<and> unat t1 < n \<longrightarrow> bs_found s')"
  show ?thesis
  proof (rule u32_for_rule [where I = ?I])
    show "unat (tseg1_max lim) + 1 < 2 ^ 32"
      by (rule hi)
    show "?I (unat (tseg1_min lim)) s"
      using s by (auto simp: word_le_nat_alt)
  next
    fix n s' assume "?I n s'" and "unat (tseg1_max lim) < n"
    then show "search_claims f s' \<and> (bs_found s \<longrightarrow> bs_found s') \<and>
        ((\<exists>t1. tseg1_min lim \<le> t1 \<and> t1 \<le> tseg1_max lim \<and> split_fits lim tq t1) \<longrightarrow> bs_found s')"
      by (meson le_less_trans word_le_nat_alt)
  next
    fix i s' assume i: "tseg1_min lim \<le> i" "i \<le> tseg1_max lim" and inv: "?I (unat i) s'"
    obtain s'' brk where b: "tseg1_body lim f target b tq i s' = Some (s'', brk)" "search_claims f s''"
      and keep: "bs_found s' \<Longrightarrow> bs_found s''" and brk: "brk \<Longrightarrow> tq \<le> 1 + i"
      and fit: "split_fits lim tq i \<Longrightarrow> bs_found s''"
      using split_body_claims [OF nz conjunct1 [OF inv], of lim target i] by blast
    have upto: "bs_found s''" if "tseg1_min lim \<le> t1" "split_fits lim tq t1" "unat t1 < unat i + 1" for t1
    proof (cases "t1 = i")
      case False
      then have "unat t1 < unat i"
        using that(3) by (simp add: less_Suc_eq word_unat_eq_iff)
      then show ?thesis
        using inv that keep by blast
    qed (use that fit in simp)
    have suc: "unat (1 + t) = 1 + unat t" if "t \<le> tseg1_max lim" for t
      using hi that unat_one_plus [of t] unfolding word_le_nat_alt by simp
    have beyond: "bs_found s''" if "brk" "tseg1_min lim \<le> t1" "t1 \<le> tseg1_max lim" "split_fits lim tq t1" for t1
      using upto [OF that(2,4)] brk [OF that(1)] that(4) i(2) suc [OF i(2)] suc [OF that(3)]
      by (simp add: split_fits_def word_le_nat_alt word_less_nat_alt)
    show "\<exists>s'' brk. tseg1_body lim f target b tq i s' = Some (s'', brk) \<and>
        (if brk then search_claims f s'' \<and> (bs_found s \<longrightarrow> bs_found s'') \<and>
           ((\<exists>t1. tseg1_min lim \<le> t1 \<and> t1 \<le> tseg1_max lim \<and> split_fits lim tq t1) \<longrightarrow> bs_found s'')
         else ?I (unat i + 1) s'')"
      using b inv keep upto beyond by (intro exI [of _ s''] exI [of _ brk]) auto
  qed
qed

text \<open>No timing of fewer than one quantum or with a zero prescaler is looked at, and the reported
  rate is computed from a product that fits.\<close>

definition btl_bounds :: "can_btl_limits \<Rightarrow> bool" where
  "btl_bounds lim \<longleftrightarrow> unat (brp_max lim) + 1 < 2 ^ 32 \<and> unat (tseg1_max lim) + 1 < 2 ^ 32 \<and>
     0 < unat (brp_min lim) \<and> 0 < unat (tq_min lim) \<and> unat (brp_max lim) * unat (tq_max lim) < 2 ^ 32"

lemma btl_bounds_product:
  assumes "btl_bounds lim" and "brp_min lim \<le> b" "b \<le> brp_max lim" and "tq_min lim \<le> tq" "tq \<le> tq_max lim"
  shows "tq \<noteq> 0" and "b * tq \<noteq> 0"
proof -
  have pos: "0 < unat b" "0 < unat tq"
    using assms by (auto simp: btl_bounds_def word_le_nat_alt)
  then show "tq \<noteq> 0"
    by auto
  have "unat b * unat tq \<le> unat (brp_max lim) * unat (tq_max lim)"
    using assms by (intro mult_le_mono) (simp_all add: word_le_nat_alt)
  also have "\<dots> < 2 ^ 32"
    using assms(1) by (simp add: btl_bounds_def)
  finally have "unat (b * tq) = unat b * unat tq"
    by (intro unat_mult_lt) simp
  then show "b * tq \<noteq> 0"
    using pos by (metis mult_is_0 not_less0 unat_0)
qed

text \<open>One prescaler: what is found stays found, and a prescaler that solves the wrapped equation
  with a split within the limits makes the search report success.\<close>

lemma brp_body_claims:
  assumes bd: "btl_bounds lim" and b: "brp_min lim \<le> b" "b \<le> brp_max lim" and s: "search_claims f s"
  shows "\<exists>s'. brp_body lim f r target b s = Some (s', False) \<and> search_claims f s' \<and>
    (bs_found s \<longrightarrow> bs_found s') \<and>
    (b * r \<noteq> 0 \<and> f mod (b * r) = 0 \<and> tq_min lim \<le> f div (b * r) \<and> f div (b * r) \<le> tq_max lim \<and>
      (\<exists>t1. tseg1_min lim \<le> t1 \<and> t1 \<le> tseg1_max lim \<and> split_fits lim (f div (b * r)) t1) \<longrightarrow> bs_found s')"
proof (cases "b * r = 0 \<or> f mod (b * r) \<noteq> 0 \<or> f div (b * r) < tq_min lim \<or> f div (b * r) > tq_max lim")
  case True
  then show ?thesis
    using s by (auto simp: brp_body_def Let_def udiv_def)
next
  case False
  then have q: "tq_min lim \<le> f div (b * r)" "f div (b * r) \<le> tq_max lim"
    by auto
  have "unat (tseg1_max lim) + 1 < 2 ^ 32"
    using bd by (simp add: btl_bounds_def)
  from tseg1_loop_claims [OF this btl_bounds_product [OF bd b q] s, of target] show ?thesis
    using False by (auto simp: brp_body_def Let_def udiv_def)
qed

lemma brp_loop_claims:
  assumes bd: "btl_bounds lim" and b: "brp_min lim \<le> b" "b \<le> brp_max lim"
    and sol: "b * r \<noteq> 0" "f mod (b * r) = 0" "tq_min lim \<le> f div (b * r)" "f div (b * r) \<le> tq_max lim"
      "tseg1_min lim \<le> t1" "t1 \<le> tseg1_max lim" "split_fits lim (f div (b * r)) t1"
    and s: "search_claims f s"
  shows "\<exists>s'. u32_for (brp_min lim) (brp_max lim) (brp_body lim f r target) s = Some s' \<and>
    search_claims f s' \<and> bs_found s'"
proof (rule u32_for_rule [where I = "\<lambda>n s'. search_claims f s' \<and> (unat b < n \<longrightarrow> bs_found s')"])
  show "unat (brp_max lim) + 1 < 2 ^ 32"
    using bd by (simp add: btl_bounds_def)
  show "search_claims f s \<and> (unat b < unat (brp_min lim) \<longrightarrow> bs_found s)"
    using s b(1) by (simp add: word_le_nat_alt)
next
  fix n s' assume "search_claims f s' \<and> (unat b < n \<longrightarrow> bs_found s')" and "unat (brp_max lim) < n"
  then show "search_claims f s' \<and> bs_found s'"
    using b(2) by (simp add: word_le_nat_alt)
next
  fix i s' assume i: "brp_min lim \<le> i" "i \<le> brp_max lim"
    and inv: "search_claims f s' \<and> (unat b < unat i \<longrightarrow> bs_found s')"
  obtain s'' where step: "brp_body lim f r target i s' = Some (s'', False)" "search_claims f s''"
      "bs_found s' \<longrightarrow> bs_found s''" and hit: "i * r \<noteq> 0 \<and> f mod (i * r) = 0 \<and> tq_min lim \<le> f div (i * r) \<and>
        f div (i * r) \<le> tq_max lim \<and> (\<exists>t1. tseg1_min lim \<le> t1 \<and> t1 \<le> tseg1_max lim \<and>
        split_fits lim (f div (i * r)) t1) \<longrightarrow> bs_found s''"
    using brp_body_claims [OF bd i conjunct1 [OF inv], of r target] by (elim exE conjE)
  have "i = b \<longrightarrow> bs_found s''"
    by (intro impI hit [THEN mp]) (use sol in blast)
  have "unat b < unat i + 1 \<longrightarrow> bs_found s''"
    using \<open>i = b \<longrightarrow> bs_found s''\<close> step(3) inv by (auto simp: less_Suc_eq word_unat_eq_iff)
  then show "\<exists>s'' brk. brp_body lim f r target i s' = Some (s'', brk) \<and>
      (if brk then search_claims f s'' \<and> bs_found s''
       else search_claims f s'' \<and> (unat b < unat i + 1 \<longrightarrow> bs_found s''))"
    using step(1,2) by (intro exI [of _ s''] exI [of _ False]) simp
qed

text \<open>An exact candidate as the solver sees it, in words.\<close>

lemma bt_valid_words:
  assumes v: "bt_valid lim (unat f) (unat r) (b, t1, t2)" and f: "f \<noteq> 0"
    and bd: "btl_bounds lim"
  defines "B \<equiv> of_nat b :: u32" and "T \<equiv> of_nat t1 :: u32"
  shows "unat B = b" "brp_min lim \<le> B" "B \<le> brp_max lim" "tseg1_min lim \<le> T" "T \<le> tseg1_max lim"
    "B * r \<noteq> 0" "f mod (B * r) = 0" "unat (f div (B * r)) = 1 + t1 + t2"
    "split_fits lim (f div (B * r)) T" "unat r \<le> unat f"
proof -
  have eq: "b * (1 + t1 + t2) * unat r = unat f"
    using v by (simp add: bt_valid_def bt_total_def)
  have ub: "b \<le> unat (brp_max lim)" "t1 \<le> unat (tseg1_max lim)" "1 + t1 + t2 \<le> unat (tq_max lim)"
    using v by (simp_all add: bt_valid_def bt_total_def)
  have m: "unat w < 2 ^ 32" for w :: u32
    using unsigned_less [of w] by simp
  have lt: "b < 2 ^ 32" "t1 < 2 ^ 32" "1 + t1 + t2 < 2 ^ 32"
    using ub m [of "tq_max lim"] m [of "brp_max lim"] m [of "tseg1_max lim"] by linarith+
  show uB: "unat B = b"
    using lt by (simp add: B_def unsigned_of_nat take_bit_nat_eq_self)
  have uT: "unat T = t1"
    using lt by (simp add: T_def unsigned_of_nat take_bit_nat_eq_self)
  show "brp_min lim \<le> B" "B \<le> brp_max lim" "tseg1_min lim \<le> T" "T \<le> tseg1_max lim"
    using v by (simp_all add: word_le_nat_alt uB uT bt_valid_def)
  have fpos: "0 < unat f"
    using f by (simp add: unat_gt_0)
  then have pos: "0 < b" "0 < unat r"
    using eq by (metis mult_0 gr0I, metis mult_0_right gr0I)
  have "b * unat r \<le> b * unat r * (1 + t1 + t2)"
    by simp
  then have le: "b * unat r \<le> unat f"
    using eq by (simp only: ac_simps)
  then have uBr: "unat (B * r) = b * unat r"
    using m [of f] by (subst unat_mult_lt) (simp_all add: uB)
  show "B * r \<noteq> 0"
    using uBr pos by (metis mult_is_0 not_less0 unat_0)
  have f_eq: "unat f = (b * unat r) * (1 + t1 + t2)"
    using eq by (simp only: ac_simps)
  show q: "unat (f div (B * r)) = 1 + t1 + t2"
    using pos by (simp add: unat_div uBr f_eq del: mult_Suc_right)
  have "unat (f mod (B * r)) = 0"
    by (simp add: unat_mod uBr f_eq del: mult_Suc_right)
  then show "f mod (B * r) = 0"
    by (simp only: unat_eq_zero)
  have suc: "unat (1 + T) = 1 + t1"
    using lt uT unat_one_plus [of T] by simp
  have t2: "unat (f div (B * r) - 1 - T) = t2"
    using suc q unat_minus_le [of "1 + T" "f div (B * r)"] by (simp add: diff_diff_eq word_le_nat_alt)
  show "split_fits lim (f div (B * r)) T"
    using v suc q t2 by (simp add: split_fits_def word_le_nat_alt word_less_nat_alt bt_valid_def)
  show "unat r \<le> unat f"
    using le pos(1) by (metis le_trans mult_le_mono1 nat_mult_1 Suc_leI One_nat_def)
qed



lemma bus_length_eq:
  assumes "f \<noteq> 0" and "brp t \<noteq> 0" and "\<not> tseg1 t < 2"
  shows "can_max_bus_length_m (Some t) f d =
    Some (let budget = ucast (tseg1 t - 1) * (ucast (brp t) * 1000000000 div ucast f) div (2 :: u64)
      in if budget \<le> ucast d then 0 else ucast ((budget - ucast d) div 5))"
  using assms by (simp add: can_max_bus_length_m_def udiv_def Let_def)

text \<open>Rounding down at every step keeps the result below the exact quotient.\<close>

lemma bus_budget:
  fixes a tq d :: u64 and L :: u32
  assumes "\<not> a * tq div 2 \<le> d" and "L = ucast ((a * tq div 2 - d) div 5)"
  shows "2 * (5 * unat L + unat d) \<le> unat a * unat tq"
proof -
  let ?budget = "a * tq div 2"
  have "unat L \<le> unat ((?budget - d) div 5)"
    unfolding assms(2) by (rule unat_ucast_le)
  also have "\<dots> = (unat ?budget - unat d) div 5"
    using assms(1) by (simp add: unat_div unat_minus_le)
  finally have "5 * unat L + unat d \<le> unat ?budget"
    using assms(1) by (simp add: word_le_nat_alt)
  then have "2 * (5 * unat L + unat d) \<le> 2 * unat ?budget"
    by (rule mult_le_mono2)
  also have "\<dots> \<le> unat (a * tq)"
    by (simp add: unat_div)
  also have "\<dots> \<le> unat a * unat tq"
    by (rule unat_mult_le)
  finally show ?thesis .
qed

lemma tq_nanoseconds: "unat (ucast b * 1000000000 div ucast f :: u64) * unat f \<le> unat b * 1000000000" for b f :: u32
proof -
  have "unat (ucast b * 1000000000 div ucast f :: u64) * unat f \<le> unat (ucast b * 1000000000 :: u64)"
    by (simp add: unat_div unat_widen div_times_less_eq_dividend)
  also have "\<dots> \<le> unat b * 1000000000"
    using unat_mult_le [of "ucast b :: u64" 1000000000] by (simp add: unat_widen)
  finally show ?thesis .
qed

text \<open>C25. The bus length never exceeds the budget of the timing, for any timing record and clock:
  twice the propagation over the returned length plus the transceiver delay, in units of
  \<open>1/f\<close> seconds, fits in TSEG1 less one quantum. Wrap-around and truncation only shorten it.\<close>

theorem bus_length_never_overpromises:
  "\<exists>L. can_max_bus_length_m t f d = Some L \<and>
     (L = 0 \<or> (case t of None \<Rightarrow> False | Some u \<Rightarrow>
       2 * (5 * unat L + unat d) * unat f \<le> (unat (tseg1 u) - 1) * (unat (brp u) * 1000000000)))"
proof -
  consider "t = None \<or> f = 0 \<or> (\<exists>u. t = Some u \<and> (brp u = 0 \<or> tseg1 u < 2))"
    | u where "t = Some u" "f \<noteq> 0" "brp u \<noteq> 0" "\<not> tseg1 u < 2"
    by (cases t) auto
  then show ?thesis
  proof cases
    case 1
    then show ?thesis
      by (auto simp: can_max_bus_length_m_def udiv_def Let_def split: option.splits)
  next
    case (2 u)
    let ?a = "ucast (tseg1 u - 1) :: u64"
    let ?tq = "ucast (brp u) * 1000000000 div ucast f :: u64"
    let ?L = "ucast ((?a * ?tq div 2 - ucast d) div 5) :: u32"
    have "2 * (5 * unat ?L + unat d) * unat f \<le> (unat (tseg1 u) - 1) * (unat (brp u) * 1000000000)"
      if over: "\<not> ?a * ?tq div 2 \<le> ucast d"
    proof -
      have "2 * (5 * unat ?L + unat d) * unat f \<le> unat ?a * unat ?tq * unat f"
        using bus_budget [OF over refl] by (intro mult_le_mono1) (simp add: unat_widen)
      also have "\<dots> \<le> unat ?a * (unat (brp u) * 1000000000)"
        unfolding mult.assoc by (intro mult_le_mono2 tq_nanoseconds)
      also have "unat ?a = unat (tseg1 u) - 1"
        using 2 by (simp add: unat_widen unat_minus_le word_le_nat_alt word_less_nat_alt)
      finally show ?thesis .
    qed
    then show ?thesis
      using 2 by (cases "?a * ?tq div 2 \<le> ucast d") (simp_all add: bus_length_eq Let_def)
  qed
qed
end
