(* ===== verification/Isotp.thy ===== *)
theory Isotp
  imports Prelude Transitions
begin

text \<open>
  The receive half of the ISO 15765-2 transport of \<open>src/code/portable/can/isotp.c\<close>:
  reassembly of single, first and consecutive frames, flow-control frames and the error
  counters. The cases of the switch in \<open>isotp_rx_frame\<close> are the functions \<open>rx_single\<close>,
  \<open>rx_first\<close> and \<open>rx_consecutive\<close>. A frame is the byte array passed in (\<open>None\<close> for a null
  pointer) and its DLC. The specification \<open>spec_rx\<close> works on classified PDUs and on the list
  of bytes collected so far, and \<open>rx_rel\<close> relates a receiver to it.
\<close>

section \<open>Constants, states and events\<close>

definition ISOTP_MAX_PAYLOAD :: u16 where "ISOTP_MAX_PAYLOAD = 4095"
definition ISOTP_CAN_DLC :: u8 where "ISOTP_CAN_DLC = 8"
definition ISOTP_PCI_SF :: u8 where "ISOTP_PCI_SF = 0"
definition ISOTP_PCI_FF :: u8 where "ISOTP_PCI_FF = 1"
definition ISOTP_PCI_CF :: u8 where "ISOTP_PCI_CF = 2"
definition ISOTP_PCI_FC :: u8 where "ISOTP_PCI_FC = 3"
definition ISOTP_FS_CTS :: u8 where "ISOTP_FS_CTS = 0"
definition ISOTP_FS_WAIT :: u8 where "ISOTP_FS_WAIT = 1"
definition ISOTP_FS_OVFLW :: u8 where "ISOTP_FS_OVFLW = 2"

lemmas isotp_consts = ISOTP_MAX_PAYLOAD_def ISOTP_CAN_DLC_def ISOTP_PCI_SF_def ISOTP_PCI_FF_def
  ISOTP_PCI_CF_def ISOTP_PCI_FC_def ISOTP_FS_CTS_def ISOTP_FS_WAIT_def ISOTP_FS_OVFLW_def

datatype isotp_rx_state = RX_IDLE | RX_WAIT_CF | RX_COUNT

datatype isotp_event = EV_NONE | EV_MESSAGE | EV_SEND_FC | EV_ERR_SEQUENCE | EV_ERR_OVERFLOW |
  EV_ERR_LENGTH | EV_ERR_UNEXPECTED

record isotp_rx =
  rx_state :: isotp_rx_state
  rx_buf :: "u8 list"
  rx_total_len :: u16
  rx_received :: u16
  rx_next_sn :: u8
  cf_since_fc :: u16
  buffer_limit :: u16
  rx_block_size :: u8
  rx_st_min :: u8
  fc_frame :: "u8 list"
  messages_ok :: u32
  err_sequence :: u32
  err_overflow :: u32
  err_length :: u32
  err_unexpected :: u32

definition isotp_rx_init :: "u16 \<Rightarrow> u8 \<Rightarrow> u8 \<Rightarrow> isotp_rx" where
  "isotp_rx_init limit bs st =
     \<lparr> rx_state = RX_IDLE, rx_buf = replicate 4095 0, rx_total_len = 0, rx_received = 0,
       rx_next_sn = 0, cf_since_fc = 0,
       buffer_limit = (if limit > ISOTP_MAX_PAYLOAD then ISOTP_MAX_PAYLOAD else limit),
       rx_block_size = bs, rx_st_min = st, fc_frame = replicate 8 0,
       messages_ok = 0, err_sequence = 0, err_overflow = 0, err_length = 0, err_unexpected = 0 \<rparr>"

section \<open>Receive\<close>

text \<open>The padding loop of \<open>build_fc\<close>.\<close>

function fc_pad :: "nat \<Rightarrow> u8 list \<Rightarrow> u8 list option" where
  "fc_pad i fc =
     (if i < unat ISOTP_CAN_DLC then do { fc \<leftarrow> arr_set fc i 0xCC; fc_pad (i + 1) fc } else Some fc)"
  by auto
termination by (relation "measure (\<lambda>(i, fc). unat ISOTP_CAN_DLC - i)") auto

definition build_fc :: "isotp_rx \<Rightarrow> u8 \<Rightarrow> isotp_rx option" where
  "build_fc rx flow_status = do {
     fc \<leftarrow> arr_set (fc_frame rx) 0 (push_bit 4 ISOTP_PCI_FC OR (flow_status AND 0x0F));
     fc \<leftarrow> arr_set fc 1 (rx_block_size rx);
     fc \<leftarrow> arr_set fc 2 (rx_st_min rx);
     fc \<leftarrow> fc_pad 3 fc;
     Some (rx\<lparr> fc_frame := fc \<rparr>)
   }"

definition rx_abort :: "isotp_rx \<Rightarrow> isotp_rx" where
  "rx_abort rx = rx\<lparr> rx_state := RX_IDLE, rx_total_len := 0, rx_received := 0, rx_next_sn := 0,
     cf_since_fc := 0 \<rparr>"

text \<open>The two error counters that several branches increment.\<close>

definition bump_length :: "isotp_rx \<Rightarrow> isotp_rx" where
  "bump_length rx = rx\<lparr> err_length := err_length rx + 1 \<rparr>"

definition bump_overflow :: "isotp_rx \<Rightarrow> isotp_rx" where
  "bump_overflow rx = rx\<lparr> err_overflow := err_overflow rx + 1 \<rparr>"

text \<open>The cases of the switch on the PCI nibble; \<open>d0\<close> is \<open>data[0]\<close>.\<close>

definition rx_single :: "isotp_rx \<Rightarrow> u8 list \<Rightarrow> u8 \<Rightarrow> u8 \<Rightarrow> (isotp_rx \<times> isotp_event) option" where
  "rx_single rx data d0 dlc =
     (let len = d0 AND 0x0F in
      if len = 0 \<or> len > 7 \<or> (ucast len + 1 :: u32) > ucast dlc
      then Some (rx_abort (bump_length rx), EV_ERR_LENGTH)
      else if (ucast len :: u16) > buffer_limit rx
      then Some (rx_abort (bump_overflow rx), EV_ERR_OVERFLOW)
      else do {
        buf \<leftarrow> mem_copy (rx_buf rx) 0 data 1 (unat len);
        Some (rx\<lparr> rx_buf := buf, rx_total_len := ucast len, rx_received := ucast len,
                 rx_state := RX_IDLE, messages_ok := messages_ok rx + 1 \<rparr>, EV_MESSAGE)
      })"

definition rx_first :: "isotp_rx \<Rightarrow> u8 list \<Rightarrow> u8 \<Rightarrow> u8 \<Rightarrow> (isotp_rx \<times> isotp_event) option" where
  "rx_first rx data d0 dlc =
     (if dlc < ISOTP_CAN_DLC then Some (rx_abort (bump_length rx), EV_ERR_LENGTH)
      else do {
        d1 \<leftarrow> arr_get data 1;
        let len = push_bit 8 (ucast (d0 AND 0x0F)) OR ucast d1;
        if len < 8 then Some (rx_abort (bump_length rx), EV_ERR_LENGTH)
        else if len > buffer_limit rx then do {
          rx \<leftarrow> build_fc (bump_overflow rx) ISOTP_FS_OVFLW;
          Some (rx_abort rx, EV_ERR_OVERFLOW)
        } else do {
          buf \<leftarrow> mem_copy (rx_buf rx) 0 data 2 6;
          rx \<leftarrow> build_fc (rx\<lparr> rx_buf := buf, rx_total_len := len, rx_received := 6,
                             rx_next_sn := 1, cf_since_fc := 0, rx_state := RX_WAIT_CF \<rparr>)
                   ISOTP_FS_CTS;
          Some (rx, EV_SEND_FC)
        }
      })"

definition rx_consecutive :: "isotp_rx \<Rightarrow> u8 list \<Rightarrow> u8 \<Rightarrow> u8 \<Rightarrow> (isotp_rx \<times> isotp_event) option" where
  "rx_consecutive rx data d0 dlc =
     (if rx_state rx \<noteq> RX_WAIT_CF
      then Some (rx\<lparr> err_unexpected := err_unexpected rx + 1 \<rparr>, EV_ERR_UNEXPECTED)
      else let sn = d0 AND 0x0F in
      if sn \<noteq> rx_next_sn rx
      then Some (rx_abort (rx\<lparr> err_sequence := err_sequence rx + 1 \<rparr>), EV_ERR_SEQUENCE)
      else let remaining = rx_total_len rx - rx_received rx;
               avail = ucast dlc - 1;
               n = (if remaining < avail then remaining else avail)
      in do {
        buf \<leftarrow> mem_copy (rx_buf rx) (unat (rx_received rx)) data 1 (unat n);
        let rx = rx\<lparr> rx_buf := buf, rx_received := rx_received rx + n,
                    rx_next_sn := (rx_next_sn rx + 1) AND 0x0F,
                    cf_since_fc := cf_since_fc rx + 1 \<rparr>;
        if rx_received rx \<ge> rx_total_len rx
        then Some (rx\<lparr> rx_state := RX_IDLE, messages_ok := messages_ok rx + 1 \<rparr>, EV_MESSAGE)
        else if rx_block_size rx \<noteq> 0 \<and> cf_since_fc rx \<ge> ucast (rx_block_size rx)
        then do {
          rx \<leftarrow> build_fc (rx\<lparr> cf_since_fc := 0 \<rparr>) ISOTP_FS_CTS;
          Some (rx, EV_SEND_FC)
        }
        else Some (rx, EV_NONE)
      })"

definition isotp_rx_frame ::
    "isotp_rx \<Rightarrow> u8 list option \<Rightarrow> u8 \<Rightarrow> (isotp_rx \<times> isotp_event) option" where
  "isotp_rx_frame rx data dlc =
     (if data = None \<or> dlc = 0 \<or> dlc > ISOTP_CAN_DLC then Some (bump_length rx, EV_ERR_LENGTH)
      else do {
        data \<leftarrow> data;
        d0 \<leftarrow> arr_get data 0;
        let pci = drop_bit 4 d0;
        if pci = ISOTP_PCI_SF then rx_single rx data d0 dlc
        else if pci = ISOTP_PCI_FF then rx_first rx data d0 dlc
        else if pci = ISOTP_PCI_CF then rx_consecutive rx data d0 dlc
        else if pci = ISOTP_PCI_FC then Some (rx, EV_NONE)
        else Some (bump_length rx, EV_ERR_LENGTH)
      })"

fun isotp_event_name :: "isotp_event \<Rightarrow> string" where
  "isotp_event_name EV_NONE = ''-''"
| "isotp_event_name EV_MESSAGE = ''MESSAGE''"
| "isotp_event_name EV_SEND_FC = ''SEND_FC''"
| "isotp_event_name EV_ERR_SEQUENCE = ''ERR_SEQUENCE''"
| "isotp_event_name EV_ERR_OVERFLOW = ''ERR_OVERFLOW''"
| "isotp_event_name EV_ERR_LENGTH = ''ERR_LENGTH''"
| "isotp_event_name EV_ERR_UNEXPECTED = ''ERR_UNEXPECTED''"

section \<open>Flow-control frames\<close>

declare fc_pad.simps [simp del]

lemma length_8_cases:
  assumes "length xs = 8"
  obtains a b c d e f g h where "xs = [a, b, c, d, e, f, g, h]"
  using assms by (auto simp: numeral_eq_Suc length_Suc_conv)

definition fc_bytes :: "u8 \<Rightarrow> u8 \<Rightarrow> u8 \<Rightarrow> u8 list" where
  "fc_bytes fs bs st = [0x30 OR fs, bs, st, 0xCC, 0xCC, 0xCC, 0xCC, 0xCC]"

lemma build_fc_eval:
  assumes "length (fc_frame rx) = 8"
  shows "build_fc rx fs = Some (rx\<lparr> fc_frame := fc_bytes (fs AND 0x0F) (rx_block_size rx) (rx_st_min rx) \<rparr>)"
  using assms by (rule length_8_cases)
    (simp add: build_fc_def fc_pad.simps isotp_consts arr_set_def fc_bytes_def)

section \<open>The specification\<close>

text \<open>What a frame says: \<open>Malformed\<close> frames abort a reception, \<open>Rejected\<close> ones do not.\<close>

datatype isotp_pdu = SF "u8 list" | FF nat "u8 list" | CF u8 "u8 list" | FC | Malformed | Rejected

definition pdu_of :: "u8 list option \<Rightarrow> u8 \<Rightarrow> isotp_pdu" where
  "pdu_of data dlc =
     (case data of
        None \<Rightarrow> Rejected
      | Some d \<Rightarrow>
          let k = unat dlc; lo = d ! 0 AND 0x0F; n = 256 * unat lo + unat (d ! 1)
          in if k = 0 \<or> 8 < k then Rejected
             else if drop_bit 4 (d ! 0) = 0 then
               (if lo = 0 \<or> 7 < unat lo \<or> k \<le> unat lo then Malformed else SF (take (unat lo) (tl d)))
             else if drop_bit 4 (d ! 0) = 1 then
               (if k < 8 \<or> n < 8 then Malformed else FF n (take 6 (drop 2 d)))
             else if drop_bit 4 (d ! 0) = 2 then CF lo (take (k - 1) (tl d))
             else if drop_bit 4 (d ! 0) = 3 then FC else Rejected)"

text \<open>\<open>Collect n xs k c\<close>: \<open>xs\<close> of \<open>n\<close> bytes have arrived, the next sequence number is \<open>k\<close>, and
  \<open>c\<close> consecutive frames came since the last flow control.\<close>

datatype reassembly = Idle | Collect nat "u8 list" u8 nat

fun spec_rx :: "nat \<Rightarrow> nat \<Rightarrow> reassembly \<Rightarrow> isotp_pdu \<Rightarrow> reassembly \<times> isotp_event \<times> u8 list option" where
  "spec_rx limit bs s Rejected = (s, EV_ERR_LENGTH, None)"
| "spec_rx limit bs s Malformed = (Idle, EV_ERR_LENGTH, None)"
| "spec_rx limit bs s FC = (s, EV_NONE, None)"
| "spec_rx limit bs s (SF p) =
     (if length p \<le> limit then (Idle, EV_MESSAGE, Some p) else (Idle, EV_ERR_OVERFLOW, None))"
| "spec_rx limit bs s (FF n p) =
     (if n \<le> limit then (Collect n p 1 0, EV_SEND_FC, None) else (Idle, EV_ERR_OVERFLOW, None))"
| "spec_rx limit bs Idle (CF sn p) = (Idle, EV_ERR_UNEXPECTED, None)"
| "spec_rx limit bs (Collect n xs k c) (CF sn p) =
     (let xs' = xs @ take (n - length xs) p; k' = (k + 1) AND 0x0F in
      if sn \<noteq> k then (Idle, EV_ERR_SEQUENCE, None)
      else if length xs' = n then (Idle, EV_MESSAGE, Some xs')
      else if bs \<noteq> 0 \<and> bs \<le> c + 1 then (Collect n xs' k' 0, EV_SEND_FC, None)
      else (Collect n xs' k' (c + 1), EV_NONE, None))"

fun rx_holds :: "isotp_rx \<Rightarrow> reassembly \<Rightarrow> bool" where
  "rx_holds rx Idle \<longleftrightarrow> rx_state rx = RX_IDLE"
| "rx_holds rx (Collect n xs k c) \<longleftrightarrow> rx_state rx = RX_WAIT_CF \<and> unat (rx_total_len rx) = n \<and>
     unat (rx_received rx) = length xs \<and> take (length xs) (rx_buf rx) = xs \<and> rx_next_sn rx = k \<and>
     length xs < n \<and> n \<le> unat (buffer_limit rx) \<and>
     (rx_block_size rx \<noteq> 0 \<longrightarrow> unat (cf_since_fc rx) = c \<and> c < unat (rx_block_size rx))"

definition rx_rel :: "isotp_rx \<Rightarrow> reassembly \<Rightarrow> bool" where
  "rx_rel rx s \<longleftrightarrow> length (rx_buf rx) = 4095 \<and> length (fc_frame rx) = 8 \<and>
     buffer_limit rx \<le> 4095 \<and> rx_holds rx s"

text \<open>The array passed in has the bytes its DLC promises.\<close>

definition can_frame_ok :: "u8 list option \<Rightarrow> u8 \<Rightarrow> bool" where
  "can_frame_ok data dlc = (case data of None \<Rightarrow> True | Some d \<Rightarrow> dlc \<le> 8 \<longrightarrow> unat dlc \<le> length d)"

definition same_policy :: "isotp_rx \<Rightarrow> isotp_rx \<Rightarrow> bool" where
  "same_policy rx rx' \<longleftrightarrow> buffer_limit rx' = buffer_limit rx \<and> rx_block_size rx' = rx_block_size rx \<and>
     rx_st_min rx' = rx_st_min rx"

text \<open>Each event increments the counter of its kind and no other.\<close>

definition rx_counts :: "isotp_rx \<Rightarrow> isotp_rx \<Rightarrow> isotp_event \<Rightarrow> bool" where
  "rx_counts rx rx' ev \<longleftrightarrow>
     messages_ok rx' = messages_ok rx + of_bool (ev = EV_MESSAGE) \<and>
     err_sequence rx' = err_sequence rx + of_bool (ev = EV_ERR_SEQUENCE) \<and>
     err_overflow rx' = err_overflow rx + of_bool (ev = EV_ERR_OVERFLOW) \<and>
     err_length rx' = err_length rx + of_bool (ev = EV_ERR_LENGTH) \<and>
     err_unexpected rx' = err_unexpected rx + of_bool (ev = EV_ERR_UNEXPECTED)"

text \<open>The result \<open>r\<close> of a step on \<open>rx\<close> is the one the specification gives.\<close>

definition rx_answers :: "isotp_rx \<Rightarrow> (isotp_rx \<times> isotp_event) option \<Rightarrow>
    reassembly \<times> isotp_event \<times> u8 list option \<Rightarrow> bool" where
  "rx_answers rx r a \<longleftrightarrow> (\<exists>rx'. r = Some (rx', fst (snd a)) \<and> rx_rel rx' (fst a) \<and> same_policy rx rx' \<and>
     rx_counts rx rx' (fst (snd a)) \<and>
     drop (unat (buffer_limit rx)) (rx_buf rx') = drop (unat (buffer_limit rx)) (rx_buf rx) \<and>
     (snd (snd a) = (if fst (snd a) = EV_MESSAGE then Some (take (unat (rx_received rx')) (rx_buf rx')) else None)) \<and>
     (fst (snd a) = EV_SEND_FC \<longrightarrow> fc_frame rx' = fc_bytes 0 (rx_block_size rx) (rx_st_min rx)))"

section \<open>Refinement\<close>

lemma u8_nibble: "unat (x AND 0x0F) < 16" for x :: u8
  using word_and_le1 [of x "0x0F"] by (simp add: word_le_nat_alt)

lemma unat_len: "unat (ucast x :: u16) = unat x" "unat (ucast x :: u32) = unat x" for x :: u8
  using unsigned_less [of x, where ?'a = nat] by (simp_all add: unsigned_ucast_eq take_bit_nat_eq_self)

lemma rx_single_refines:
  assumes "rx_rel rx s" and "dlc \<noteq> 0" "dlc \<le> 8" and "unat dlc \<le> length d" and "drop_bit 4 (d ! 0) = 0"
  shows "rx_answers rx (rx_single rx d (d ! 0) dlc) (spec_rx (unat (buffer_limit rx)) bs s (pdu_of (Some d) dlc))"
proof -
  let ?n = "d ! 0 AND 0x0F"
  have k: "unat dlc \<noteq> 0" "unat dlc \<le> 8"
    using assms(2,3) by (simp_all add: unat_eq_zero word_le_nat_alt)
  have n1: "unat (ucast ?n + 1 :: u32) = unat ?n + 1"
    using u8_nibble [of "d ! 0"] by (subst unat_Suc_lt) (simp_all add: unat_len)
  have bad: "?n = 0 \<or> ?n > 7 \<or> (ucast ?n + 1 :: u32) > ucast dlc \<longleftrightarrow>
      ?n = 0 \<or> 7 < unat ?n \<or> unat dlc \<le> unat ?n"
    by (simp add: word_less_nat_alt n1 unat_len less_Suc_eq_le)
  show ?thesis
  proof (cases "?n = 0 \<or> 7 < unat ?n \<or> unat dlc \<le> unat ?n")
    case True
    then have "pdu_of (Some d) dlc = Malformed"
      using k assms(5) by (simp add: pdu_of_def Let_def)
    then show ?thesis
      using assms(1) bad [THEN iffD2, OF True]
      by (auto simp: rx_single_def Let_def rx_answers_def rx_counts_def rx_rel_def same_policy_def rx_abort_def bump_length_def)
  next
    case False
    then have p: "pdu_of (Some d) dlc = SF (take (unat ?n) (tl d))"
      using k assms(5) by (simp add: pdu_of_def Let_def)
    have b: "\<not> (?n = 0 \<or> ?n > 7 \<or> (ucast ?n + 1 :: u32) > ucast dlc)"
      using False bad by blast
    have l: "length (take (unat ?n) (tl d)) = unat ?n"
      using False assms(4) by (auto simp: min_def)
    show ?thesis
    proof (cases "unat ?n \<le> unat (buffer_limit rx)")
      case True
      have len: "length (rx_buf rx) = 4095"
        using assms(1) by (simp add: rx_rel_def)
      have "mem_copy (rx_buf rx) 0 d 1 (unat ?n) = Some (take (unat ?n) (tl d) @ drop (unat ?n) (rx_buf rx))"
        using False assms(4) u8_nibble [of "d ! 0"] by (simp add: mem_copy_Some len drop_Suc)
      then show ?thesis
        using b True l assms(1) unfolding rx_single_def Let_def if_not_P [OF b] p
        by (simp add: word_less_nat_alt unat_len rx_answers_def rx_counts_def rx_rel_def same_policy_def)
    next
      case False
      then show ?thesis
        using b l assms(1) unfolding rx_single_def Let_def if_not_P [OF b] p
        by (simp add: word_less_nat_alt unat_len rx_answers_def rx_counts_def rx_rel_def same_policy_def rx_abort_def bump_overflow_def)
    qed
  qed
qed

lemma ff_length: "unat (push_bit 8 (ucast (a AND 0x0F)) OR ucast b :: u16) = 256 * unat (a AND 0x0F) + unat b"
  for a b :: u8
proof -
  have "push_bit 8 (ucast (a AND 0x0F)) OR ucast b = push_bit 8 (ucast (a AND 0x0F)) + (ucast b :: u16)"
    by (rule disjunctive_add [symmetric]) (auto simp: bit_simps dest: bit_imp_le_length)
  moreover have "unat (push_bit 8 (ucast (a AND 0x0F)) :: u16) = 256 * unat (a AND 0x0F)"
    using u8_nibble [of a]
    by (simp add: push_bit_eq_mult unat_mult_lt unat_len)
  ultimately show ?thesis
    using u8_nibble [of a] unsigned_less [of b, where ?'a = nat] by (simp add: unat_add_lt unat_len)
qed

lemma rx_first_refines:
  assumes "rx_rel rx s" and "dlc \<noteq> 0" "dlc \<le> 8" and "unat dlc \<le> length d" and "drop_bit 4 (d ! 0) = 1"
  shows "rx_answers rx (rx_first rx d (d ! 0) dlc) (spec_rx (unat (buffer_limit rx)) bs s (pdu_of (Some d) dlc))"
proof -
  let ?n = "push_bit 8 (ucast (d ! 0 AND 0x0F)) OR ucast (d ! 1) :: u16"
  have k: "unat dlc \<noteq> 0" "unat dlc \<le> 8" "dlc < 8 \<longleftrightarrow> unat dlc < 8"
    using assms(2,3) by (simp_all add: unat_eq_zero word_le_nat_alt word_less_nat_alt)
  have rel: "length (rx_buf rx) = 4095" "length (fc_frame rx) = 8" "buffer_limit rx \<le> 4095"
    using assms(1) by (simp_all add: rx_rel_def)
  consider (short) "unat dlc < 8" | (small) "unat dlc = 8" "unat ?n < 8"
    | (over) "unat dlc = 8" "8 \<le> unat ?n" "unat (buffer_limit rx) < unat ?n"
    | (good) "unat dlc = 8" "8 \<le> unat ?n" "unat ?n \<le> unat (buffer_limit rx)"
    using k by linarith
  then show ?thesis
  proof cases
    case short
    then show ?thesis
      using assms k by (simp add: rx_first_def pdu_of_def Let_def rx_answers_def rx_counts_def rx_rel_def
          same_policy_def rx_abort_def bump_length_def ISOTP_CAN_DLC_def)
  next
    case small
    then have "1 < length d"
      using assms(4) by simp
    then show ?thesis
      using small assms k by (simp add: rx_first_def pdu_of_def Let_def rx_answers_def rx_counts_def rx_rel_def mem
          same_policy_def rx_abort_def bump_length_def ISOTP_CAN_DLC_def ff_length word_less_nat_alt)
  next
    case over
    then have "1 < length d"
      using assms(4) by simp
    then show ?thesis
      using over assms k rel by (simp add: rx_first_def pdu_of_def Let_def rx_answers_def rx_counts_def rx_rel_def mem
          same_policy_def rx_abort_def bump_overflow_def ISOTP_CAN_DLC_def ff_length word_less_nat_alt
          build_fc_eval fc_bytes_def)
  next
    case good
    then have "8 \<le> length d"
      using assms(4) by simp
    then show ?thesis
      using good assms k rel by (simp add: rx_first_def pdu_of_def Let_def rx_answers_def rx_counts_def rx_rel_def mem
          same_policy_def ISOTP_CAN_DLC_def ff_length word_less_nat_alt build_fc_eval fc_bytes_def
          ISOTP_FS_CTS_def unat_gt_0)
  qed
qed

lemma take_length_append: "take (length xs) (xs @ ys) = xs"
  by simp

lemma unat_minus_mod: "b \<le> a \<Longrightarrow> unat (a - b) = unat a - unat b" for a b :: u16
  by (rule unat_minus_le)

text \<open>The end of a consecutive frame, with the bytes collected so far as one variable.\<close>

lemma rx_collect_answers:
  assumes step: "r = (let rx1 = rx\<lparr> rx_buf := X @ Y, rx_received := R, rx_next_sn := (sn + 1) AND 0x0F,
               cf_since_fc := cf_since_fc rx + 1 \<rparr> in
         if length X = n
         then Some (rx1\<lparr> rx_state := RX_IDLE, messages_ok := messages_ok rx + 1 \<rparr>, EV_MESSAGE)
         else if rx_block_size rx \<noteq> 0 \<and> cf_since_fc rx + 1 \<ge> ucast (rx_block_size rx)
         then Some (rx1\<lparr> cf_since_fc := 0, fc_frame := fc_bytes 0 (rx_block_size rx) (rx_st_min rx) \<rparr>, EV_SEND_FC)
         else Some (rx1, EV_NONE))"
    and spec: "a = (if length X = n then (Idle, EV_MESSAGE, Some X)
          else if rx_block_size rx \<noteq> 0 \<and> unat (rx_block_size rx) \<le> c + 1
          then (Collect n X ((sn + 1) AND 0x0F) 0, EV_SEND_FC, None)
          else (Collect n X ((sn + 1) AND 0x0F) (c + 1), EV_NONE, None))"
    and Y: "Y = drop (length X) (rx_buf rx)"
    and X: "unat R = length X" "length (X @ Y) = 4095" "take (length X) (X @ Y) = X" "length X \<le> n"
    and h: "rx_state rx = RX_WAIT_CF" "unat (rx_total_len rx) = n" "unat (rx_received rx) = length xs"
      "take (length xs) (rx_buf rx) = xs" "rx_next_sn rx = sn" "length xs < n"
      "n \<le> unat (buffer_limit rx)"
      "rx_block_size rx \<noteq> 0 \<Longrightarrow> unat (cf_since_fc rx) = c \<and> c < unat (rx_block_size rx)"
    and rel: "length (rx_buf rx) = 4095" "length (fc_frame rx) = 8" "buffer_limit rx \<le> 4095"
    and blk: "rx_block_size rx \<noteq> 0 \<Longrightarrow> unat (cf_since_fc rx + 1) = c + 1"
      "rx_block_size rx \<noteq> 0 \<Longrightarrow>
        cf_since_fc rx + 1 \<ge> ucast (rx_block_size rx) \<longleftrightarrow> unat (rx_block_size rx) \<le> c + 1"
  shows "rx_answers rx r a"
proof -
  consider (full) "length X = n"
    | (fc) "length X < n" "rx_block_size rx \<noteq> 0" "unat (rx_block_size rx) \<le> c + 1"
    | (more) "length X < n" "rx_block_size rx = 0 \<or> c + 1 < unat (rx_block_size rx)"
    using X(4) by linarith
  then show ?thesis
  proof cases
    case full
    then show ?thesis
      using X Y h(7) rel unfolding step spec
      by (simp add: rx_answers_def rx_counts_def rx_rel_def same_policy_def Let_def)
  next
    case fc
    then show ?thesis
      using X Y h(1,2,7) rel blk(2) unfolding step spec
      by (simp add: rx_answers_def rx_counts_def rx_rel_def same_policy_def Let_def fc_bytes_def unat_gt_0)
  next
    case more
    then show ?thesis
      using X Y h(1,2,7) rel blk unfolding step spec
      by (auto simp add: rx_answers_def rx_counts_def rx_rel_def same_policy_def Let_def)
  qed
qed

text \<open>How many bytes a consecutive frame adds, and that they go where the specification puts them.\<close>

definition rx_chunk :: "isotp_rx \<Rightarrow> u8 \<Rightarrow> u16" where
  "rx_chunk rx dlc =
     (let remaining = rx_total_len rx - rx_received rx; avail = ucast dlc - 1
      in if remaining < avail then remaining else avail)"

lemma rx_chunk_size:
  assumes "unat (rx_total_len rx) = n" and "unat (rx_received rx) = m" and "m < n" and "unat dlc \<noteq> 0" and "unat dlc \<le> 8"
  shows "unat (rx_chunk rx dlc) = min (n - m) (unat dlc - 1)"
proof -
  have "unat (rx_total_len rx - rx_received rx) = n - m"
    using assms by (subst unat_minus_mod) (simp_all add: word_le_nat_alt)
  moreover have "unat (ucast dlc - 1 :: u16) = unat dlc - 1"
    using assms(4,5) by (subst unat_minus_mod) (simp_all add: word_le_nat_alt unat_len)
  ultimately show ?thesis
    by (auto simp: rx_chunk_def Let_def word_less_nat_alt)
qed

lemma rx_chunk_copy:
  assumes "unat (rx_total_len rx) = n" and "unat (rx_received rx) = length xs" and "length xs < n"
    and "unat dlc \<noteq> 0" and "unat dlc \<le> 8" and "unat dlc \<le> length d"
    and "take (length xs) (rx_buf rx) = xs" and "length (rx_buf rx) = 4095" and "n \<le> 4095"
  defines "ys \<equiv> xs @ take (n - length xs) (take (unat dlc - 1) (tl d))"
  shows "unat (rx_received rx + rx_chunk rx dlc) = length ys" and "length ys \<le> n"
    and "mem_copy (rx_buf rx) (unat (rx_received rx)) d 1 (unat (rx_chunk rx dlc)) = Some (ys @ drop (length ys) (rx_buf rx))"
proof -
  note m = rx_chunk_size [OF assms(1-5)]
  have n: "unat (rx_chunk rx dlc) = length ys - length xs"
    using assms(3-6) unfolding m ys_def by simp
  show le: "length ys \<le> n"
    using assms(3) by (auto simp: ys_def)
  have len: "unat (rx_received rx) + unat (rx_chunk rx dlc) = length ys"
    unfolding n assms(2) by (simp add: ys_def)
  then show "unat (rx_received rx + rx_chunk rx dlc) = length ys"
    using le assms(9) by (subst unat_add_lt) auto
  have "take (unat (rx_chunk rx dlc)) (drop 1 d) = take (n - length xs) (take (unat dlc - 1) (tl d))"
    unfolding m by (simp add: drop_Suc)
  moreover have "unat (rx_received rx) + unat (rx_chunk rx dlc) \<le> length (rx_buf rx)"
    using len le assms(8,9) by simp
  moreover have "1 + unat (rx_chunk rx dlc) \<le> length d"
    using assms(4,6) unfolding m by linarith
  ultimately show "mem_copy (rx_buf rx) (unat (rx_received rx)) d 1 (unat (rx_chunk rx dlc)) =
      Some (ys @ drop (length ys) (rx_buf rx))"
    using len assms(2,7) by (simp only: mem_copy_Some append_assoc ys_def)
qed

text \<open>A frame with the expected sequence number.\<close>

lemma rx_expected_refines:
  assumes rel: "rx_rel rx (Collect n xs sn c)" and k: "unat dlc \<noteq> 0" "unat dlc \<le> 8" and d: "unat dlc \<le> length d"
    and sn: "d ! 0 AND 0x0F = sn"
  shows "rx_answers rx (rx_consecutive rx d (d ! 0) dlc)
    (spec_rx (unat (buffer_limit rx)) (unat (rx_block_size rx)) (Collect n xs sn c)
      (CF sn (take (unat dlc - 1) (tl d))))"
proof -
  have r: "length (rx_buf rx) = 4095" "length (fc_frame rx) = 8" "buffer_limit rx \<le> 4095"
    using rel by (simp_all add: rx_rel_def)
  have h: "rx_state rx = RX_WAIT_CF" "unat (rx_total_len rx) = n" "unat (rx_received rx) = length xs"
    "take (length xs) (rx_buf rx) = xs" "rx_next_sn rx = sn" "length xs < n" "n \<le> unat (buffer_limit rx)"
    "rx_block_size rx \<noteq> 0 \<Longrightarrow> unat (cf_since_fc rx) = c \<and> c < unat (rx_block_size rx)"
    using rel by (auto simp: rx_rel_def)
  have n_le: "n \<le> 4095"
    using h(7) r(3) by (simp add: word_le_nat_alt)
  let ?xs = "xs @ take (n - length xs) (take (unat dlc - 1) (tl d))"
  note cp = rx_chunk_copy [OF h(2,3,6) k d h(4) r(1) n_le]
  have ge: "rx_received rx + rx_chunk rx dlc \<ge> rx_total_len rx \<longleftrightarrow> length ?xs = n"
    using cp(2) by (auto simp only: word_le_nat_alt cp(1) h(2))
  have step: "rx_consecutive rx d (d ! 0) dlc =
    (let rx1 = rx\<lparr> rx_buf := ?xs @ drop (length ?xs) (rx_buf rx), rx_received := rx_received rx + rx_chunk rx dlc,
           rx_next_sn := (sn + 1) AND 0x0F, cf_since_fc := cf_since_fc rx + 1 \<rparr> in
     if length ?xs = n
     then Some (rx1\<lparr> rx_state := RX_IDLE, messages_ok := messages_ok rx + 1 \<rparr>, EV_MESSAGE)
     else if rx_block_size rx \<noteq> 0 \<and> cf_since_fc rx + 1 \<ge> ucast (rx_block_size rx)
     then Some (rx1\<lparr> cf_since_fc := 0, fc_frame := fc_bytes 0 (rx_block_size rx) (rx_st_min rx) \<rparr>, EV_SEND_FC)
     else Some (rx1, EV_NONE))"
    using ge cp(3) h(1,5) sn r(2)
    by (simp add: rx_consecutive_def rx_chunk_def Let_def build_fc_eval ISOTP_FS_CTS_def)
  have tk: "take (length ?xs) (?xs @ drop (length ?xs) (rx_buf rx)) = ?xs"
    by (rule take_length_append)
  have lb: "length (?xs @ drop (length ?xs) (rx_buf rx)) = 4095"
    using cp(2) n_le r(1) by simp
  have blk: "rx_block_size rx \<noteq> 0 \<Longrightarrow> unat (cf_since_fc rx + 1) = c + 1"
    "rx_block_size rx \<noteq> 0 \<Longrightarrow> cf_since_fc rx + 1 \<ge> ucast (rx_block_size rx) \<longleftrightarrow> unat (rx_block_size rx) \<le> c + 1"
    using h(8) unsigned_less [of "rx_block_size rx", where ?'a = nat]
    by (simp_all add: word_le_nat_alt unat_len unat_Suc_lt)
  have spec: "spec_rx (unat (buffer_limit rx)) (unat (rx_block_size rx)) (Collect n xs sn c) (CF sn (take (unat dlc - 1) (tl d))) =
     (if length ?xs = n then (Idle, EV_MESSAGE, Some ?xs)
      else if rx_block_size rx \<noteq> 0 \<and> unat (rx_block_size rx) \<le> c + 1
      then (Collect n ?xs ((sn + 1) AND 0x0F) 0, EV_SEND_FC, None)
      else (Collect n ?xs ((sn + 1) AND 0x0F) (c + 1), EV_NONE, None))"
    by (simp add: Let_def unat_eq_zero)
  show ?thesis
    using rx_collect_answers [OF step spec refl cp(1) lb tk cp(2) h r blk] by blast
qed

lemma rx_consecutive_refines:
  assumes "rx_rel rx s" and "dlc \<noteq> 0" "dlc \<le> 8" and "unat dlc \<le> length d" and "drop_bit 4 (d ! 0) = 2"
  shows "rx_answers rx (rx_consecutive rx d (d ! 0) dlc)
    (spec_rx (unat (buffer_limit rx)) (unat (rx_block_size rx)) s (pdu_of (Some d) dlc))"
proof -
  have k: "unat dlc \<noteq> 0" "unat dlc \<le> 8"
    using assms(2,3) by (simp_all add: unat_eq_zero word_le_nat_alt)
  have p: "pdu_of (Some d) dlc = CF (d ! 0 AND 0x0F) (take (unat dlc - 1) (tl d))"
    using k assms(5) by (simp add: pdu_of_def Let_def)
  show ?thesis
  proof (cases s)
    case Idle
    then show ?thesis
      using assms(1) p by (simp add: rx_consecutive_def rx_answers_def rx_counts_def rx_rel_def same_policy_def)
  next
    case (Collect n xs sn c)
    show ?thesis
    proof (cases "d ! 0 AND 0x0F = sn")
      case True
      then show ?thesis
        using rx_expected_refines [OF assms(1) [unfolded Collect] k assms(4)] p Collect by simp
    next
      case False
      then show ?thesis
        using assms(1) p Collect by (simp add: rx_consecutive_def rx_answers_def rx_counts_def rx_rel_def
            same_policy_def rx_abort_def Let_def)
    qed
  qed
qed

text \<open>A frame that is rejected is counted and changes nothing else.\<close>

lemma rejected_answers:
  assumes "rx_rel rx s"
  shows "rx_answers rx (Some (bump_length rx, EV_ERR_LENGTH)) (spec_rx l b s Rejected)"
proof -
  have "rx_holds (bump_length rx) s"
    using assms by (cases s) (auto simp: rx_rel_def bump_length_def)
  moreover have "buffer_limit (bump_length rx) = buffer_limit rx" "rx_buf (bump_length rx) = rx_buf rx"
    "fc_frame (bump_length rx) = fc_frame rx" "same_policy rx (bump_length rx)"
    "rx_counts rx (bump_length rx) EV_ERR_LENGTH"
    by (simp_all add: bump_length_def same_policy_def rx_counts_def)
  ultimately show ?thesis
    using assms by (simp add: rx_answers_def rx_rel_def)
qed

lemma rx_frame_refines:
  assumes "rx_rel rx s" and "can_frame_ok data dlc"
  shows "rx_answers rx (isotp_rx_frame rx data dlc)
    (spec_rx (unat (buffer_limit rx)) (unat (rx_block_size rx)) s (pdu_of data dlc))"
proof (cases "data = None \<or> dlc = 0 \<or> dlc > ISOTP_CAN_DLC")
  case True
  then have p: "pdu_of data dlc = Rejected"
    by (auto simp: pdu_of_def Let_def ISOTP_CAN_DLC_def word_less_nat_alt split: option.splits)
  have f: "isotp_rx_frame rx data dlc = Some (bump_length rx, EV_ERR_LENGTH)"
    using True by (simp only: isotp_rx_frame_def if_True)
  show ?thesis
    unfolding f p by (rule rejected_answers [OF assms(1)])
next
  case False
  then obtain d where d: "data = Some d"
    by auto
  have k: "dlc \<noteq> 0" "dlc \<le> 8"
    using False by (auto simp: ISOTP_CAN_DLC_def not_less)
  then have u: "unat dlc \<noteq> 0" "unat dlc \<le> 8" "unat dlc \<le> length d"
    using assms(2) d by (simp_all add: can_frame_ok_def unat_eq_zero word_le_nat_alt)
  then have g: "arr_get d 0 = Some (d ! 0)"
    by (intro arr_get_Some) linarith
  have f: "isotp_rx_frame rx data dlc =
    (if drop_bit 4 (d ! 0) = 0 then rx_single rx d (d ! 0) dlc
     else if drop_bit 4 (d ! 0) = 1 then rx_first rx d (d ! 0) dlc
     else if drop_bit 4 (d ! 0) = 2 then rx_consecutive rx d (d ! 0) dlc
     else if drop_bit 4 (d ! 0) = 3 then Some (rx, EV_NONE)
     else Some (bump_length rx, EV_ERR_LENGTH))"
    using False d g by (simp add: isotp_rx_frame_def Let_def isotp_consts)
  consider (data) "drop_bit 4 (d ! 0) \<in> {0, 1, 2}" | (fc) "drop_bit 4 (d ! 0) = 3" | (other) "drop_bit 4 (d ! 0) \<notin> {0, 1, 2, 3}"
    by auto
  then show ?thesis
  proof cases
    case data
    then show ?thesis
      unfolding f unfolding d
      using rx_single_refines [OF assms(1) k u(3)] rx_first_refines [OF assms(1) k u(3)]
        rx_consecutive_refines [OF assms(1) k u(3)] by auto
  next
    case fc
    then have p: "pdu_of data dlc = FC"
      using d u by (simp add: pdu_of_def Let_def)
    show ?thesis
      unfolding f p using fc assms(1) by (simp add: rx_answers_def rx_counts_def same_policy_def)
  next
    case other
    then have p: "pdu_of data dlc = Rejected"
      using d u by (simp add: pdu_of_def Let_def)
    show ?thesis
      unfolding f p using other rejected_answers [OF assms(1)] by simp
  qed
qed

section \<open>Runs over many frames\<close>

abbreviation isotp_rx_step :: "isotp_rx \<Rightarrow> u8 list option \<times> u8 \<Rightarrow> (isotp_rx \<times> isotp_event) option" where
  "isotp_rx_step rx f \<equiv> isotp_rx_frame rx (fst f) (snd f)"

abbreviation isotp_rx_run :: "isotp_rx \<Rightarrow> (u8 list option \<times> u8) list \<Rightarrow> (isotp_rx \<times> isotp_event list) option" where
  "isotp_rx_run \<equiv> machine_run isotp_rx_step"

definition spec_rx_event :: "nat \<Rightarrow> nat \<Rightarrow> reassembly \<Rightarrow> u8 list option \<times> u8 \<Rightarrow> reassembly \<times> isotp_event" where
  "spec_rx_event l b s f = (case spec_rx l b s (pdu_of (fst f) (snd f)) of (s', ev, m) \<Rightarrow> (s', ev))"

text \<open>A receiver in state \<open>s\<close> that has come from \<open>rx0\<close>: with its policy, and with nothing written beyond
  its limit.\<close>

definition rx_from :: "isotp_rx \<Rightarrow> isotp_rx \<Rightarrow> reassembly \<Rightarrow> bool" where
  "rx_from rx0 rx s \<longleftrightarrow> rx_rel rx s \<and> same_policy rx0 rx \<and>
     drop (unat (buffer_limit rx0)) (rx_buf rx) = drop (unat (buffer_limit rx0)) (rx_buf rx0)"

lemma same_policyD: "same_policy rx rx' \<Longrightarrow> buffer_limit rx' = buffer_limit rx \<and>
    rx_block_size rx' = rx_block_size rx \<and> rx_st_min rx' = rx_st_min rx"
  by (simp add: same_policy_def)

interpretation reassembler: mealy_refinement isotp_rx_step
  "spec_rx_event (unat (buffer_limit rx0)) (unat (rx_block_size rx0))" "rx_from rx0" "\<lambda>f. can_frame_ok (fst f) (snd f)" for rx0
proof
  fix rx s f
  assume A: "rx_from rx0 rx s" "can_frame_ok (fst f) (snd f)"
  note p = same_policyD [of rx0 rx]
  obtain s' ev m where sp: "spec_rx (unat (buffer_limit rx0)) (unat (rx_block_size rx0)) s (pdu_of (fst f) (snd f)) = (s', ev, m)"
    by (metis prod_cases3)
  have "rx_answers rx (isotp_rx_frame rx (fst f) (snd f)) (s', ev, m)"
    using rx_frame_refines [OF _ A(2), of rx s] A(1) p sp by (simp add: rx_from_def)
  then obtain rx' where rx': "isotp_rx_frame rx (fst f) (snd f) = Some (rx', ev)" "rx_rel rx' s'" "same_policy rx rx'"
      "drop (unat (buffer_limit rx)) (rx_buf rx') = drop (unat (buffer_limit rx)) (rx_buf rx)"
    unfolding rx_answers_def fst_conv snd_conv by (elim exE conjE) (rule that)
  moreover have "same_policy rx0 rx'"
    using A(1) rx'(3) by (simp add: rx_from_def same_policy_def)
  moreover have "drop (unat (buffer_limit rx0)) (rx_buf rx') = drop (unat (buffer_limit rx0)) (rx_buf rx0)"
    using A(1) p rx'(4) by (simp add: rx_from_def)
  ultimately have "rx_from rx0 rx' s'"
    by (simp only: rx_from_def)
  then show "\<exists>rx'. isotp_rx_step rx f =
      Some (rx', snd (spec_rx_event (unat (buffer_limit rx0)) (unat (rx_block_size rx0)) s f)) \<and>
      rx_from rx0 rx' (fst (spec_rx_event (unat (buffer_limit rx0)) (unat (rx_block_size rx0)) s f))"
    using rx'(1) by (simp add: spec_rx_event_def sp)
qed

lemma rx_init_rel: "rx_rel (isotp_rx_init limit bs st) Idle"
  by (auto simp: rx_rel_def isotp_rx_init_def ISOTP_MAX_PAYLOAD_def not_less)

lemma rx_rel_waiting:
  assumes "rx_rel rx s" and "rx_state rx = RX_WAIT_CF"
  shows "rx_received rx < rx_total_len rx" and "rx_total_len rx \<le> buffer_limit rx"
  using assms by (cases s; auto simp: rx_rel_def word_less_nat_alt word_le_nat_alt)+

section \<open>PCI bytes\<close>

lemma pci_pack: "drop_bit 4 (push_bit 4 k OR (x AND 0x0F)) = k AND 0x0F" "(push_bit 4 k OR (x AND 0x0F)) AND 0x0F = x AND 0x0F"
  for k x :: u8
proof -
  have m: "(0x0F :: u8) = mask 4"
    by (simp add: mask_eq_exp_minus_1)
  show "drop_bit 4 (push_bit 4 k OR (x AND 0x0F)) = k AND 0x0F"
    unfolding m by (rule bit_word_eqI) (auto simp: bit_simps)
  show "(push_bit 4 k OR (x AND 0x0F)) AND 0x0F = x AND 0x0F"
    unfolding m by (rule bit_word_eqI) (auto simp: bit_simps)
qed

lemma pci_nibbles:
  "drop_bit 4 (x AND 0x0F :: u8) = 0" "(x AND 0x0F) AND 0x0F = (x AND 0x0F :: u8)"
  "drop_bit 4 (0x10 OR (x AND 0x0F) :: u8) = 1" "(0x10 OR (x AND 0x0F)) AND 0x0F = (x AND 0x0F :: u8)"
  "drop_bit 4 (0x20 OR (x AND 0x0F) :: u8) = 2" "(0x20 OR (x AND 0x0F)) AND 0x0F = (x AND 0x0F :: u8)"
  "drop_bit 4 (0x30 OR (x AND 0x0F) :: u8) = 3" "(0x30 OR (x AND 0x0F)) AND 0x0F = (x AND 0x0F :: u8)"
  using pci_pack [of 0 x] pci_pack [of 1 x] pci_pack [of 2 x] pci_pack [of 3 x] by simp_all

lemma nibble_mod: "unat (x AND 0x0F) = unat x mod 16" for x :: u8
proof -
  have "x AND 0x0F = take_bit 4 x"
    by (simp add: take_bit_eq_mask mask_eq_exp_minus_1)
  then show ?thesis
    by (simp only: unsigned_take_bit_eq) (simp add: take_bit_eq_mod)
qed

lemma nibble_add_eq: "k < 16 \<Longrightarrow> (k + of_nat j) AND 0x0F = k \<longleftrightarrow> 16 dvd j" for k :: u8
proof -
  assume k: "k < 16"
  have "unat ((k + of_nat j) AND 0x0F) = (unat k + j) mod 16"
    by (simp add: nibble_mod unat_word_ariths unat_of_nat mod_simps take_bit_eq_mod mod_mod_cancel)
  moreover have "(unat k + j) mod 16 = unat k \<longleftrightarrow> 16 dvd j"
    using k mod_eq_dvd_iff_nat [of "unat k" "unat k + j" 16] by (simp add: word_less_nat_alt)
  ultimately show ?thesis
    by (simp add: word_unat_eq_iff)
qed

section \<open>Properties\<close>

text \<open>C5. For every receiver state and every frame, well formed or not, the receiver returns the
  event the specification gives, moves to a related state, delivers exactly the reassembled
  bytes with EV_MESSAGE, fills the flow-control frame on EV_SEND_FC and increments exactly the
  counter of the event.\<close>

theorem isotp_rx_refines_spec:
  assumes "rx_rel rx s" and "can_frame_ok data dlc"
    and "spec_rx (unat (buffer_limit rx)) (unat (rx_block_size rx)) s (pdu_of data dlc) = (s', ev, m)"
  shows "\<exists>rx'. isotp_rx_frame rx data dlc = Some (rx', ev) \<and> rx_rel rx' s' \<and> rx_counts rx rx' ev \<and>
    m = (if ev = EV_MESSAGE then Some (take (unat (rx_received rx')) (rx_buf rx')) else None) \<and>
    (ev = EV_SEND_FC \<longrightarrow> fc_frame rx' = fc_bytes 0 (rx_block_size rx) (rx_st_min rx))"
  using rx_frame_refines [OF assms(1,2)] unfolding rx_answers_def assms(3) fst_conv snd_conv
  by blast

theorem isotp_rx_refines_spec_witness:
  "\<exists>rx'. isotp_rx_frame (isotp_rx_init 100 4 0) (Some [0x03, 0x22, 0xF1, 0x90]) 4 = Some (rx', EV_MESSAGE) \<and>
     take (unat (rx_received rx')) (rx_buf rx') = [0x22, 0xF1, 0x90]"
  using isotp_rx_refines_spec [OF rx_init_rel, of "Some [0x03, 0x22, 0xF1, 0x90]" 4 100 4 0 Idle EV_MESSAGE "Some [0x22, 0xF1, 0x90]"]
  by (auto simp: can_frame_ok_def pdu_of_def isotp_rx_init_def ISOTP_MAX_PAYLOAD_def)

text \<open>C4. Whatever frames arrive after initialisation, truncated, oversized, out of order or
  null, no access leaves an array, nothing is written at or beyond the configured buffer limit,
  and a reception in progress has room for the bytes it still expects.\<close>

theorem isotp_rx_memory_safe:
  assumes "\<And>data dlc. (data, dlc) \<in> set fs \<Longrightarrow> can_frame_ok data dlc"
  shows "\<exists>rx evs. isotp_rx_run (isotp_rx_init limit bs st) fs = Some (rx, evs) \<and>
    length evs = length fs \<and> length (rx_buf rx) = 4095 \<and> length (fc_frame rx) = 8 \<and>
    (\<forall>i. unat limit \<le> i \<and> i < 4095 \<longrightarrow> rx_buf rx ! i = 0) \<and>
    (rx_state rx = RX_WAIT_CF \<longrightarrow> rx_received rx < rx_total_len rx \<and> rx_total_len rx \<le> limit)"
proof -
  let ?rx0 = "isotp_rx_init limit bs st"
  have start: "rx_from ?rx0 ?rx0 Idle" and ok: "list_all (\<lambda>f. can_frame_ok (fst f) (snd f)) fs"
    using rx_init_rel assms by (auto simp: rx_from_def same_policy_def list_all_iff)
  obtain rx evs s where run: "isotp_rx_run ?rx0 fs = Some (rx, evs)" and rel: "rx_rel rx s"
    and pol: "same_policy ?rx0 rx"
    and keep: "drop (unat (buffer_limit ?rx0)) (rx_buf rx) = drop (unat (buffer_limit ?rx0)) (rx_buf ?rx0)"
    using reassembler.run_answers [OF start ok] unfolding rx_from_def by blast
  have len: "length evs = length fs"
    using run by (rule machine_run_length)
  have lim: "buffer_limit rx \<le> limit"
    using same_policyD [OF pol] by (auto simp: isotp_rx_init_def ISOTP_MAX_PAYLOAD_def)
  have "rx_buf rx ! i = 0" if "unat limit \<le> i" "i < 4095" for i
  proof -
    have b: "unat (buffer_limit ?rx0) \<le> i"
      using that by (simp add: isotp_rx_init_def ISOTP_MAX_PAYLOAD_def word_less_nat_alt)
    then have "rx_buf rx ! i = drop (unat (buffer_limit ?rx0)) (rx_buf rx) ! (i - unat (buffer_limit ?rx0))"
      using rel that by (simp add: rx_rel_def)
    also have "\<dots> = rx_buf ?rx0 ! i"
      unfolding keep using b that by (simp add: isotp_rx_init_def)
    finally show ?thesis
      using that by (simp add: isotp_rx_init_def)
  qed
  then show ?thesis
    using run rel len lim rx_rel_waiting [OF rel] by (auto simp: rx_rel_def)
qed

theorem isotp_rx_memory_safe_witness:
  "\<exists>rx evs. isotp_rx_run (isotp_rx_init 20 0 0) [(Some [0x10, 0x20, 1, 2, 3, 4, 5, 6], 8), (None, 8)] = Some (rx, evs) \<and>
     length (rx_buf rx) = 4095 \<and> rx_buf rx ! 20 = 0"
proof -
  have "\<exists>rx evs. isotp_rx_run (isotp_rx_init 20 0 0) [(Some [0x10, 0x20, 1, 2, 3, 4, 5, 6], 8), (None, 8)] = Some (rx, evs) \<and>
    length evs = length [(Some [0x10, 0x20, 1, 2, 3, 4, 5, 6 :: u8], 8 :: u8), (None, 8)] \<and>
    length (rx_buf rx) = 4095 \<and> length (fc_frame rx) = 8 \<and>
    (\<forall>i. unat (20 :: u16) \<le> i \<and> i < 4095 \<longrightarrow> rx_buf rx ! i = 0) \<and>
    (rx_state rx = RX_WAIT_CF \<longrightarrow> rx_received rx < rx_total_len rx \<and> rx_total_len rx \<le> 20)"
    by (rule isotp_rx_memory_safe) (auto simp: can_frame_ok_def)
  then show ?thesis
    by fastforce
qed

text \<open>When the next consecutive frame is the one \<open>j\<close> places later in the stream, the receiver
  reports a sequence error and drops the reception, unless \<open>j\<close> is a multiple of 16.\<close>

theorem isotp_gap_detected:
  assumes "rx_rel rx (Collect n xs k c)" and "unat dlc \<le> length d" and "1 \<le> dlc" "dlc \<le> 8"
    and "d ! 0 = 0x20 OR ((k + of_nat j) AND 0x0F)" and "k < 16"
  shows "\<exists>rx' ev. isotp_rx_frame rx (Some d) dlc = Some (rx', ev) \<and>
    (ev = EV_ERR_SEQUENCE \<longleftrightarrow> \<not> 16 dvd j) \<and>
    (\<not> 16 dvd j \<longrightarrow> rx_state rx' = RX_IDLE \<and> rx_counts rx rx' EV_ERR_SEQUENCE)"
proof -
  have k: "unat dlc \<noteq> 0" "unat dlc \<le> 8"
    using assms(3,4) by (simp_all add: word_le_nat_alt)
  let ?sn = "(k + of_nat j) AND 0x0F" and ?p = "take (unat dlc - 1) (tl d)"
  have p: "pdu_of (Some d) dlc = CF ?sn ?p"
    unfolding pdu_of_def option.case assms(5) Let_def pci_nibbles using k by simp
  have "can_frame_ok (Some d) dlc"
    using assms(2) by (simp add: can_frame_ok_def)
  note r = rx_frame_refines [OF assms(1) this, unfolded p]
  show ?thesis
  proof (cases "16 dvd j")
    case True
    then have sn: "?sn = k"
      using nibble_add_eq [OF assms(6)] by simp
    have "fst (snd (spec_rx l b (Collect n xs k c) (CF k ?p))) \<noteq> EV_ERR_SEQUENCE" for l b
      by (simp add: Let_def)
    then show ?thesis
      using r True unfolding sn rx_answers_def by blast
  next
    case False
    then have sn: "?sn \<noteq> k"
      using nibble_add_eq [OF assms(6)] by simp
    have "spec_rx l b (Collect n xs k c) (CF ?sn ?p) = (Idle, EV_ERR_SEQUENCE, None)" for l b
      using sn by (simp add: Let_def)
    then show ?thesis
      using r False by (auto simp: rx_answers_def rx_rel_def)
  qed
qed

definition waiting_rx :: isotp_rx where
  "waiting_rx = (isotp_rx_init 4095 0 0)\<lparr> rx_state := RX_WAIT_CF, rx_total_len := 20, rx_received := 6,
     rx_next_sn := 1 \<rparr>"

lemma waiting_rx_rel: "rx_rel waiting_rx (Collect 20 (replicate 6 0) 1 0)"
  by (simp add: rx_rel_def waiting_rx_def isotp_rx_init_def ISOTP_MAX_PAYLOAD_def)

theorem isotp_gap_detected_witness:
  "\<exists>rx'. isotp_rx_frame waiting_rx (Some [0x22, 7, 8]) 3 = Some (rx', EV_ERR_SEQUENCE)"
  using isotp_gap_detected [OF waiting_rx_rel, of 3 "[0x22, 7, 8]" 1] by auto
end
