(* ===== verification/Isotp_Tx.thy ===== *)
theory Isotp_Tx
  imports Isotp
begin

text \<open>
  The transmit half of the transport of \<open>src/code/portable/can/isotp.c\<close> and the exchange between
  a sender and a receiver. The cases of the switch in \<open>isotp_tx_next\<close> are \<open>tx_next_idle\<close> and
  \<open>tx_next_sending\<close>; the payload pointer is the array it points to. \<open>isotp_transfer\<close> is the
  driver loop of \<open>round_trip\<close> in \<open>src/code/host-tests/test_isotp.c\<close>, with the test's bound of
  20000 iterations as its fuel: 4096 are enough for the longest message, since every
  iteration moves at least one byte.
\<close>

section \<open>Transmit\<close>

datatype isotp_tx_state = TX_IDLE | TX_WAIT_FC | TX_SENDING | TX_DONE | TX_ABORTED

record isotp_tx =
  tx_state :: isotp_tx_state
  tx_payload :: "u8 list option"
  tx_total_len :: u16
  tx_sent :: u16
  tx_next_sn :: u8
  tx_block_size :: u8
  tx_st_min :: u8
  cf_in_block :: u16
  wait_count :: u32

definition isotp_tx_begin :: "isotp_tx option \<Rightarrow> u8 list option \<Rightarrow> u16 \<Rightarrow> isotp_tx option \<times> bool" where
  "isotp_tx_begin tx payload len =
     (if tx = None \<or> payload = None \<or> len = 0 \<or> len > ISOTP_MAX_PAYLOAD then (tx, False)
      else (Some \<lparr> tx_state = TX_IDLE, tx_payload = payload, tx_total_len = len, tx_sent = 0,
              tx_next_sn = 1, tx_block_size = 0, tx_st_min = 0, cf_in_block = 0,
              wait_count = 0 \<rparr>, True))"

definition tx_next_idle :: "isotp_tx \<Rightarrow> u8 list \<Rightarrow> (isotp_tx \<times> u8 list \<times> u8) option" where
  "tx_next_idle tx out =
     (if tx_total_len tx \<le> 7 then do {
        out \<leftarrow> mem_set out 0xCC (unat ISOTP_CAN_DLC);
        out \<leftarrow> arr_set out 0 (ucast (ucast (push_bit 4 ISOTP_PCI_SF) OR (tx_total_len tx AND 0x0F)));
        payload \<leftarrow> tx_payload tx;
        out \<leftarrow> mem_copy out 1 payload 0 (unat (tx_total_len tx));
        Some (tx\<lparr> tx_sent := tx_total_len tx, tx_state := TX_DONE \<rparr>, out, ISOTP_CAN_DLC)
      } else do {
        out \<leftarrow> arr_set out 0 (ucast (ucast (push_bit 4 ISOTP_PCI_FF) OR (drop_bit 8 (tx_total_len tx) AND 0x0F)));
        out \<leftarrow> arr_set out 1 (ucast (tx_total_len tx AND 0xFF));
        payload \<leftarrow> tx_payload tx;
        out \<leftarrow> mem_copy out 2 payload 0 6;
        Some (tx\<lparr> tx_sent := 6, tx_state := TX_WAIT_FC \<rparr>, out, ISOTP_CAN_DLC)
      })"

definition tx_next_sending :: "isotp_tx \<Rightarrow> u8 list \<Rightarrow> (isotp_tx \<times> u8 list \<times> u8) option" where
  "tx_next_sending tx out =
     (if tx_block_size tx \<noteq> 0 \<and> cf_in_block tx \<ge> ucast (tx_block_size tx)
      then Some (tx\<lparr> tx_state := TX_WAIT_FC \<rparr>, out, 0)
      else let remaining = tx_total_len tx - tx_sent tx;
               n = (if remaining > 7 then 7 else ucast remaining :: u8)
      in do {
        out \<leftarrow> mem_set out 0xCC (unat ISOTP_CAN_DLC);
        out \<leftarrow> arr_set out 0 (push_bit 4 ISOTP_PCI_CF OR (tx_next_sn tx AND 0x0F));
        payload \<leftarrow> tx_payload tx;
        out \<leftarrow> mem_copy out 1 payload (unat (tx_sent tx)) (unat n);
        let tx = tx\<lparr> tx_sent := tx_sent tx + ucast n, tx_next_sn := (tx_next_sn tx + 1) AND 0x0F,
                    cf_in_block := cf_in_block tx + 1 \<rparr>;
        Some (if tx_sent tx \<ge> tx_total_len tx then tx\<lparr> tx_state := TX_DONE \<rparr> else tx, out, ISOTP_CAN_DLC)
      })"

definition isotp_tx_next ::
    "isotp_tx option \<Rightarrow> u8 list option \<Rightarrow> (isotp_tx option \<times> u8 list option \<times> u8) option" where
  "isotp_tx_next tx out =
     (case (tx, out) of
        (Some t, Some o0) \<Rightarrow>
          do { (t, o0, dlc) \<leftarrow>
                 (case tx_state t of
                    TX_IDLE \<Rightarrow> tx_next_idle t o0
                  | TX_SENDING \<Rightarrow> tx_next_sending t o0
                  | _ \<Rightarrow> Some (t, o0, 0));
               Some (Some t, Some o0, dlc) }
      | _ \<Rightarrow> Some (tx, out, 0))"

definition isotp_tx_flow_control ::
    "isotp_tx option \<Rightarrow> u8 list option \<Rightarrow> u8 \<Rightarrow> (isotp_tx option \<times> isotp_event) option" where
  "isotp_tx_flow_control tx data dlc =
     (case (tx, data) of
        (Some t, Some d) \<Rightarrow>
          if dlc < 3 then Some (tx, EV_ERR_LENGTH)
          else do {
            d0 \<leftarrow> arr_get d 0;
            if drop_bit 4 d0 \<noteq> ISOTP_PCI_FC then Some (tx, EV_ERR_UNEXPECTED)
            else if tx_state t \<noteq> TX_WAIT_FC \<and> tx_state t \<noteq> TX_SENDING
            then Some (tx, EV_ERR_UNEXPECTED)
            else if d0 AND 0x0F = ISOTP_FS_CTS then do {
              d1 \<leftarrow> arr_get d 1;
              d2 \<leftarrow> arr_get d 2;
              Some (Some (t\<lparr> tx_block_size := d1, tx_st_min := d2, cf_in_block := 0,
                            tx_state := TX_SENDING \<rparr>), EV_NONE)
            }
            else if d0 AND 0x0F = ISOTP_FS_WAIT
            then Some (Some (t\<lparr> wait_count := wait_count t + 1, tx_state := TX_WAIT_FC \<rparr>), EV_NONE)
            else if d0 AND 0x0F = ISOTP_FS_OVFLW
            then Some (Some (t\<lparr> tx_state := TX_ABORTED \<rparr>), EV_ERR_OVERFLOW)
            else Some (Some (t\<lparr> tx_state := TX_ABORTED \<rparr>), EV_ERR_UNEXPECTED)
          }
      | _ \<Rightarrow> Some (tx, EV_ERR_LENGTH))"


section \<open>The frames of a message\<close>

definition cf_frame :: "u8 \<Rightarrow> u8 list \<Rightarrow> u8 list" where
  "cf_frame sn xs = (0x20 OR (sn AND 0x0F)) # xs @ replicate (7 - length xs) 0xCC"

definition ff_frame :: "u8 list \<Rightarrow> u8 list" where
  "ff_frame p = (let n = of_nat (length p) :: u16 in
     [0x10 OR (ucast (drop_bit 8 n) AND 0x0F), ucast n] @ take 6 p)"

definition sf_frame :: "u8 list \<Rightarrow> u8 list" where
  "sf_frame p = (ucast (of_nat (length p) :: u16) AND 0x0F) # p @ replicate (7 - length p) 0xCC"

definition tx_carries :: "isotp_tx \<Rightarrow> u8 list \<Rightarrow> bool" where
  "tx_carries tx p \<longleftrightarrow> tx_payload tx = Some p \<and> unat (tx_total_len tx) = length p \<and>
     1 \<le> length p \<and> length p \<le> 4095"

lemma unat_of_nat_len: "n < 2 ^ LENGTH(16) \<Longrightarrow> unat (of_nat n :: u16) = n"
  by (simp add: unat_of_nat take_bit_nat_eq_self)

lemma tx_carries_total: "tx_carries tx p \<Longrightarrow> tx_total_len tx = of_nat (length p)"
  by (simp add: tx_carries_def word_unat_eq_iff unat_of_nat take_bit_nat_eq_self)

lemma ucast_and_low: "ucast (x AND 0x0F) = (ucast x AND 0x0F :: u8)" "ucast (x AND 0xFF) = (ucast x :: u8)"
  "ucast (0x10 OR (x AND 0x0F)) = (0x10 OR (ucast x AND 0x0F) :: u8)" for x :: u16
proof -
  have m: "(0x0F :: u16) = mask 4" "(0x0F :: u8) = mask 4" "(0xFF :: u16) = mask 8"
    "(0x10 :: u16) = push_bit 4 1" "(0x10 :: u8) = push_bit 4 1"
    by (simp_all add: mask_eq_exp_minus_1)
  show "ucast (x AND 0x0F) = (ucast x AND 0x0F :: u8)" "ucast (x AND 0xFF) = (ucast x :: u8)"
    "ucast (0x10 OR (x AND 0x0F)) = (0x10 OR (ucast x AND 0x0F) :: u8)"
    unfolding m by (rule bit_word_eqI; auto simp: bit_simps)+
qed

lemma replicate_8: "(replicate 8 a)[0 := b] = b # replicate 7 a"
  by (simp add: numeral_eq_Suc)

section \<open>One call of the sender\<close>

lemma tx_next_idle_single:
  assumes "tx_carries tx p" and "length p \<le> 7" and "length out = 8"
  shows "tx_next_idle tx out = Some (tx\<lparr> tx_sent := tx_total_len tx, tx_state := TX_DONE \<rparr>, sf_frame p, 8)"
proof -
  have le: "tx_total_len tx \<le> 7"
    using assms by (simp add: tx_carries_def word_le_nat_alt)
  show ?thesis
    using assms le tx_carries_total [OF assms(1)]
    by (simp add: tx_next_idle_def mem replicate_8 isotp_consts tx_carries_def sf_frame_def ucast_and_low)
qed

lemma tx_next_idle_first:
  assumes "tx_carries tx p" and "7 < length p" and "length out = 8"
  shows "tx_next_idle tx out = Some (tx\<lparr> tx_sent := 6, tx_state := TX_WAIT_FC \<rparr>, ff_frame p, 8)"
proof -
  have le: "\<not> tx_total_len tx \<le> 7"
    using assms by (simp add: tx_carries_def word_le_nat_alt)
  from assms(3) show ?thesis
    using assms(1,2) le tx_carries_total [OF assms(1)]
    by (elim length_8_cases)
      (simp add: tx_next_idle_def mem isotp_consts tx_carries_def ff_frame_def Let_def ucast_and_low)
qed

lemma tx_next_sending_block_end:
  assumes "tx_block_size tx \<noteq> 0" and "unat (tx_block_size tx) \<le> unat (cf_in_block tx)"
  shows "tx_next_sending tx out = Some (tx\<lparr> tx_state := TX_WAIT_FC \<rparr>, out, 0)"
  using assms by (simp add: tx_next_sending_def word_le_nat_alt unat_len)

text \<open>The sender after one more consecutive frame.\<close>

definition tx_advance :: "u8 list \<Rightarrow> isotp_tx \<Rightarrow> isotp_tx" where
  "tx_advance p tx = tx\<lparr> tx_sent := of_nat (min (unat (tx_sent tx) + 7) (length p)),
      tx_next_sn := (tx_next_sn tx + 1) AND 0x0F, cf_in_block := cf_in_block tx + 1,
      tx_state := (if length p \<le> unat (tx_sent tx) + 7 then TX_DONE else tx_state tx) \<rparr>"

lemma tx_advance:
  assumes "tx_carries tx p"
  shows "tx_carries (tx_advance p tx) p"
    and "unat (tx_sent (tx_advance p tx)) = min (unat (tx_sent tx) + 7) (length p)"
    and "tx_next_sn (tx_advance p tx) = (tx_next_sn tx + 1) AND 0x0F"
    and "tx_block_size (tx_advance p tx) = tx_block_size tx"
    and "cf_in_block (tx_advance p tx) = cf_in_block tx + 1"
    and "tx_state (tx_advance p tx) = (if length p \<le> unat (tx_sent tx) + 7 then TX_DONE else tx_state tx)"
proof -
  have "min (unat (tx_sent tx) + 7) (length p) < 2 ^ LENGTH(16)"
    using assms by (simp add: tx_carries_def min_def)
  moreover have "tx_sent (tx_advance p tx) = of_nat (min (unat (tx_sent tx) + 7) (length p))"
    by (simp add: tx_advance_def)
  ultimately show "unat (tx_sent (tx_advance p tx)) = min (unat (tx_sent tx) + 7) (length p)"
    by (simp only: unat_of_nat_len)
qed (use assms in \<open>simp_all add: tx_advance_def tx_carries_def\<close>)

lemma tx_next_sending_frame:
  assumes "tx_carries tx p" and "length out = 8" and "unat (tx_sent tx) \<le> length p"
    and "tx_block_size tx = 0 \<or> unat (cf_in_block tx) < unat (tx_block_size tx)"
  shows "tx_next_sending tx out = Some (tx_advance p tx,
    cf_frame (tx_next_sn tx) (take 7 (drop (unat (tx_sent tx)) p)), 8)"
proof -
  let ?rem = "tx_total_len tx - tx_sent tx"
  let ?n = "if ?rem > 7 then 7 else ucast ?rem :: u8"
  have c: "tx_payload tx = Some p" "unat (tx_total_len tx) = length p" "length p \<le> 4095"
    using assms(1) by (simp_all add: tx_carries_def)
  have rem: "unat ?rem = length p - unat (tx_sent tx)"
    using c(2) assms(3) by (subst unat_minus_le) (simp_all add: word_le_nat_alt)
  have n: "unat ?n = min 7 (length p - unat (tx_sent tx))"
    using rem by (auto simp: word_less_nat_alt unsigned_ucast_eq take_bit_nat_eq_self)
  have sent: "tx_sent tx + ucast ?n = of_nat (min (unat (tx_sent tx) + 7) (length p))"
  proof -
    have "unat (tx_sent tx) + unat ?n = min (unat (tx_sent tx) + 7) (length p)"
      unfolding n using assms(3) by linarith
    then have "unat (tx_sent tx + ucast ?n) = min (unat (tx_sent tx) + 7) (length p)"
      using c(3) by (subst unat_add_lt) (simp_all only: unat_len(1), simp)
    then show ?thesis
      using c(3) by (simp add: word_unat_eq_iff unat_of_nat take_bit_nat_eq_self)
  qed
  have le: "of_nat (min (unat (tx_sent tx) + 7) (length p)) \<ge> tx_total_len tx \<longleftrightarrow> length p \<le> unat (tx_sent tx) + 7"
    using c by (simp add: word_le_nat_alt unat_of_nat take_bit_nat_eq_self)
  have b: "\<not> (tx_block_size tx \<noteq> 0 \<and> cf_in_block tx \<ge> ucast (tx_block_size tx))"
    using assms(4) by (auto simp: word_le_nat_alt unat_len)
  have cp: "mem_copy ((0x20 OR (tx_next_sn tx AND 0x0F)) # replicate 7 0xCC) 1 p (unat (tx_sent tx)) (unat ?n) =
      Some (cf_frame (tx_next_sn tx) (take 7 (drop (unat (tx_sent tx)) p)))"
    using assms(3) unfolding n
    by (simp add: mem_copy_Some cf_frame_def min_def)
  show ?thesis
    unfolding tx_next_sending_def if_not_P [OF b] Let_def sent
    using assms(2) cp c(1) le by (simp add: mem isotp_consts replicate_8 tx_advance_def)
qed

section \<open>What the receiver reads in them\<close>

lemma pdu_of_cf_frame: "length xs \<le> 7 \<Longrightarrow>
  pdu_of (Some (cf_frame sn xs)) 8 = CF (sn AND 0x0F) (xs @ replicate (7 - length xs) 0xCC)"
  by (simp add: pdu_of_def cf_frame_def Let_def pci_nibbles)

lemma pdu_of_sf_frame:
  assumes "1 \<le> length p" "length p \<le> 7"
  shows "pdu_of (Some (sf_frame p)) 8 = SF p"
proof -
  have u: "unat (ucast (of_nat (length p) :: u16) AND 0x0F :: u8) = length p"
    using assms by (simp add: nibble_mod unsigned_ucast_eq unat_of_nat take_bit_nat_eq_self)
  then have nz: "(ucast (of_nat (length p) :: u16) AND 0x0F :: u8) \<noteq> 0"
    using assms(1) by auto
  show ?thesis
    unfolding pdu_of_def option.case sf_frame_def Let_def nth_Cons_0 pci_nibbles u
    using assms nz by simp
qed

lemma pdu_of_ff_frame:
  assumes "8 \<le> length p" "length p \<le> 4095"
  shows "pdu_of (Some (ff_frame p)) 8 = FF (length p) (take 6 p)"
proof -
  let ?n = "of_nat (length p) :: u16"
  have hi: "unat (ucast (drop_bit 8 ?n) AND 0x0F :: u8) = length p div 256"
  proof -
    have n: "unat ?n = length p"
      using assms by (simp add: unat_of_nat take_bit_nat_eq_self)
    show ?thesis
      unfolding nibble_mod unsigned_ucast_eq unsigned_drop_bit_eq n
      using assms by (simp add: take_bit_eq_mod drop_bit_eq_div)
  qed
  have lo: "unat (ucast ?n :: u8) = length p mod 256"
    using assms by (simp add: unsigned_ucast_eq unat_of_nat take_bit_nat_eq_self take_bit_eq_mod)
  have "256 * (length p div 256) + length p mod 256 = length p"
    by simp
  then show ?thesis
    unfolding pdu_of_def option.case ff_frame_def Let_def
    using assms hi lo by (simp add: pci_nibbles)
qed

lemma cf_collect:
  assumes "s < length p"
  shows "take s p @ take (length p - length (take s p)) (take 7 (drop s p) @
    replicate (7 - length (take 7 (drop s p))) 0xCC) = take (s + 7) p"
  using assms by (simp add: take_add min_def)

section \<open>The exchange\<close>

fun isotp_transfer :: "nat \<Rightarrow> isotp_tx option \<Rightarrow> isotp_rx \<Rightarrow> u8 list option \<Rightarrow> u8 list option option" where
  "isotp_transfer 0 tx rx frame = Some None"
| "isotp_transfer (Suc g) tx rx frame = do {
     (tx, frame, dlc) \<leftarrow> isotp_tx_next tx frame;
     if dlc = 0 then Some None
     else do {
       (rx, ev) \<leftarrow> isotp_rx_frame rx frame dlc;
       if ev = EV_SEND_FC then do {
         (tx, _) \<leftarrow> isotp_tx_flow_control tx (Some (fc_frame rx)) ISOTP_CAN_DLC;
         isotp_transfer g tx rx frame
       }
       else if ev = EV_MESSAGE then Some (Some (take (unat (rx_received rx)) (rx_buf rx)))
       else if ev \<noteq> EV_NONE then Some None
       else isotp_transfer g tx rx frame
     }
   }"

definition isotp_round_trip :: "u8 list \<Rightarrow> u16 \<Rightarrow> u8 \<Rightarrow> u8 \<Rightarrow> isotp_tx \<Rightarrow> u8 list \<Rightarrow> u8 list option option" where
  "isotp_round_trip msg len bs st tx0 frame0 =
     (case isotp_tx_begin (Some tx0) (Some msg) len of
        (tx, ok) \<Rightarrow> if \<not> ok then Some None
          else isotp_transfer 20000 tx (isotp_rx_init ISOTP_MAX_PAYLOAD bs st) (Some frame0))"

lemma flow_control_cts:
  assumes "tx_state tx = TX_WAIT_FC \<or> tx_state tx = TX_SENDING"
  shows "isotp_tx_flow_control (Some tx) (Some (fc_bytes 0 bs st)) 8 =
    Some (Some (tx\<lparr> tx_block_size := bs, tx_st_min := st, cf_in_block := 0, tx_state := TX_SENDING \<rparr>), EV_NONE)"
  using assms by (auto simp: isotp_tx_flow_control_def fc_bytes_def mem isotp_consts)

text \<open>Sender and receiver agree that \<open>s\<close> bytes of \<open>p\<close> have been moved.\<close>

definition tx_matches :: "isotp_tx \<Rightarrow> isotp_rx \<Rightarrow> u8 list \<Rightarrow> nat \<Rightarrow> bool" where
  "tx_matches tx rx p s \<longleftrightarrow> tx_carries tx p \<and> tx_state tx = TX_SENDING \<and> unat (tx_sent tx) = s \<and> s < length p \<and>
     (\<exists>c. rx_rel rx (Collect (length p) (take s p) (tx_next_sn tx) c) \<and>
       (tx_block_size tx \<noteq> 0 \<longrightarrow> unat (cf_in_block tx) = c)) \<and>
     tx_next_sn tx AND 0x0F = tx_next_sn tx \<and> tx_block_size tx = rx_block_size rx"

text \<open>What the specification answers to the frame of the bytes from \<open>s\<close> on.\<close>

lemma spec_rx_cf_frame:
  assumes "s < length p" and "k AND 0x0F = k"
  shows "spec_rx l b (Collect (length p) (take s p) k c) (pdu_of (Some (cf_frame k (take 7 (drop s p)))) 8) =
    (if length p \<le> s + 7 then (Idle, EV_MESSAGE, Some p)
     else if b \<noteq> 0 \<and> b \<le> c + 1 then (Collect (length p) (take (s + 7) p) ((k + 1) AND 0x0F) 0, EV_SEND_FC, None)
     else (Collect (length p) (take (s + 7) p) ((k + 1) AND 0x0F) (c + 1), EV_NONE, None))"
proof -
  have pdu: "pdu_of (Some (cf_frame k (take 7 (drop s p)))) 8 =
      CF k (take 7 (drop s p) @ replicate (7 - length (take 7 (drop s p))) 0xCC)"
    by (subst pdu_of_cf_frame) (simp_all add: assms(2))
  have lt: "length (take (s + 7) p) = length p \<longleftrightarrow> length p \<le> s + 7"
    by auto
  show ?thesis
    unfolding pdu spec_rx.simps Let_def cf_collect [OF assms(1)] lt by simp
qed

text \<open>The sender and the receiver still match after a frame that asks for flow control, and after one that does not.\<close>

lemma tx_matches_fc:
  assumes m: "tx_matches tx rx p s" and more: "s + 7 < length p"
    and rx': "rx_rel rx' (Collect (length p) (take (s + 7) p) ((tx_next_sn tx + 1) AND 0x0F) 0)" "same_policy rx rx'"
  shows "tx_matches ((tx_advance p tx)\<lparr> tx_block_size := rx_block_size rx, tx_st_min := rx_st_min rx, cf_in_block := 0,
      tx_state := TX_SENDING \<rparr>) rx' p (s + 7)"
proof -
  have c: "tx_carries tx p" "unat (tx_sent tx) = s" "tx_block_size tx = rx_block_size rx"
    using m by (auto simp: tx_matches_def)
  show ?thesis
    using tx_advance [OF c(1), unfolded c(2)] c(3) rx' more same_policyD [OF rx'(2)]
    by (auto simp: tx_matches_def tx_carries_def pci_nibbles)
qed

lemma tx_matches_more:
  assumes m: "tx_matches tx rx p s" and more: "s + 7 < length p"
    and c: "rx_block_size rx = 0 \<or> c + 1 < unat (rx_block_size rx)" "tx_block_size tx \<noteq> 0 \<Longrightarrow> unat (cf_in_block tx) = c"
    and rx': "rx_rel rx' (Collect (length p) (take (s + 7) p) ((tx_next_sn tx + 1) AND 0x0F) (c + 1))" "same_policy rx rx'"
  shows "tx_matches (tx_advance p tx) rx' p (s + 7)"
proof -
  have t: "tx_carries tx p" "tx_state tx = TX_SENDING" "unat (tx_sent tx) = s" "tx_block_size tx = rx_block_size rx"
    using m by (auto simp: tx_matches_def)
  note t' = tx_advance [OF t(1), unfolded t(3)]
  have st: "tx_state (tx_advance p tx) = TX_SENDING"
    using t(2) more t'(6) by simp
  have "unat (cf_in_block (tx_advance p tx)) = c + 1" if "rx_block_size rx \<noteq> 0"
  proof -
    have "c + 1 < 2 ^ 16"
      using c(1) that unsigned_less [of "rx_block_size rx", where ?'a = nat] by simp
    then show ?thesis
      using c(2) t(4) that unfolding t'(5) by (subst unat_Suc_lt) simp_all
  qed
  then show ?thesis
    using t'(1-5) t(4) st rx' more same_policyD [OF rx'(2)] by (auto simp: tx_matches_def pci_nibbles)
qed

lemma transfer_collect:
  assumes "tx_matches tx rx p s" and "length p - s \<le> g" and "length frame = 8"
  shows "isotp_transfer g (Some tx) rx (Some frame) = Some (Some p)"
  using assms
proof (induction g arbitrary: tx rx s frame)
  case 0
  then show ?case
    by (simp add: tx_matches_def)
next
  case (Suc g)
  from Suc.prems(1) obtain c where m: "tx_carries tx p" "tx_state tx = TX_SENDING" "unat (tx_sent tx) = s"
    "s < length p" "rx_rel rx (Collect (length p) (take s p) (tx_next_sn tx) c)"
    "tx_block_size tx \<noteq> 0 \<Longrightarrow> unat (cf_in_block tx) = c" "tx_next_sn tx AND 0x0F = tx_next_sn tx"
    "tx_block_size tx = rx_block_size rx"
    by (auto simp: tx_matches_def)
  let ?f = "cf_frame (tx_next_sn tx) (take 7 (drop s p))"
  let ?tx = "tx_advance p tx"
  let ?b = "unat (rx_block_size rx)" and ?k = "(tx_next_sn tx + 1) AND 0x0F"
  have room: "tx_block_size tx = 0 \<or> unat (cf_in_block tx) < unat (tx_block_size tx)"
    using m(5,6,8) by (cases "tx_block_size tx = 0") (simp_all add: rx_rel_def)
  have nxt: "isotp_tx_next (Some tx) (Some frame) = Some (Some ?tx, Some ?f, 8)"
    using tx_next_sending_frame [OF m(1) Suc.prems(3) _ room] m(2-4) by (simp add: isotp_tx_next_def)
  have len: "length ?f = 8"
    by (simp add: cf_frame_def)
  then have "can_frame_ok (Some ?f) 8"
    by (simp add: can_frame_ok_def)
  note ans = rx_frame_refines [OF m(5) this, unfolded spec_rx_cf_frame [OF m(4,7)]]
  consider (last) "length p \<le> s + 7" | (fc) "s + 7 < length p" "?b \<noteq> 0" "?b \<le> c + 1"
    | (more) "s + 7 < length p" "?b = 0 \<or> c + 1 < ?b"
    by linarith
  then show ?case
  proof cases
    case last
    then show ?thesis
      using ans nxt by (auto simp: rx_answers_def)
  next
    case fc
    then obtain rx' where rx': "isotp_rx_frame rx (Some ?f) 8 = Some (rx', EV_SEND_FC)"
      "rx_rel rx' (Collect (length p) (take (s + 7) p) ?k 0)" "same_policy rx rx'"
      "fc_frame rx' = fc_bytes 0 (rx_block_size rx) (rx_st_min rx)"
      using ans by (auto simp: rx_answers_def)
    have "tx_state ?tx = TX_SENDING"
      using m(2,3) fc(1) tx_advance(6) [OF m(1)] by simp
    then have f: "isotp_tx_flow_control (Some ?tx) (Some (fc_frame rx')) 8 =
        Some (Some (?tx\<lparr> tx_block_size := rx_block_size rx, tx_st_min := rx_st_min rx, cf_in_block := 0, tx_state := TX_SENDING \<rparr>), EV_NONE)"
      unfolding rx'(4) by (intro flow_control_cts) simp
    show ?thesis
      using Suc.IH [OF tx_matches_fc [OF Suc.prems(1) fc(1) rx'(2,3)] _ len] Suc.prems(2) fc(1) nxt rx'(1) f
      by (simp add: ISOTP_CAN_DLC_def)
  next
    case more
    then obtain rx' where rx': "isotp_rx_frame rx (Some ?f) 8 = Some (rx', EV_NONE)"
      "rx_rel rx' (Collect (length p) (take (s + 7) p) ?k (c + 1))" "same_policy rx rx'"
      using ans by (auto simp: rx_answers_def)
    have "rx_block_size rx = 0 \<or> c + 1 < ?b"
      using more(2) by (simp add: unat_eq_zero)
    then show ?thesis
      using Suc.IH [OF tx_matches_more [OF Suc.prems(1) more(1) _ m(6) rx'(2,3)] _ len] Suc.prems(2) more(1) nxt rx'(1)
      by simp
  qed
qed

lemma isotp_tx_begin_carries:
  assumes "1 \<le> length p" "length p \<le> 4095"
  shows "\<exists>tx. isotp_tx_begin (Some tx0) (Some p) (of_nat (length p)) = (Some tx, True) \<and> tx_carries tx p \<and>
    tx_state tx = TX_IDLE \<and> tx_next_sn tx = 1 \<and> tx_block_size tx = 0"
proof -
  have u: "unat (of_nat (length p) :: u16) = length p"
    using assms by (intro unat_of_nat_len) simp
  then have "(of_nat (length p) :: u16) \<noteq> 0" "\<not> (of_nat (length p) :: u16) > ISOTP_MAX_PAYLOAD"
    using assms by (auto simp: word_less_nat_alt ISOTP_MAX_PAYLOAD_def)
  then show ?thesis
    using assms u by (simp add: isotp_tx_begin_def tx_carries_def)
qed

lemma transfer_start:
  assumes tx: "tx_carries tx p" "tx_state tx = TX_IDLE" "tx_next_sn tx = 1"
    and g: "length p \<le> g" and frame: "length frame = 8"
  shows "isotp_transfer (Suc g) (Some tx) (isotp_rx_init ISOTP_MAX_PAYLOAD bs st) (Some frame) = Some (Some p)"
proof -
  let ?rx = "isotp_rx_init ISOTP_MAX_PAYLOAD bs st"
  have len: "1 \<le> length p" "length p \<le> 4095"
    using tx(1) by (simp_all add: tx_carries_def)
  have pol: "buffer_limit ?rx = 4095" "rx_block_size ?rx = bs" "rx_st_min ?rx = st"
    by (simp_all add: isotp_rx_init_def ISOTP_MAX_PAYLOAD_def)
  show ?thesis
  proof (cases "length p \<le> 7")
    case True
    have "can_frame_ok (Some (sf_frame p)) 8"
      using True by (simp add: can_frame_ok_def sf_frame_def)
    from rx_frame_refines [OF rx_init_rel this, of ISOTP_MAX_PAYLOAD bs st]
    have "\<exists>rx'. isotp_rx_frame ?rx (Some (sf_frame p)) 8 = Some (rx', EV_MESSAGE) \<and>
        take (unat (rx_received rx')) (rx_buf rx') = p"
      unfolding pdu_of_sf_frame [OF len(1) True] using True by (auto simp: rx_answers_def pol)
    then show ?thesis
      using tx_next_idle_single [OF tx(1) True frame] tx(2) by (auto simp: isotp_tx_next_def)
  next
    case False
    let ?tx = "tx\<lparr> tx_sent := 6, tx_state := TX_WAIT_FC \<rparr>"
    let ?tx' = "?tx\<lparr> tx_block_size := bs, tx_st_min := st, cf_in_block := 0, tx_state := TX_SENDING \<rparr>"
    have "can_frame_ok (Some (ff_frame p)) 8"
      using False by (simp add: can_frame_ok_def ff_frame_def Let_def)
    from rx_frame_refines [OF rx_init_rel this, of ISOTP_MAX_PAYLOAD bs st]
    obtain rx' where rx': "isotp_rx_frame ?rx (Some (ff_frame p)) 8 = Some (rx', EV_SEND_FC)"
      "rx_rel rx' (Collect (length p) (take 6 p) 1 0)" "same_policy ?rx rx'" "fc_frame rx' = fc_bytes 0 bs st"
      using False len by (auto simp: rx_answers_def pol pdu_of_ff_frame)
    have fc: "isotp_tx_flow_control (Some ?tx) (Some (fc_frame rx')) 8 = Some (Some ?tx', EV_NONE)"
      unfolding rx'(4) by (subst flow_control_cts) simp_all
    have "tx_matches ?tx' rx' p 6"
      using tx rx'(2) False same_policyD [OF rx'(3)] by (auto simp: tx_matches_def tx_carries_def pol)
    then have "isotp_transfer g (Some ?tx') rx' (Some (ff_frame p)) = Some (Some p)"
      using g False by (intro transfer_collect) (auto simp: ff_frame_def Let_def)
    then show ?thesis
      using tx_next_idle_first [OF tx(1) _ frame] tx(2) rx'(1) fc False
      by (simp add: isotp_tx_next_def ISOTP_CAN_DLC_def)
  qed
qed

section \<open>Sequences of calls\<close>

text \<open>\<open>tx_run\<close> returns the frames that went out.\<close>

datatype tx_op = Call_Next | Got_FC "u8 list option" u8

fun tx_run :: "tx_op list \<Rightarrow> isotp_tx \<Rightarrow> u8 list \<Rightarrow> (isotp_tx \<times> u8 list list) option" where
  "tx_run [] tx out = Some (tx, [])"
| "tx_run (Call_Next # ops) tx out = do {
     (tx1, out1, dlc) \<leftarrow> isotp_tx_next (Some tx) (Some out);
     tx1 \<leftarrow> tx1; out1 \<leftarrow> out1;
     (tx2, fs) \<leftarrow> tx_run ops tx1 out1;
     Some (tx2, if dlc = 0 then fs else out1 # fs)
   }"
| "tx_run (Got_FC data dlc # ops) tx out = do {
     (tx1, ev) \<leftarrow> isotp_tx_flow_control (Some tx) data dlc;
     tx1 \<leftarrow> tx1;
     tx_run ops tx1 out
   }"

fun clears_to_send :: "tx_op \<Rightarrow> bool" where
  "clears_to_send Call_Next = False"
| "clears_to_send (Got_FC data dlc) =
     (case data of None \<Rightarrow> False | Some d \<Rightarrow> 3 \<le> dlc \<and> d ! 0 = 0x30)"

fun fc_readable :: "tx_op \<Rightarrow> bool" where
  "fc_readable Call_Next = True"
| "fc_readable (Got_FC data dlc) = (case data of None \<Rightarrow> True | Some d \<Rightarrow> 3 \<le> dlc \<longrightarrow> 3 \<le> length d)"

definition tx_blocked :: "isotp_tx \<Rightarrow> bool" where
  "tx_blocked tx \<longleftrightarrow> tx_state tx \<in> {TX_WAIT_FC, TX_DONE, TX_ABORTED}"

lemma nibbles_eq: "drop_bit 4 x = 3 \<Longrightarrow> x AND 0x0F = 0 \<Longrightarrow> x = 0x30" for x :: u8
proof -
  assume a: "drop_bit 4 x = 3" "x AND 0x0F = 0"
  have "x = push_bit 4 (drop_bit 4 x) OR (x AND mask 4)"
    by (rule bit_word_eqI) (auto simp: bit_simps)
  also have "\<dots> = 0x30"
    using a by (simp add: mask_eq_exp_minus_1)
  finally show ?thesis .
qed

lemma blocked_next: "tx_blocked tx \<Longrightarrow> isotp_tx_next (Some tx) (Some out) = Some (Some tx, Some out, 0)"
  by (auto simp: tx_blocked_def isotp_tx_next_def)

lemma blocked_flow_control:
  assumes "tx_blocked tx" and "\<not> clears_to_send (Got_FC data dlc)" and "fc_readable (Got_FC data dlc)"
  shows "\<exists>tx' ev. isotp_tx_flow_control (Some tx) data dlc = Some (Some tx', ev) \<and> tx_blocked tx'"
proof (cases data)
  case None
  then show ?thesis
    using assms(1) by (simp add: isotp_tx_flow_control_def)
next
  case (Some d)
  show ?thesis
  proof (cases "dlc < 3")
    case True
    then show ?thesis
      using assms(1) Some by (simp add: isotp_tx_flow_control_def)
  next
    case False
    then have d: "3 \<le> length d" "d ! 0 \<noteq> 0x30"
      using assms Some by (auto simp: not_less)
    have g: "arr_get d 0 = Some (d ! 0)"
      using d(1) by (intro arr_get_Some) linarith
    show ?thesis
      using assms(1) Some False d(2) nibbles_eq [of "d ! 0"]
      by (auto simp: isotp_tx_flow_control_def g isotp_consts tx_blocked_def)
  qed
qed

lemma blocked_run:
  assumes "tx_blocked tx" and "\<And>op. op \<in> set ops \<Longrightarrow> \<not> clears_to_send op \<and> fc_readable op"
  shows "\<exists>tx'. tx_run ops tx out = Some (tx', []) \<and> tx_blocked tx'"
  using assms
proof (induction ops arbitrary: tx)
  case Nil
  then show ?case
    by simp
next
  case (Cons op ops)
  show ?case
  proof (cases op)
    case Call_Next
    then show ?thesis
      using Cons.IH [OF Cons.prems(1)] Cons.prems blocked_next [of tx out] by auto
  next
    case (Got_FC data dlc)
    then have "\<not> clears_to_send (Got_FC data dlc)" "fc_readable (Got_FC data dlc)"
      using Cons.prems(2) [of op] by simp_all
    from blocked_flow_control [OF Cons.prems(1) this]
    obtain tx1 ev where t: "isotp_tx_flow_control (Some tx) data dlc = Some (Some tx1, ev)" "tx_blocked tx1"
      by blast
    have "\<exists>tx'. tx_run ops tx1 out = Some (tx', []) \<and> tx_blocked tx'"
      using Cons.prems(2) by (intro Cons.IH [OF t(2)]) simp
    then show ?thesis
      using t(1) Got_FC by simp
  qed
qed

text \<open>A sender that has aborted stays as it is, whatever is called: it answers no flow control, a
  clear-to-send included.\<close>

lemma aborted_run:
  assumes "tx_state tx = TX_ABORTED"
  shows "list_all fc_readable ops \<Longrightarrow> tx_run ops tx out = Some (tx, [])"
proof (induction ops)
  case (Cons op ops)
  show ?case
  proof (cases op)
    case Call_Next
    then show ?thesis
      using Cons assms by (simp add: isotp_tx_next_def)
  next
    case (Got_FC data dlc)
    have "\<exists>ev. isotp_tx_flow_control (Some tx) data dlc = Some (Some tx, ev)"
    proof (cases "data = None \<or> dlc < 3")
      case True
      then show ?thesis
        by (cases data) (auto simp: isotp_tx_flow_control_def)
    next
      case False
      then obtain d where d: "data = Some d" "\<not> dlc < 3" "3 \<le> length d"
        using Cons.prems Got_FC by (auto simp: not_less)
      then have "arr_get d 0 = Some (d ! 0)"
        by (intro arr_get_Some) linarith
      then show ?thesis
        using d assms by (simp add: isotp_tx_flow_control_def)
    qed
    then show ?thesis
      using Cons Got_FC by auto
  qed
qed simp

lemma cf_frame_sn: "cf_frame (((sn + 1) AND 0x0F) + of_nat i) xs = cf_frame (sn + of_nat (Suc i)) xs"
proof -
  have "(((sn + 1) AND 0x0F) + of_nat i) AND 0x0F = (sn + of_nat (Suc i)) AND 0x0F"
  proof -
    have "unat ((((sn + 1) AND 0x0F) + of_nat i) AND 0x0F) = unat ((sn + of_nat (Suc i)) AND 0x0F)"
      unfolding nibble_mod unat_word_ariths unat_of_nat take_bit_eq_mod
      by (simp add: mod_simps mod_mod_cancel)
    then show ?thesis
      by (simp only: word_unat_eq_iff)
  qed
  then show ?thesis
    by (simp only: cf_frame_def)
qed

text \<open>How many consecutive frames may follow.\<close>

definition burst_size :: "isotp_tx \<Rightarrow> u8 list \<Rightarrow> nat" where
  "burst_size tx p = (let left = (length p - unat (tx_sent tx) + 6) div 7 in
     if tx_block_size tx = 0 then left
     else min left (unat (tx_block_size tx) - unat (cf_in_block tx)))"

text \<open>How long a burst is after its block, at its last frame, and before another.\<close>

lemma burst_size_block_end:
  "tx_block_size tx \<noteq> 0 \<Longrightarrow> unat (tx_block_size tx) \<le> unat (cf_in_block tx) \<Longrightarrow> burst_size tx p = 0"
  by (simp add: burst_size_def)

lemma burst_size_last:
  assumes "length p \<le> unat (tx_sent tx) + 7" and "unat (tx_sent tx) < length p"
    and "tx_block_size tx = 0 \<or> unat (cf_in_block tx) < unat (tx_block_size tx)"
  shows "burst_size tx p = 1"
proof -
  have "(length p - unat (tx_sent tx) + 6) div 7 = 1"
    using assms(1,2) by (intro div_nat_eqI) auto
  then show ?thesis
    using assms(3) by (auto simp: burst_size_def Let_def)
qed

lemma burst_count:
  assumes "tx_carries tx p" and "tx_block_size tx \<noteq> 0" and "unat (cf_in_block tx) < unat (tx_block_size tx)"
  shows "unat (cf_in_block (tx_advance p tx)) = unat (cf_in_block tx) + 1"
proof -
  have "unat (cf_in_block tx) + 1 < 2 ^ LENGTH(16)"
    using assms(3) unsigned_less [of "tx_block_size tx", where ?'a = nat] by auto
  then show ?thesis
    unfolding tx_advance(5) [OF assms(1)] by (rule unat_Suc_lt)
qed

lemma burst_size_Suc:
  assumes "tx_carries tx p" and "\<not> length p \<le> unat (tx_sent tx) + 7"
    and "tx_block_size tx = 0 \<or> unat (cf_in_block tx) < unat (tx_block_size tx)"
  shows "burst_size tx p = Suc (burst_size (tx_advance p tx) p)"
proof -
  let ?tx = "tx_advance p tx"
  note t' = tx_advance [OF assms(1)]
  have "unat (tx_sent ?tx) = unat (tx_sent tx) + 7"
    using t'(2) assms(2) by simp
  then have "length p - unat (tx_sent tx) + 6 = (length p - unat (tx_sent ?tx) + 6) + 7"
    using assms(2) by simp
  then have d: "(length p - unat (tx_sent tx) + 6) div 7 = Suc ((length p - unat (tx_sent ?tx) + 6) div 7)"
    by simp
  show ?thesis
  proof (cases "tx_block_size tx = 0")
    case True
    then show ?thesis
      by (simp add: burst_size_def t'(4) d del: div_mult_self2 div_mult_self1)
  next
    case False
    then have "unat (tx_block_size tx) - unat (cf_in_block tx) = Suc (unat (tx_block_size ?tx) - unat (cf_in_block ?tx))"
      using assms(3) burst_count [OF assms(1)] t'(4) by auto
    then show ?thesis
      using False by (simp only: burst_size_def Let_def t'(4) if_False d min_Suc_Suc)
  qed
qed

definition burst_frame :: "isotp_tx \<Rightarrow> u8 list \<Rightarrow> nat \<Rightarrow> u8 list" where
  "burst_frame tx p i = cf_frame (tx_next_sn tx + of_nat i) (take 7 (drop (unat (tx_sent tx) + 7 * i) p))"

lemma burst_frame_advance:
  assumes "tx_carries tx p" and "\<not> length p \<le> unat (tx_sent tx) + 7"
  shows "burst_frame (tx_advance p tx) p i = burst_frame tx p (Suc i)"
proof -
  note t' = tx_advance [OF assms(1)]
  have "unat (tx_sent (tx_advance p tx)) = unat (tx_sent tx) + 7"
    using t'(2) assms(2) by simp
  then show ?thesis
    unfolding burst_frame_def t'(3) by (simp add: cf_frame_sn add.assoc)
qed

lemma burst_frames:
  assumes "tx_carries tx p" and "tx_state tx = TX_SENDING" and "unat (tx_sent tx) < length p"
    and "tx_block_size tx \<noteq> 0 \<Longrightarrow> unat (cf_in_block tx) \<le> unat (tx_block_size tx)" and "length out = 8"
  shows "\<exists>tx'. tx_run (replicate n Call_Next) tx out = Some (tx', map (burst_frame tx p) [0..<min n (burst_size tx p)])"
  using assms
proof (induction n arbitrary: tx out)
  case 0
  then show ?case
    by simp
next
  case (Suc n)
  note c = Suc.prems
  show ?case
  proof (cases "tx_block_size tx \<noteq> 0 \<and> unat (tx_block_size tx) \<le> unat (cf_in_block tx)")
    case True
    have "\<exists>tx'. tx_run (replicate n Call_Next) (tx\<lparr> tx_state := TX_WAIT_FC \<rparr>) out = Some (tx', []) \<and> tx_blocked tx'"
      by (rule blocked_run) (auto simp: tx_blocked_def)
    then show ?thesis
      using tx_next_sending_block_end [of tx out] True c(2) burst_size_block_end [of tx p] by (auto simp: isotp_tx_next_def)
  next
    case False
    then have room: "tx_block_size tx = 0 \<or> unat (cf_in_block tx) < unat (tx_block_size tx)"
      by auto
    let ?f = "burst_frame tx p 0" and ?tx = "tx_advance p tx"
    note t' = tx_advance [OF c(1)]
    have nxt: "isotp_tx_next (Some tx) (Some out) = Some (Some ?tx, Some ?f, 8)" and lf: "length ?f = 8"
      using tx_next_sending_frame [OF c(1,5) _ room] c(2,3) by (simp_all add: isotp_tx_next_def burst_frame_def cf_frame_def)
    show ?thesis
    proof (cases "length p \<le> unat (tx_sent tx) + 7")
      case True
      then have "tx_blocked ?tx"
        by (simp add: tx_blocked_def t'(6))
      then have "\<exists>tx2. tx_run (replicate n Call_Next) ?tx ?f = Some (tx2, []) \<and> tx_blocked tx2"
        by (rule blocked_run) auto
      then show ?thesis
        using nxt burst_size_last [OF True c(3) room] by auto
    next
      case False
      then have sent: "unat (tx_sent ?tx) = unat (tx_sent tx) + 7"
        using t'(2) by simp
      have "\<exists>tx2. tx_run (replicate n Call_Next) ?tx ?f = Some (tx2, map (burst_frame ?tx p) [0..<min n (burst_size ?tx p)])"
        using False sent burst_count [OF c(1)] room c(2) lf by (intro Suc.IH t'(1)) (auto simp: t')
      moreover have "map (burst_frame tx p) [0..<Suc k] = ?f # map (burst_frame ?tx p) [0..<k]" for k
        by (subst map_upt_Suc) (simp add: burst_frame_advance [OF c(1) False])
      ultimately show ?thesis
        using nxt burst_size_Suc [OF c(1) False room]
        by (simp only: replicate_Suc tx_run.simps min_Suc_Suc bind.bind_lunit prod.case) auto
    qed
  qed
qed

lemma rx_overflow:
  assumes "8 \<le> length p" "length p \<le> 4095" "unat limit < length p"
  shows "\<exists>rx. isotp_rx_frame (isotp_rx_init limit bs st) (Some (ff_frame p)) 8 = Some (rx, EV_ERR_OVERFLOW) \<and>
    rx_buf rx = replicate 4095 0 \<and> fc_frame rx = fc_bytes 2 bs st"
proof -
  let ?rx = "isotp_rx_init limit bs st" and ?d = "ff_frame p"
  have d: "arr_get ?d 0 = Some (?d ! 0)" "arr_get ?d 1 = Some (?d ! 1)" "drop_bit 4 (?d ! 0) = 1"
    by (simp_all add: ff_frame_def Let_def mem pci_nibbles)
  have "pdu_of (Some ?d) 8 = FF (length p) (take 6 p)"
    using assms by (intro pdu_of_ff_frame)
  then have n: "256 * unat (?d ! 0 AND 0x0F) + unat (?d ! 1) = length p"
    by (auto simp: pdu_of_def d Let_def split: if_splits)
  have big: "\<not> push_bit 8 (ucast (?d ! 0 AND 0x0F)) OR ucast (?d ! 1) < (8 :: u16)"
    "push_bit 8 (ucast (?d ! 0 AND 0x0F)) OR ucast (?d ! 1) > buffer_limit ?rx"
    unfolding word_less_nat_alt ff_length n
    using assms by (simp_all add: isotp_rx_init_def ISOTP_MAX_PAYLOAD_def word_less_nat_alt)
  have fc: "build_fc (bump_overflow ?rx) 2 = Some ((bump_overflow ?rx)\<lparr> fc_frame := fc_bytes 2 bs st \<rparr>)"
    by (subst build_fc_eval) (simp_all add: bump_overflow_def isotp_rx_init_def)
  have "rx_first ?rx ?d (?d ! 0) 8 = Some (rx_abort ((bump_overflow ?rx)\<lparr> fc_frame := fc_bytes 2 bs st \<rparr>), EV_ERR_OVERFLOW)"
    unfolding rx_first_def Let_def d(2) ISOTP_FS_OVFLW_def fc
    using big by (simp add: ISOTP_CAN_DLC_def)
  then have "isotp_rx_frame ?rx (Some ?d) 8 =
      Some (rx_abort ((bump_overflow ?rx)\<lparr> fc_frame := fc_bytes 2 bs st \<rparr>), EV_ERR_OVERFLOW)"
    using d by (simp add: isotp_rx_frame_def Let_def isotp_consts)
  then show ?thesis
    by (simp add: rx_abort_def bump_overflow_def isotp_rx_init_def)
qed

section \<open>Properties\<close>

definition tx_zero :: isotp_tx where
  "tx_zero = \<lparr> tx_state = TX_IDLE, tx_payload = None, tx_total_len = 0, tx_sent = 0, tx_next_sn = 0,
     tx_block_size = 0, tx_st_min = 0, cf_in_block = 0, wait_count = 0 \<rparr>"

definition tx_20 :: isotp_tx where
  "tx_20 = tx_zero\<lparr> tx_payload := Some (replicate 20 0), tx_total_len := 20, tx_next_sn := 1 \<rparr>"

text \<open>C1. Every message of 1 to 4095 bytes arrives byte for byte, for every block size and every
  STmin the receiver asks for, and the exchange never deadlocks waiting for a flow control.\<close>

theorem isotp_round_trip_exact:
  assumes "1 \<le> length msg" and "length msg \<le> 4095" and "length frame0 = 8"
  shows "isotp_round_trip msg (of_nat (length msg)) bs st tx0 frame0 = Some (Some msg)"
proof -
  obtain tx where "isotp_tx_begin (Some tx0) (Some msg) (of_nat (length msg)) = (Some tx, True)"
    and tx: "tx_carries tx msg" "tx_state tx = TX_IDLE" "tx_next_sn tx = 1"
    using isotp_tx_begin_carries [OF assms(1,2)] by blast
  then show ?thesis
    using transfer_start [OF tx, of 19999 frame0 bs st] assms by (simp add: isotp_round_trip_def)
qed

theorem isotp_round_trip_exact_witness:
  "isotp_round_trip (replicate 4095 7) 4095 3 20 tx_zero (replicate 8 0) = Some (Some (replicate 4095 7))"
  using isotp_round_trip_exact [of "replicate 4095 7" "replicate 8 0" 3 20 tx_zero] by simp

text \<open>After the first frame nothing more goes out until a clear-to-send arrives, however often
  the caller polls and whatever other flow-control frames (WAIT, overflow, reserved, short,
  null) it feeds in.\<close>

theorem isotp_tx_waits_for_cts:
  assumes "tx_carries tx p" and "tx_state tx = TX_IDLE" and "7 < length p" and "length out = 8"
    and "\<And>op. op \<in> set ops \<Longrightarrow> \<not> clears_to_send op \<and> fc_readable op"
  shows "\<exists>tx'. tx_run (Call_Next # ops) tx out = Some (tx', [ff_frame p]) \<and> tx_blocked tx'"
proof -
  let ?tx = "tx\<lparr> tx_sent := 6, tx_state := TX_WAIT_FC \<rparr>"
  have "tx_blocked ?tx"
    by (simp add: tx_blocked_def)
  then have "\<exists>tx'. tx_run ops ?tx (ff_frame p) = Some (tx', []) \<and> tx_blocked tx'"
    using assms(5) by (rule blocked_run)
  then show ?thesis
    using tx_next_idle_first [OF assms(1,3,4)] assms(2) by (auto simp: isotp_tx_next_def)
qed

theorem isotp_tx_waits_for_cts_witness:
  "\<exists>tx'. tx_run [Call_Next, Call_Next, Got_FC (Some [0x31, 0, 0]) 3, Call_Next] tx_20 (replicate 8 0) =
     Some (tx', [ff_frame (replicate 20 0)])"
  using isotp_tx_waits_for_cts [of tx_20 "replicate 20 0" "replicate 8 0"
      "[Call_Next, Got_FC (Some [0x31, 0, 0]) 3, Call_Next]"]
  by (fastforce simp: tx_20_def tx_zero_def tx_carries_def)

text \<open>C21. A clear-to-send with block size \<open>bs\<close> releases exactly \<open>bs\<close> consecutive frames (all that
  are left if fewer, or if \<open>bs\<close> is 0), in order, with consecutive sequence numbers and the
  payload bytes from where the sender stopped, padded with 0xCC.\<close>

theorem isotp_block_size_honoured:
  assumes "tx_carries tx p" and "tx_state tx = TX_WAIT_FC" and "unat (tx_sent tx) < length p" and "length out = 8"
  shows "\<exists>tx' frames. tx_run (Got_FC (Some [0x30, bs, st]) 3 # replicate n Call_Next) tx out = Some (tx', frames) \<and>
    frames = map (\<lambda>i. cf_frame (tx_next_sn tx + of_nat i) (take 7 (drop (unat (tx_sent tx) + 7 * i) p)))
      [0..<length frames] \<and>
    length frames = (let left = (length p - unat (tx_sent tx) + 6) div 7 in
      min n (if bs = 0 then left else min left (unat bs)))"
proof -
  let ?tx = "tx\<lparr> tx_block_size := bs, tx_st_min := st, cf_in_block := 0, tx_state := TX_SENDING \<rparr>"
  have fc: "isotp_tx_flow_control (Some tx) (Some [0x30, bs, st]) 3 = Some (Some ?tx, EV_NONE)"
    using assms(2) by (simp add: isotp_tx_flow_control_def mem isotp_consts)
  have "\<exists>tx'. tx_run (replicate n Call_Next) ?tx out = Some (tx',
    map (\<lambda>i. cf_frame (tx_next_sn ?tx + of_nat i) (take 7 (drop (unat (tx_sent ?tx) + 7 * i) p)))
      [0..<min n (burst_size ?tx p)])"
    using assms by (intro burst_frames [unfolded burst_frame_def [abs_def]]) (auto simp: tx_carries_def)
  then show ?thesis
    using fc by (auto simp: burst_size_def Let_def)
qed

theorem isotp_block_size_honoured_witness:
  "\<exists>tx' frames. tx_run (Got_FC (Some [0x30, 1, 0]) 3 # replicate 5 Call_Next)
      (tx_20\<lparr> tx_state := TX_WAIT_FC, tx_sent := 6 \<rparr>) (replicate 8 0) = Some (tx', frames) \<and> length frames = 1"
  using isotp_block_size_honoured [of "tx_20\<lparr> tx_state := TX_WAIT_FC, tx_sent := 6 \<rparr>" "replicate 20 0"
      "replicate 8 0" 1 0 5]
  by (fastforce simp: tx_20_def tx_zero_def tx_carries_def)

text \<open>C22. A first frame longer than the receiver's limit is answered by an overflow: the receiver leaves
  its buffer untouched and holds a flow-control frame that makes the sender report the overflow and
  go to \<open>TX_ABORTED\<close>; from then on no sequence of calls and flow-control frames, a clear-to-send
  included, makes it send a frame or changes it.\<close>

theorem isotp_overflow_handshake:
  assumes "tx_carries tx p" and "tx_state tx = TX_IDLE" and "8 \<le> length p" and "length out = 8"
    and "unat limit < length p" and "list_all fc_readable ops"
  shows "\<exists>rx tx1 tx2. isotp_tx_next (Some tx) (Some out) = Some (Some tx1, Some (ff_frame p), 8) \<and>
    isotp_rx_frame (isotp_rx_init limit bs st) (Some (ff_frame p)) 8 = Some (rx, EV_ERR_OVERFLOW) \<and>
    rx_buf rx = replicate 4095 0 \<and>
    isotp_tx_flow_control (Some tx1) (Some (fc_frame rx)) 8 = Some (Some tx2, EV_ERR_OVERFLOW) \<and>
    tx2 = tx1\<lparr> tx_state := TX_ABORTED \<rparr> \<and> tx_run ops tx2 (ff_frame p) = Some (tx2, [])"
proof -
  obtain rx where rx: "isotp_rx_frame (isotp_rx_init limit bs st) (Some (ff_frame p)) 8 = Some (rx, EV_ERR_OVERFLOW)"
    "rx_buf rx = replicate 4095 0" "fc_frame rx = fc_bytes 2 bs st"
    using rx_overflow [of p limit bs st] assms by (auto simp: tx_carries_def)
  let ?tx = "tx\<lparr> tx_sent := 6, tx_state := TX_WAIT_FC \<rparr>"
  let ?tx' = "?tx\<lparr> tx_state := TX_ABORTED \<rparr>"
  have "isotp_tx_flow_control (Some ?tx) (Some (fc_bytes 2 bs st)) 8 = Some (Some ?tx', EV_ERR_OVERFLOW)"
    by (simp add: isotp_tx_flow_control_def fc_bytes_def mem isotp_consts)
  moreover have "tx_run ops ?tx' (ff_frame p) = Some (?tx', [])"
    using assms(6) by (intro aborted_run) simp_all
  moreover have "isotp_tx_next (Some tx) (Some out) = Some (Some ?tx, Some (ff_frame p), 8)"
    using tx_next_idle_first [OF assms(1) _ assms(4)] assms(2,3) by (simp add: isotp_tx_next_def)
  ultimately show ?thesis
    using rx by (intro exI [of _ rx] exI [of _ ?tx] exI [of _ ?tx']) simp
qed

theorem isotp_overflow_handshake_witness:
  "\<exists>rx tx1 tx2. isotp_tx_next (Some tx_20) (Some (replicate 8 0)) = Some (Some tx1, Some (ff_frame (replicate 20 0)), 8) \<and>
     isotp_rx_frame (isotp_rx_init 10 0 0) (Some (ff_frame (replicate 20 0))) 8 = Some (rx, EV_ERR_OVERFLOW) \<and>
     isotp_tx_flow_control (Some tx1) (Some (fc_frame rx)) 8 = Some (Some tx2, EV_ERR_OVERFLOW) \<and>
     tx_state tx2 = TX_ABORTED \<and>
     tx_run [Call_Next, Got_FC (Some [0x30, 0, 0]) 3, Call_Next] tx2 (ff_frame (replicate 20 0)) = Some (tx2, [])"
proof -
  have "tx_carries tx_20 (replicate 20 0)" "tx_state tx_20 = TX_IDLE"
    "list_all fc_readable [Call_Next, Got_FC (Some [0x30, 0, 0]) 3, Call_Next]"
    by (simp_all add: tx_20_def tx_zero_def tx_carries_def)
  from isotp_overflow_handshake [OF this(1,2) _ _ _ this(3), of "replicate 8 0" 10 0 0] show ?thesis
    by fastforce
qed
end
