(* ===== verification/Isotp_Tx_Safe.thy ===== *)
theory Isotp_Tx_Safe
  imports Isotp_Tx
begin

text \<open>
  The sender of \<open>src/code/portable/can/isotp.c\<close> under any use of its interface. \<open>tx_at p k tx\<close> says what
  the record holds after \<open>k\<close> frames of the payload \<open>p\<close>, in each of its five states; \<open>tx_wf\<close> is the
  type it gives the record. Every operation keeps it, none reads or writes outside its arrays,
  and the frames that go out are a prefix of \<open>segments p\<close>, whatever flow control comes back.
\<close>

section \<open>The segmentation of a message\<close>

definition segment :: "u8 list \<Rightarrow> nat \<Rightarrow> u8 list" where
  "segment p k =
     (if length p \<le> 7 then sf_frame p
      else if k = 0 then ff_frame p
      else cf_frame (of_nat k) (take 7 (drop (7 * k - 1) p)))"

definition segment_count :: "u8 list \<Rightarrow> nat" where
  "segment_count p = (if length p \<le> 7 then 1 else Suc (length p div 7))"

definition segments :: "u8 list \<Rightarrow> u8 list list" where
  "segments p = map (segment p) [0..<segment_count p]"

lemma length_segment: "length (segment p k) = 8"
  by (simp add: segment_def sf_frame_def ff_frame_def cf_frame_def Let_def)

lemma take_segments_Suc: "k < segment_count p \<Longrightarrow> take (Suc k) (segments p) = take k (segments p) @ [segment p k]"
  by (simp add: segments_def take_map)

section \<open>The well-formed sender\<close>

definition tx_at :: "u8 list \<Rightarrow> nat \<Rightarrow> isotp_tx \<Rightarrow> bool" where
  "tx_at p k tx \<longleftrightarrow> tx_carries tx p \<and>
     (case tx_state tx of
        TX_IDLE \<Rightarrow> k = 0 \<and> tx_sent tx = 0 \<and> tx_next_sn tx = 1
      | TX_DONE \<Rightarrow> k = segment_count p \<and> tx_sent tx = tx_total_len tx
      | _ \<Rightarrow> 7 < length p \<and> 1 \<le> k \<and> k < segment_count p \<and> unat (tx_sent tx) = 7 * k - 1 \<and>
          tx_next_sn tx = of_nat k AND 0x0F)"

definition tx_wf :: "u8 list \<Rightarrow> isotp_tx \<Rightarrow> bool" where
  "tx_wf p tx \<longleftrightarrow> list_ex (\<lambda>k. tx_at p k tx) [0..<Suc (segment_count p)]"

lemma tx_at_count: "tx_at p k tx \<Longrightarrow> k \<le> segment_count p"
  by (auto simp: tx_at_def split: isotp_tx_state.splits)

lemma tx_at_wf: "tx_at p k tx \<Longrightarrow> tx_wf p tx"
  using tx_at_count [of p k tx] by (auto simp: tx_wf_def list_ex_iff simp del: upt_Suc)

lemma tx_wfE:
  assumes "tx_wf p tx"
  obtains k where "tx_at p k tx"
  using assms by (auto simp: tx_wf_def list_ex_iff)

text \<open>The state of the sender, read off the invariant.\<close>

lemma tx_at_simps:
  "tx_state tx = TX_IDLE \<Longrightarrow> tx_at p k tx \<longleftrightarrow>
     tx_carries tx p \<and> k = 0 \<and> tx_sent tx = 0 \<and> tx_next_sn tx = 1"
  "tx_state tx = TX_DONE \<Longrightarrow> tx_at p k tx \<longleftrightarrow>
     tx_carries tx p \<and> k = segment_count p \<and> tx_sent tx = tx_total_len tx"
  "tx_state tx \<in> {TX_WAIT_FC, TX_SENDING, TX_ABORTED} \<Longrightarrow> tx_at p k tx \<longleftrightarrow>
     tx_carries tx p \<and> 7 < length p \<and> 1 \<le> k \<and> k < segment_count p \<and> unat (tx_sent tx) = 7 * k - 1 \<and>
     tx_next_sn tx = of_nat k AND 0x0F"
  by (auto simp: tx_at_def)

section \<open>Each operation keeps it\<close>

lemma nibble_Suc: "((of_nat k AND 0x0F) + 1) AND 0x0F = (of_nat (Suc k) AND 0x0F :: u8)"
proof -
  have "unat (((of_nat k AND 0x0F) + 1) AND 0x0F :: u8) = unat (of_nat (Suc k) AND 0x0F :: u8)"
    unfolding nibble_mod unat_word_ariths unat_of_nat take_bit_eq_mod
    by (simp add: mod_simps mod_mod_cancel)
  then show ?thesis
    by (simp only: word_unat_eq_iff)
qed

lemma cf_frame_nibble: "cf_frame (sn AND 0x0F) xs = cf_frame sn xs"
  by (simp add: cf_frame_def and.assoc)

lemma tx_begin_at:
  assumes "isotp_tx_begin (Some tx0) (Some p) (of_nat (length p)) = (Some tx, True)" and "length p < 2 ^ LENGTH(16)"
  shows "tx_at p 0 tx"
proof -
  have u: "unat (of_nat (length p) :: u16) = length p"
    using assms(2) by (rule unat_of_nat_len)
  then have "length p \<noteq> 0" "length p \<le> 4095"
    using assms(1) by (auto simp: isotp_tx_begin_def ISOTP_MAX_PAYLOAD_def word_less_nat_alt split: if_splits)
  then show ?thesis
    using assms(1) u by (auto simp: isotp_tx_begin_def tx_at_def tx_carries_def Suc_le_eq split: if_splits)
qed

lemma tx_advance_at:
  assumes "tx_at p k tx" and "tx_state tx = TX_SENDING"
  shows "tx_at p (Suc k) (tx_advance p tx)"
proof -
  have c: "tx_carries tx p" "7 < length p" "1 \<le> k" "k < segment_count p" "unat (tx_sent tx) = 7 * k - 1"
      "tx_next_sn tx = of_nat k AND 0x0F"
    using assms by (simp_all add: tx_at_simps)
  note t' = tx_advance [OF c(1)]
  have k: "k \<le> length p div 7" "segment_count p = Suc (length p div 7)"
    using c(2,4) by (simp_all add: segment_count_def)
  have sent: "unat (tx_sent tx) + 7 = 7 * Suc k - 1"
    using c(3,5) by simp
  show ?thesis
  proof (cases "length p \<le> unat (tx_sent tx) + 7")
    case True
    then have "length p div 7 = k"
      using k(1) sent by (intro div_nat_eqI) auto
    moreover have "tx_sent (tx_advance p tx) = tx_total_len (tx_advance p tx)"
      using True t'(1,2) by (simp add: tx_carries_def word_unat_eq_iff)
    ultimately show ?thesis
      using True t'(1,6) k(2) by (simp add: tx_at_simps)
  next
    case False
    then have "Suc k \<le> length p div 7"
      using sent by (subst less_eq_div_iff_mult_less_eq) auto
    moreover have "unat (tx_sent (tx_advance p tx)) = 7 * Suc k - 1"
      using False t'(2) sent by simp
    ultimately show ?thesis
      using False t'(1,6) k(2) c(2) assms(2)
      unfolding tx_at_def t'(3) c(6) nibble_Suc by simp
  qed
qed

text \<open>A call of \<open>isotp_tx_next\<close> emits the next segment, or nothing.\<close>

lemma tx_next_at:
  assumes "tx_at p k tx" and "length out = 8"
  obtains (quiet) tx' where "isotp_tx_next (Some tx) (Some out) = Some (Some tx', Some out, 0)" "tx_at p k tx'"
  | (emits) tx' where "isotp_tx_next (Some tx) (Some out) = Some (Some tx', Some (segment p k), 8)"
      "tx_at p (Suc k) tx'" "k < segment_count p"
proof (cases "tx_state tx")
  case TX_IDLE
  then have c: "tx_carries tx p" "k = 0" "tx_next_sn tx = 1"
    using assms(1) by (simp_all add: tx_at_simps)
  show thesis
  proof (cases "length p \<le> 7")
    case True
    show thesis
      by (rule emits [of "tx\<lparr> tx_sent := tx_total_len tx, tx_state := TX_DONE \<rparr>"])
        (use tx_next_idle_single [OF c(1) True assms(2)] TX_IDLE True c in
          \<open>simp_all add: isotp_tx_next_def segment_def tx_at_def segment_count_def tx_carries_def\<close>)
  next
    case False
    then have first: "tx_next_idle tx out = Some (tx\<lparr> tx_sent := 6, tx_state := TX_WAIT_FC \<rparr>, ff_frame p, 8)"
      by (intro tx_next_idle_first [OF c(1) _ assms(2)]) simp
    show thesis
      by (rule emits [of "tx\<lparr> tx_sent := 6, tx_state := TX_WAIT_FC \<rparr>"])
        (use first TX_IDLE False c in
          \<open>simp_all add: isotp_tx_next_def segment_def tx_at_def segment_count_def tx_carries_def\<close>)
  qed
next
  case TX_SENDING
  then have c: "tx_carries tx p" "7 < length p" "1 \<le> k" "k < segment_count p" "unat (tx_sent tx) = 7 * k - 1"
      "tx_next_sn tx = of_nat k AND 0x0F"
    using assms(1) by (simp_all add: tx_at_simps)
  then have k: "k \<le> length p div 7" "unat (tx_sent tx) \<le> length p"
    by (auto simp: segment_count_def)
  show thesis
  proof (cases "tx_block_size tx \<noteq> 0 \<and> unat (tx_block_size tx) \<le> unat (cf_in_block tx)")
    case True
    show thesis
      by (rule quiet [of "tx\<lparr> tx_state := TX_WAIT_FC \<rparr>"])
        (use tx_next_sending_block_end [of tx out] True TX_SENDING c in
          \<open>simp_all add: isotp_tx_next_def tx_at_def tx_carries_def\<close>)
  next
    case False
    then have room: "tx_block_size tx = 0 \<or> unat (cf_in_block tx) < unat (tx_block_size tx)"
      by auto
    have nxt: "isotp_tx_next (Some tx) (Some out) = Some (Some (tx_advance p tx), Some (segment p k), 8)"
      using tx_next_sending_frame [OF c(1) assms(2) k(2) room] TX_SENDING c
      by (simp add: isotp_tx_next_def segment_def cf_frame_nibble)
    show thesis
      using tx_advance_at [of p k tx] TX_SENDING assms(1) by (intro emits [OF nxt _ c(4)]) simp
  qed
qed (use assms(1) in \<open>auto intro!: quiet simp: isotp_tx_next_def\<close>)

text \<open>A flow-control frame changes the state, never the count.\<close>

lemma tx_flow_control_at:
  assumes "tx_at p k tx" and "fc_readable (Got_FC data dlc)"
  obtains tx' ev where "isotp_tx_flow_control (Some tx) data dlc = Some (Some tx', ev)" "tx_at p k tx'"
proof (cases data)
  case None
  with assms(1) show thesis
    by (intro that [of tx]) (auto simp: isotp_tx_flow_control_def)
next
  case (Some d)
  show thesis
  proof (cases "dlc < 3 \<or> tx_state tx \<notin> {TX_WAIT_FC, TX_SENDING}")
    case True
    have "arr_get d 0 = Some (d ! 0)" if "\<not> dlc < 3"
      using assms(2) Some that by (intro arr_get_Some) auto
    then have "\<exists>ev. isotp_tx_flow_control (Some tx) data dlc = Some (Some tx, ev)"
      using True Some by (cases "dlc < 3") (auto simp: isotp_tx_flow_control_def)
    then obtain ev where "isotp_tx_flow_control (Some tx) data dlc = Some (Some tx, ev)"
      by blast
    then show thesis
      using assms(1) by (rule that)
  next
    case False
    then have st: "tx_state tx \<in> {TX_WAIT_FC, TX_SENDING}" and d: "3 \<le> length d"
      using assms(2) Some by auto
    have g: "arr_get d 0 = Some (d ! 0)" "arr_get d 1 = Some (d ! 1)" "arr_get d 2 = Some (d ! 2)"
      using d by (intro arr_get_Some; linarith)+
    have upd: "tx_at p k tx'" if "tx_carries tx' p" "tx_sent tx' = tx_sent tx" "tx_next_sn tx' = tx_next_sn tx"
        "tx_state tx' \<in> {TX_WAIT_FC, TX_SENDING, TX_ABORTED}" for tx'
      using assms(1) st that tx_at_simps(3) [of tx p k] tx_at_simps(3) [of tx' p k] by auto
    let ?low = "d ! 0 AND 0x0F"
    define tx' where "tx' = (if drop_bit 4 (d ! 0) \<noteq> ISOTP_PCI_FC then tx
      else if ?low = ISOTP_FS_CTS
      then tx\<lparr> tx_block_size := d ! 1, tx_st_min := d ! 2, cf_in_block := 0, tx_state := TX_SENDING \<rparr>
      else if ?low = ISOTP_FS_WAIT then tx\<lparr> wait_count := wait_count tx + 1, tx_state := TX_WAIT_FC \<rparr>
      else tx\<lparr> tx_state := TX_ABORTED \<rparr>)"
    have "tx_at p k tx'"
      using st assms(1) by (intro upd) (auto simp: tx'_def tx_at_def tx_carries_def)
    moreover have "\<exists>ev. isotp_tx_flow_control (Some tx) data dlc = Some (Some tx', ev)"
      using st Some False by (auto simp: isotp_tx_flow_control_def g g(2) [unfolded One_nat_def] tx'_def)
    ultimately show thesis
      using that by blast
  qed
qed

lemma tx_run_at:
  assumes "tx_at p k tx" and "length out = 8" and "list_all fc_readable ops"
  shows "\<exists>tx' n. tx_run ops tx out = Some (tx', map (segment p) [k..<n]) \<and> tx_at p n tx' \<and> k \<le> n"
  using assms
proof (induction ops arbitrary: tx out k)
  case Nil
  then show ?case
    by auto
next
  case (Cons op ops)
  show ?case
  proof (cases op)
    case Call_Next
    show ?thesis
      using Cons.prems(1,2)
    proof (cases rule: tx_next_at)
      case (quiet tx')
      with Cons.IH [OF quiet(2) Cons.prems(2)] Cons.prems(3) Call_Next show ?thesis
        by auto
    next
      case (emits tx')
      obtain tx2 n where "tx_run ops tx' (segment p k) = Some (tx2, map (segment p) [Suc k..<n])"
          "tx_at p n tx2" "Suc k \<le> n"
        using Cons.IH [OF emits(2) length_segment [of p k]] Cons.prems(3) by auto
      then show ?thesis
        using emits(1) Call_Next upt_conv_Cons [of k n] by (auto intro!: exI [of _ n])
    qed
  next
    case (Got_FC data dlc)
    obtain tx' ev where fc: "isotp_tx_flow_control (Some tx) data dlc = Some (Some tx', ev)" "tx_at p k tx'"
      using tx_flow_control_at [OF Cons.prems(1), of data dlc] Cons.prems(3) Got_FC by (metis list.pred_inject(2))
    with Cons.IH [OF fc(2) Cons.prems(2)] Cons.prems(3) Got_FC show ?thesis
      by auto
  qed
qed

section \<open>Properties\<close>

text \<open>C40. The sender's record is well formed from \<open>isotp_tx_begin\<close> on: every operation is defined (it
  stays inside its arrays) and returns a well-formed record, for every payload, every output frame
  and every readable flow-control frame.\<close>

theorem isotp_tx_well_formed:
  assumes "length p < 2 ^ LENGTH(16)" and "length out = 8" and "fc_readable (Got_FC data dlc)"
  shows "(case isotp_tx_begin (Some tx0) (Some p) (of_nat (length p)) of
      (tx, ok) \<Rightarrow> if ok then (case tx of None \<Rightarrow> False | Some t \<Rightarrow> tx_wf p t) else tx = Some tx0) \<and>
    (tx_wf p tx \<longrightarrow>
      (case isotp_tx_next (Some tx) (Some out) of
        Some (Some tx', Some out', sent) \<Rightarrow> tx_wf p tx' \<and> length out' = 8 \<and> sent \<in> {0, 8} | _ \<Rightarrow> False) \<and>
      (case isotp_tx_flow_control (Some tx) data dlc of Some (Some tx', ev) \<Rightarrow> tx_wf p tx' | _ \<Rightarrow> False))"
proof (intro conjI impI)
  show "case isotp_tx_begin (Some tx0) (Some p) (of_nat (length p)) of
      (tx, ok) \<Rightarrow> if ok then (case tx of None \<Rightarrow> False | Some t \<Rightarrow> tx_wf p t) else tx = Some tx0"
    using tx_begin_at [of tx0 p] assms(1) by (auto simp: isotp_tx_begin_def tx_at_wf)
next
  assume "tx_wf p tx"
  then obtain k where k: "tx_at p k tx"
    by (rule tx_wfE)
  show "case isotp_tx_next (Some tx) (Some out) of
      Some (Some tx', Some out', sent) \<Rightarrow> tx_wf p tx' \<and> length out' = 8 \<and> sent \<in> {0, 8} | _ \<Rightarrow> False"
    using k assms(2) by (cases rule: tx_next_at) (simp_all add: tx_at_wf length_segment assms(2))
  show "case isotp_tx_flow_control (Some tx) data dlc of Some (Some tx', ev) \<Rightarrow> tx_wf p tx' | _ \<Rightarrow> False"
    using k assms(3) by (cases rule: tx_flow_control_at) (simp add: tx_at_wf)
qed

theorem isotp_tx_well_formed_witness:
  "case isotp_tx_next (Some tx_20) (Some (replicate 8 0)) of
     Some (Some tx', Some out', sent) \<Rightarrow> tx_wf (replicate 20 0) tx' | _ \<Rightarrow> False"
proof -
  have "tx_at (replicate 20 0) 0 tx_20"
    by (simp add: tx_at_def tx_carries_def tx_20_def tx_zero_def)
  then show ?thesis
    using isotp_tx_well_formed [of "replicate 20 0" "replicate 8 0" None 0 tx_zero tx_20] tx_at_wf
    by (auto split: option.splits)
qed

text \<open>C16. Whatever sequence of calls and flow-control frames a sender sees after \<open>isotp_tx_begin\<close>, the
  frames it puts on the bus are the first frames of the message's segmentation, in order, each
  once; it reports the end exactly when all of them are out.\<close>

theorem isotp_tx_emits_segments:
  assumes "isotp_tx_begin (Some tx0) (Some p) (of_nat (length p)) = (Some tx, True)" and "length p < 2 ^ LENGTH(16)"
    and "length out = 8" and "list_all fc_readable ops"
  shows "\<exists>tx' n. tx_run ops tx out = Some (tx', take n (segments p)) \<and> n \<le> length (segments p) \<and>
    (tx_state tx' = TX_DONE \<longleftrightarrow> n = length (segments p))"
proof -
  obtain tx' n where run: "tx_run ops tx out = Some (tx', map (segment p) [0..<n])" "tx_at p n tx'"
    using tx_run_at [OF tx_begin_at [OF assms(1,2)] assms(3,4)] by blast
  then have "n \<le> segment_count p" "tx_state tx' = TX_DONE \<longleftrightarrow> n = segment_count p"
    using tx_at_count [of p n tx'] by (auto simp: tx_at_def segment_count_def split: isotp_tx_state.splits if_splits)
  then show ?thesis
    using run(1) by (auto simp: segments_def take_map intro!: exI [of _ n])
qed

theorem isotp_tx_emits_segments_witness:
  "\<exists>tx' n. tx_run [Call_Next, Got_FC (Some [0x30, 1, 0]) 3, Call_Next, Call_Next] tx_20 (replicate 8 0) =
     Some (tx', take n (segments (replicate 20 0)))"
  using isotp_tx_emits_segments [of tx_zero "replicate 20 0" tx_20 "replicate 8 0"
      "[Call_Next, Got_FC (Some [0x30, 1, 0]) 3, Call_Next, Call_Next]"]
  by (auto simp: isotp_tx_begin_def tx_20_def tx_zero_def ISOTP_MAX_PAYLOAD_def)

end
