(* ===== verification/Isotp_Lossy.thy ===== *)
theory Isotp_Lossy
  imports Isotp_Tx_Safe
begin

unbundle bit_operations_syntax

text \<open>
  A message over a bus that loses and repeats frames, at the receiver of
  \<open>src/code/portable/can/isotp.c\<close>. The four bits of a sequence number do not show the loss of sixteen
  frames in a row, as the comment in the code says; the length of the first frame does: what is
  missing is never made up within the message.
\<close>

section \<open>What is left of a message\<close>

text \<open>\<open>survives p ks\<close>: the frames \<open>ks\<close> of \<open>p\<close> arrive, some not at all and some again, in the order they
  were sent.\<close>

definition survives :: "u8 list \<Rightarrow> nat list \<Rightarrow> bool" where
  "survives p ks \<longleftrightarrow> sorted ks \<and> list_all (\<lambda>k. k < segment_count p) ks"

definition arriving :: "u8 list \<Rightarrow> nat list \<Rightarrow> (u8 list option \<times> u8) list" where
  "arriving p = map (\<lambda>k. (Some (segment p k), 8))"

lemma survives_snoc: "survives p (ks @ [k]) \<longleftrightarrow> survives p ks \<and> (\<forall>j \<in> set ks. j \<le> k) \<and> k < segment_count p"
  by (auto simp: survives_def sorted_append)

text \<open>The receiver after the frames \<open>ks\<close>: it has taken \<open>a + 1\<close> of them. The last frame was as least as far
  as that in the message, by a multiple of sixteen; if not farther, all before it were taken too.\<close>

definition lossy_inv :: "u8 list \<Rightarrow> nat list \<Rightarrow> reassembly \<Rightarrow> bool" where
  "lossy_inv p ks s \<longleftrightarrow> (case s of Idle \<Rightarrow> True
     | Collect n xs sn c \<Rightarrow> n = length p \<and> ks \<noteq> [] \<and>
         (\<exists>a. length xs = 6 + 7 * a \<and> 6 + 7 * a < length p \<and> sn = of_nat (Suc a) AND 0x0F \<and>
           a \<le> last ks \<and> last ks mod 16 = a mod 16 \<and>
           (last ks = a \<longrightarrow> xs = take (6 + 7 * a) p \<and> {..a} \<subseteq> set ks)))"

lemma nibble_eq: "(of_nat a AND 0x0F :: u8) = of_nat b AND 0x0F \<longleftrightarrow> a mod 16 = b mod 16"
  by (simp add: word_unat_eq_iff nibble_mod unat_of_nat take_bit_eq_mod mod_mod_cancel)

lemma mod_16_Suc: "a mod 16 \<noteq> Suc a mod 16"
  by (simp add: mod_Suc)

lemma cf_extends:
  assumes "length xs = 6 + 7 * a" and "6 + 7 * a < length p" and "length ys = 7"
  shows "length (xs @ take (length p - length xs) ys) = min (length p) (6 + 7 * Suc a)"
  using assms by auto

lemma cf_extends_take:
  assumes "6 + 7 * a < length p"
  shows "take (6 + 7 * a) p @ take (length p - length (take (6 + 7 * a) p))
      (take 7 (drop (6 + 7 * a) p) @ replicate (7 - length (take 7 (drop (6 + 7 * a) p))) 0xCC) = take (6 + 7 * Suc a) p"
  using cf_collect [OF assms] by simp

text \<open>One more frame.\<close>

lemma lossy_first:
  assumes "8 \<le> length p" and "length p \<le> 4095"
    and "spec_rx l b s (pdu_of (Some (segment p 0)) 8) = (s', ev, m)"
  shows "lossy_inv p (ks @ [0]) s' \<and> m = None"
proof -
  have "pdu_of (Some (segment p 0)) 8 = FF (length p) (take 6 p)"
    using pdu_of_ff_frame [OF assms(1,2)] assms(1) by (simp add: segment_def)
  then show ?thesis
    using assms by (auto simp: lossy_inv_def split: if_splits)
qed

lemma lossy_next:
  assumes inv: "lossy_inv p ks s" and p: "8 \<le> length p" and k: "0 < k" "k < segment_count p"
    and later: "\<forall>j \<in> set ks. j \<le> k"
    and step: "spec_rx l b s (pdu_of (Some (segment p k)) 8) = (s', ev, m)"
  shows "lossy_inv p (ks @ [k]) s' \<and> (\<forall>q. m = Some q \<longrightarrow> q = p \<and> {..<segment_count p} \<subseteq> set (ks @ [k]))"
proof -
  let ?chunk = "take 7 (drop (7 * k - 1) p)"
  let ?ys = "?chunk @ replicate (7 - length ?chunk) 0xCC"
  have pdu: "pdu_of (Some (segment p k)) 8 = CF (of_nat k AND 0x0F) ?ys"
    using p k(1) by (simp add: segment_def pdu_of_cf_frame)
  show ?thesis
  proof (cases s)
    case Idle
    then show ?thesis
      using step by (auto simp: pdu lossy_inv_def)
  next
    case (Collect n xs sn c)
    then obtain a where a: "n = length p" "ks \<noteq> []" "length xs = 6 + 7 * a" "6 + 7 * a < length p"
        "sn = of_nat (Suc a) AND 0x0F" "a \<le> last ks" "last ks mod 16 = a mod 16"
        "last ks = a \<Longrightarrow> xs = take (6 + 7 * a) p \<and> {..a} \<subseteq> set ks"
      using inv by (auto simp: lossy_inv_def)
    show ?thesis
    proof (cases "(of_nat k AND 0x0F) = sn")
      case False
      then show ?thesis
        using step Collect by (auto simp: pdu lossy_inv_def Let_def)
    next
      case True
      then have same: "k mod 16 = Suc a mod 16"
        by (simp add: a(5) nibble_eq del: of_nat_Suc)
      have "last ks \<le> k"
        using later a(2) by simp
      moreover have "last ks \<noteq> k"
        using same a(7) mod_16_Suc [of a] by metis
      ultimately have farther: "Suc a \<le> k" "k = Suc a \<Longrightarrow> last ks = a"
        using a(6) by linarith+
      define xs' where "xs' = xs @ take (length p - length xs) ?ys"
      have len: "length xs' = min (length p) (6 + 7 * Suc a)"
        unfolding xs'_def by (rule cf_extends [OF a(3,4)]) simp
      have exact: "xs' = take (6 + 7 * Suc a) p" "{..Suc a} \<subseteq> set (ks @ [k])" if "k = Suc a"
      proof -
        have i: "7 * k - 1 = 6 + 7 * a"
          using that by simp
        have "xs = take (6 + 7 * a) p" "{..a} \<subseteq> set ks"
          using a(8) farther(2) that by blast+
        then show "xs' = take (6 + 7 * Suc a) p" "{..Suc a} \<subseteq> set (ks @ [k])"
          unfolding xs'_def i using cf_extends_take [OF a(4)] that by (simp_all only:) (auto simp: atMost_Suc)
      qed
      have taken: "spec_rx l b s (pdu_of (Some (segment p k)) 8) =
        (if length xs' = length p then (Idle, EV_MESSAGE, Some xs')
         else if b \<noteq> 0 \<and> b \<le> c + 1 then (Collect (length p) xs' ((sn + 1) AND 0x0F) 0, EV_SEND_FC, None)
         else (Collect (length p) xs' ((sn + 1) AND 0x0F) (c + 1), EV_NONE, None))"
        unfolding pdu Collect a(1) spec_rx.simps Let_def xs'_def [symmetric] using True by simp
      show ?thesis
      proof (cases "length p \<le> 6 + 7 * Suc a")
        case True
        have "k \<le> length p div 7"
          using k(2) p by (simp add: segment_count_def)
        moreover have "length p div 7 < Suc (Suc a)"
          using True by (intro div_less_iff_less_mult [THEN iffD2]) simp_all
        ultimately have e: "k = Suc a" "segment_count p = Suc k"
          using farther(1) k(2) p by (simp_all add: segment_count_def)
        then have "xs' = p" "{..<segment_count p} \<subseteq> set (ks @ [k])"
          using exact True by (simp_all add: lessThan_Suc_atMost)
        then show ?thesis
          using step unfolding taken by (auto simp: lossy_inv_def)
      next
        case False
        then have len': "length xs' = 6 + 7 * Suc a"
          using len by simp
        then have "m = None" "s' = Idle \<or> (\<exists>c'. s' = Collect (length p) xs' ((sn + 1) AND 0x0F) c')"
          using step False unfolding taken by (auto split: if_splits)
        moreover have "(sn + 1) AND 0x0F = of_nat (Suc (Suc a)) AND 0x0F"
          unfolding a(5) by (rule nibble_Suc)
        moreover have "lossy_inv p (ks @ [k]) (Collect (length p) xs' (of_nat (Suc (Suc a)) AND 0x0F) c')" for c'
          using len' False farther(1) same exact
          by (simp add: lossy_inv_def del: of_nat_Suc) (intro exI [of _ "Suc a"], simp)
        ultimately show ?thesis
          by (auto simp: lossy_inv_def [of _ _ Idle])
      qed
    qed
  qed
qed

lemma lossy_step:
  assumes "lossy_inv p ks s" and "1 \<le> length p" and "length p \<le> 4095" and "survives p (ks @ [k])"
    and "spec_rx l b s (pdu_of (Some (segment p k)) 8) = (s', ev, m)"
  shows "lossy_inv p (ks @ [k]) s' \<and> (\<forall>q. m = Some q \<longrightarrow> q = p \<and> {..<segment_count p} \<subseteq> set (ks @ [k]))"
proof (cases "length p \<le> 7")
  case True
  then have "k = 0" "segment_count p = 1"
    using assms(4) by (simp_all add: survives_snoc segment_count_def)
  moreover have "pdu_of (Some (segment p k)) 8 = SF p"
    using True pdu_of_sf_frame [OF assms(2)] by (simp add: segment_def)
  ultimately show ?thesis
    using assms(5) by (auto simp: lossy_inv_def split: if_splits)
next
  case False
  then have p: "8 \<le> length p"
    by simp
  show ?thesis
  proof (cases "k = 0")
    case True
    then show ?thesis
      using lossy_first [OF p assms(3)] assms(5) by fastforce
  next
    case False
    then have "0 < k" "k < segment_count p" "\<forall>j \<in> set ks. j \<le> k"
      using assms(4) by (simp_all add: survives_snoc)
    then show ?thesis
      by (rule lossy_next [OF assms(1) p _ _ _ assms(5)])
  qed
qed

section \<open>The receiver\<close>

lemma lossy_run:
  assumes "rx_rel rx Idle" and "1 \<le> length p" and "length p \<le> 4095" and "survives p ks"
  shows "\<exists>rx' es s. isotp_rx_run rx (arriving p ks) = Some (rx', es) \<and> rx_rel rx' s \<and> lossy_inv p ks s \<and> length es = length ks \<and>
    (ks \<noteq> [] \<and> last es = EV_MESSAGE \<longrightarrow>
      take (unat (rx_received rx')) (rx_buf rx') = p \<and> {..<segment_count p} \<subseteq> set ks)"
  using assms(4)
proof (induction ks rule: rev_induct)
  case Nil
  then show ?case
    using assms(1) by (auto simp: arriving_def lossy_inv_def)
next
  case (snoc k ks)
  then obtain rx1 es s where run: "isotp_rx_run rx (arriving p ks) = Some (rx1, es)" "rx_rel rx1 s" "lossy_inv p ks s"
      "length es = length ks"
    by (auto simp: survives_snoc)
  obtain s' ev m where sp: "spec_rx (unat (buffer_limit rx1)) (unat (rx_block_size rx1)) s (pdu_of (Some (segment p k)) 8) = (s', ev, m)"
    by (metis prod_cases3)
  have "rx_answers rx1 (isotp_rx_frame rx1 (Some (segment p k)) 8) (s', ev, m)"
    using rx_frame_refines [OF run(2), of "Some (segment p k)" 8] by (simp add: can_frame_ok_def length_segment sp)
  then obtain rx' where rx': "isotp_rx_frame rx1 (Some (segment p k)) 8 = Some (rx', ev)" "rx_rel rx' s'"
      "m = (if ev = EV_MESSAGE then Some (take (unat (rx_received rx')) (rx_buf rx')) else None)"
    unfolding rx_answers_def fst_conv snd_conv by blast
  have "isotp_rx_run rx (arriving p (ks @ [k])) = Some (rx', es @ [ev])"
    using run(1) rx'(1) by (simp add: arriving_def machine_run_append)
  then show ?case
    using lossy_step [OF run(3) assms(2,3) snoc.prems sp] rx'(2,3) run(4)
    by (intro exI [of _ rx'] exI [of _ "es @ [ev]"] exI [of _ s']) auto
qed

section \<open>Properties\<close>

text \<open>C14. A bus that loses and repeats frames never makes the receiver deliver a wrong message: when the
  frames of a message arrive in the order they were sent, any of them lost, sixteen in a row
  included, and any of them more than once, the receiver stays inside its arrays, and if it
  reports a message it holds exactly the one that was sent, every frame of which has arrived.\<close>

theorem isotp_lossy_bus:
  assumes "rx_rel rx Idle" and "1 \<le> length p" and "length p \<le> 4095" and "survives p ks"
  shows "\<exists>rx' es. isotp_rx_run rx (arriving p ks) = Some (rx', es) \<and> length es = length ks \<and>
    (ks \<noteq> [] \<and> last es = EV_MESSAGE \<longrightarrow>
      take (unat (rx_received rx')) (rx_buf rx') = p \<and> (\<forall>k < segment_count p. k \<in> set ks))"
  using lossy_run [OF assms] by (auto simp: subset_iff)

theorem isotp_lossy_bus_witness:
  "\<exists>rx' es. isotp_rx_run (isotp_rx_init 4095 0 0) (arriving (replicate 130 7) [0, 1, 1, 18]) = Some (rx', es) \<and>
    last es \<noteq> EV_MESSAGE"
proof -
  have "survives (replicate 130 7) [0, 1, 1, 18]"
    by (simp add: survives_def segment_count_def)
  from isotp_lossy_bus [OF rx_init_rel _ _ this, of 4095 0 0] obtain rx' es
    where "isotp_rx_run (isotp_rx_init 4095 0 0) (arriving (replicate 130 7) [0, 1, 1, 18]) = Some (rx', es)"
      "last es = EV_MESSAGE \<longrightarrow> (\<forall>k < segment_count (replicate 130 (7 :: u8)). k \<in> {0, 1, 18})"
    by (auto simp del: machine_run.simps)
  moreover have "2 < segment_count (replicate 130 (7 :: u8))"
    by (simp add: segment_count_def)
  ultimately show ?thesis
    by fastforce
qed

text \<open>Between messages nothing of the kind holds without the timeouts that the comment leaves to the
  transport: when the end of one message and the first frame of the next are lost, the receiver
  delivers a mixture of both.\<close>

lemma two_messages_mix:
  "map_option (\<lambda>(rx, es). (take (unat (rx_received rx)) (rx_buf rx), es))
     (isotp_rx_run (isotp_rx_init 64 0 0)
       (arriving (replicate 20 1) [0, 1] @ arriving (replicate 20 2) [2])) =
   Some (replicate 13 1 @ replicate 7 2, [EV_SEND_FC, EV_NONE, EV_MESSAGE])"
  by code_simp

end
