(* ===== verification/Isotp_Messages.thy ===== *)
theory Isotp_Messages
  imports Isotp_Lossy Deliveries "HOL-Library.Sublist"
begin

unbundle bit_operations_syntax

text \<open>
  Many messages, one after the other, at the receiver of \<open>src/code/portable/can/isotp.c\<close>. Frames may be
  lost and repeated, whole messages too; what may not happen is that the first frame of a message is lost
  while a later one arrives, for then \<open>two_messages_mix\<close> shows a mixture.
\<close>

section \<open>What the receiver delivers\<close>

definition rx_obs :: "isotp_rx \<Rightarrow> isotp_event \<Rightarrow> u8 list option" where
  "rx_obs rx ev = (if ev = EV_MESSAGE then Some (take (unat (rx_received rx)) (rx_buf rx)) else None)"

abbreviation rx_deliveries :: "isotp_rx \<Rightarrow> (u8 list option \<times> u8) list \<Rightarrow> (isotp_rx \<times> u8 list list) option" where
  "rx_deliveries \<equiv> machine_outputs isotp_rx_step rx_obs"

definition spec_delivery :: "nat \<Rightarrow> nat \<Rightarrow> reassembly \<Rightarrow> u8 list option \<times> u8 \<Rightarrow> reassembly \<times> u8 list option" where
  "spec_delivery l b s f = (case spec_rx l b s (pdu_of (fst f) (snd f)) of (s', ev, m) \<Rightarrow> (s', m))"

interpretation delivering: output_refinement isotp_rx_step rx_obs
  "spec_delivery (unat (buffer_limit rx0)) (unat (rx_block_size rx0))" "\<lambda>rx s. rx_rel rx s \<and> same_policy rx0 rx"
  "\<lambda>f. can_frame_ok (fst f) (snd f)" for rx0
proof
  fix rx s f
  assume A: "rx_rel rx s \<and> same_policy rx0 rx" "can_frame_ok (fst f) (snd f)"
  obtain s' ev m where sp: "spec_rx (unat (buffer_limit rx0)) (unat (rx_block_size rx0)) s (pdu_of (fst f) (snd f)) = (s', ev, m)"
    by (metis prod_cases3)
  then have "rx_answers rx (isotp_rx_frame rx (fst f) (snd f)) (s', ev, m)"
    using rx_frame_refines [OF _ A(2), of rx s] A(1) same_policyD [of rx0 rx] by simp
  then obtain rx' where "isotp_rx_frame rx (fst f) (snd f) = Some (rx', ev)" "rx_rel rx' s'" "same_policy rx rx'"
      "m = (if ev = EV_MESSAGE then Some (take (unat (rx_received rx')) (rx_buf rx')) else None)"
    unfolding rx_answers_def fst_conv snd_conv by (elim exE conjE) (rule that)
  moreover from this have "same_policy rx0 rx'"
    using A(1) by (simp add: same_policy_def)
  ultimately show "\<exists>rx' e. isotp_rx_step rx f = Some (rx', e) \<and>
      rx_obs rx' e = snd (spec_delivery (unat (buffer_limit rx0)) (unat (rx_block_size rx0)) s f) \<and>
      rx_rel rx' (fst (spec_delivery (unat (buffer_limit rx0)) (unat (rx_block_size rx0)) s f)) \<and> same_policy rx0 rx'"
    by (simp add: spec_delivery_def sp rx_obs_def)
qed

section \<open>One message\<close>

text \<open>A message and the frames of it that arrive.\<close>

type_synonym transmission = "u8 list \<times> nat list"

definition goes_through :: "transmission \<Rightarrow> bool" where
  "goes_through x \<longleftrightarrow> (case x of (p, ks) \<Rightarrow> 1 \<le> length p \<and> length p \<le> 4095 \<and> survives p ks \<and>
     (ks \<noteq> [] \<longrightarrow> hd ks = 0) \<and> (length p \<le> 7 \<longrightarrow> length ks \<le> 1))"

definition unbroken :: "nat \<Rightarrow> transmission \<Rightarrow> bool" where
  "unbroken limit x \<longleftrightarrow> (case x of (p, ks) \<Rightarrow> ks = [0..<segment_count p] \<and> length p \<le> limit)"

lemma spec_delivery_segment:
  assumes "spec_rx l b s (pdu_of (Some (segment p k)) 8) = (s1, ev, m)"
  shows "spec_outputs (spec_delivery l b) s (arriving p (k # ks)) =
    (case spec_outputs (spec_delivery l b) s1 (arriving p ks) of (s', ms) \<Rightarrow>
      (s', case m of None \<Rightarrow> ms | Some y \<Rightarrow> y # ms))"
proof -
  have "spec_delivery l b s (Some (segment p k), 8) = (s1, m)"
    using assms by (simp add: spec_delivery_def)
  then show ?thesis
    by (simp add: arriving_def)
qed

text \<open>An idle receiver delivers nothing of consecutive frames.\<close>

lemma idle_delivers_nothing:
  "8 \<le> length p \<Longrightarrow> 0 \<notin> set ks \<Longrightarrow> spec_outputs (spec_delivery l b) Idle (arriving p ks) = (Idle, [])"
proof (induction ks)
  case (Cons k ks)
  then have "spec_rx l b Idle (pdu_of (Some (segment p k)) 8) = (Idle, EV_ERR_UNEXPECTED, None)"
    by (simp add: segment_def pdu_of_cf_frame)
  then show ?case
    using Cons by (simp add: spec_delivery_segment)
qed (simp add: arriving_def)

text \<open>Whatever is left of a message is delivered at most once: with the message, its last frame has
  arrived.\<close>

lemma rest_delivered_once:
  assumes "lossy_inv p ks s" and "8 \<le> length p" and "length p \<le> 4095" and "survives p (ks @ js)"
    and "spec_outputs (spec_delivery l b) s (arriving p js) = (s', ms)"
  shows "ms = [] \<or> ms = [p]"
  using assms(1,4,5)
proof (induction js arbitrary: ks s ms)
  case Nil
  then show ?case
    by (simp add: arriving_def)
next
  case (Cons j js)
  obtain s1 ev m where sp: "spec_rx l b s (pdu_of (Some (segment p j)) 8) = (s1, ev, m)"
    by (metis prod_cases3)
  obtain ms1 where ms1: "spec_outputs (spec_delivery l b) s1 (arriving p js) = (s', ms1)"
      "ms = (case m of None \<Rightarrow> ms1 | Some y \<Rightarrow> y # ms1)"
    using Cons.prems(3) spec_delivery_segment [OF sp, of js] by (auto split: prod.splits)
  have sv: "survives p (ks @ [j])" "survives p ((ks @ [j]) @ js)"
    using Cons.prems(2) by (auto simp: survives_def sorted_append)
  have step: "lossy_inv p (ks @ [j]) s1" "\<And>q. m = Some q \<Longrightarrow> q = p \<and> {..<segment_count p} \<subseteq> set (ks @ [j])"
    using lossy_step [OF Cons.prems(1) _ assms(3) sv(1) sp] assms(2) by auto
  show ?case
  proof (cases m)
    case None
    then show ?thesis
      using Cons.IH [OF step(1) sv(2) ms1(1)] ms1(2) by simp
  next
    case (Some q)
    then have q: "q = p" "{..<segment_count p} \<subseteq> set (ks @ [j])"
      using step(2) by auto
    have "s1 = Idle"
      using sp Some by (cases "(l, b, s, pdu_of (Some (segment p j)) 8)" rule: spec_rx.cases)
        (auto simp: Let_def split: if_splits)
    have last: "segment_count p - 1 \<in> set (ks @ [j])" "0 < segment_count p - 1"
      using q(2) assms(2) by (auto simp: segment_count_def)
    then have "segment_count p - 1 \<le> j"
      using sv(1) by (auto simp: survives_snoc)
    then have "0 \<notin> set js"
      using last(2) sv(2) by (auto simp: survives_def sorted_append)
    then show ?thesis
      using ms1 Some q(1) \<open>s1 = Idle\<close> idle_delivers_nothing [OF assms(2)] by simp
  qed
qed

text \<open>An unbroken message is delivered.\<close>

lemma rest_delivered:
  assumes "8 \<le> length p" and "0 < k" and "7 * k - 1 < length p"
  shows "snd (spec_outputs (spec_delivery l b) (Collect (length p) (take (7 * k - 1) p) (of_nat k AND 0x0F) c)
    (arriving p [k..<segment_count p])) = [p]"
  using assms(2,3)
proof (induction "segment_count p - k" arbitrary: k c)
  case 0
  then have "length p div 7 < k"
    using assms(1) by (simp add: segment_count_def)
  then show ?case
    using 0 by (auto simp: div_less_iff_less_mult)
next
  case (Suc n)
  let ?s = "7 * k - 1"
  have idx: "[k..<segment_count p] = k # [Suc k..<segment_count p]"
    using Suc.hyps(2) by (intro upt_conv_Cons) simp
  have seg: "segment p k = cf_frame (of_nat k AND 0x0F) (take 7 (drop ?s p))"
    using assms(1) Suc.prems(1) by (simp add: segment_def cf_frame_nibble)
  have nib: "(of_nat k AND 0x0F) AND 0x0F = (of_nat k AND 0x0F :: u8)"
    by (simp add: and.assoc)
  note sp = spec_rx_cf_frame [OF Suc.prems(2) nib, of l b c, folded seg]
  have after: "?s + 7 = 7 * Suc k - 1"
    using Suc.prems(1) by simp
  show ?case
  proof (cases "length p \<le> ?s + 7")
    case True
    then have none: "[Suc k..<segment_count p] = []"
      using assms(1) Suc.prems(1) by (auto simp: segment_count_def)
    have sp1: "spec_rx l b (Collect (length p) (take ?s p) (of_nat k AND 0x0F) c) (pdu_of (Some (segment p k)) 8) =
        (Idle, EV_MESSAGE, Some p)"
      using sp True by simp
    show ?thesis
      unfolding idx none spec_delivery_segment [OF sp1] by (simp add: arriving_def)
  next
    case False
    obtain c' ev where "spec_rx l b (Collect (length p) (take ?s p) (of_nat k AND 0x0F) c) (pdu_of (Some (segment p k)) 8) =
        (Collect (length p) (take (7 * Suc k - 1) p) (of_nat (Suc k) AND 0x0F) c', ev, None)"
      using sp False unfolding after nibble_Suc by (auto split: if_splits)
    moreover have "n = segment_count p - Suc k"
      using Suc.hyps(2) by simp
    moreover have "7 * Suc k - 1 < length p"
      using False after by simp
    ultimately show ?thesis
      unfolding idx using Suc.hyps(1) [of "Suc k" c'] by (simp add: spec_delivery_segment split_beta)
  qed
qed

lemma transmission_delivers:
  assumes "goes_through (p, ks)"
  shows "snd (spec_outputs (spec_delivery l b) s (arriving p ks)) \<in> {[], [p]} \<and>
    (unbroken l (p, ks) \<longrightarrow> snd (spec_outputs (spec_delivery l b) s (arriving p ks)) = [p])"
proof (cases ks)
  case Nil
  then show ?thesis
    by (simp add: arriving_def unbroken_def segment_count_def)
next
  case (Cons k js)
  then have g: "1 \<le> length p" "length p \<le> 4095" "survives p (0 # js)" "k = 0" "length p \<le> 7 \<Longrightarrow> js = []"
    using assms by (auto simp: goes_through_def)
  show ?thesis
  proof (cases "length p \<le> 7")
    case True
    have "pdu_of (Some (segment p 0)) 8 = SF p"
      using True pdu_of_sf_frame [OF g(1)] by (simp add: segment_def)
    then have "spec_delivery l b s (Some (segment p 0), 8) = (Idle, if length p \<le> l then Some p else None)"
      by (simp add: spec_delivery_def)
    then show ?thesis
      using g(5) [OF True] Cons g(4) True by (auto simp: arriving_def unbroken_def segment_count_def)
  next
    case False
    then have p: "8 \<le> length p"
      by simp
    obtain s1 ev m where sp: "spec_rx l b s (pdu_of (Some (segment p 0)) 8) = (s1, ev, m)"
      by (metis prod_cases3)
    have first: "lossy_inv p ([] @ [0]) s1" "m = None"
      using lossy_first [OF p g(2) sp, of "[]"] by simp_all
    have split: "snd (spec_outputs (spec_delivery l b) s (arriving p ks)) = snd (spec_outputs (spec_delivery l b) s1 (arriving p js))"
      using spec_delivery_segment [OF sp, of js] first(2) Cons g(4) by (simp add: split_beta)
    have "snd (spec_outputs (spec_delivery l b) s1 (arriving p js)) \<in> {[], [p]}"
      using rest_delivered_once [OF first(1) p g(2), of js] g(3) by (metis append.left_neutral append_Cons insertI1 insertI2 prod.collapse)
    moreover have "snd (spec_outputs (spec_delivery l b) s1 (arriving p js)) = [p]" if "unbroken l (p, ks)"
    proof -
      have "pdu_of (Some (segment p 0)) 8 = FF (length p) (take 6 p)"
        using pdu_of_ff_frame [OF p g(2)] p by (simp add: segment_def)
      then have "s1 = Collect (length p) (take (7 * 1 - 1) p) (of_nat 1 AND 0x0F) 0"
        using sp that by (auto simp: unbroken_def)
      moreover have "js = [1..<segment_count p]"
        using that Cons p by (auto simp: unbroken_def upt_conv_Cons segment_count_def)
      ultimately show ?thesis
        using rest_delivered [OF p, of 1 l b 0] p by simp
    qed
    ultimately show ?thesis
      unfolding split by blast
  qed
qed

section \<open>Many messages\<close>

abbreviation on_the_bus :: "transmission list \<Rightarrow> (u8 list option \<times> u8) list" where
  "on_the_bus xs \<equiv> concat (map (\<lambda>(p, ks). arriving p ks) xs)"

lemma messages_delivered:
  assumes "list_all goes_through xs"
  shows "subseq (snd (spec_outputs (spec_delivery l b) s (on_the_bus xs))) (map fst xs) \<and>
    subseq (map fst (filter (unbroken l) xs)) (snd (spec_outputs (spec_delivery l b) s (on_the_bus xs)))"
  using assms
proof (induction xs arbitrary: s)
  case (Cons x xs)
  obtain p ks where x: "x = (p, ks)"
    by fastforce
  obtain s1 ms1 where o1: "spec_outputs (spec_delivery l b) s (arriving p ks) = (s1, ms1)"
    by fastforce
  obtain s2 ms2 where o2: "spec_outputs (spec_delivery l b) s1 (on_the_bus xs) = (s2, ms2)"
    by fastforce
  have one: "ms1 = [] \<or> ms1 = [p]" "unbroken l (p, ks) \<Longrightarrow> ms1 = [p]"
    using transmission_delivers [of p ks l b s] Cons.prems x o1 by auto
  have rest: "subseq ms2 (map fst xs)" "subseq (map fst (filter (unbroken l) xs)) ms2"
    using Cons.IH [of s1] Cons.prems o2 by auto
  have "snd (spec_outputs (spec_delivery l b) s (on_the_bus (x # xs))) = ms1 @ ms2"
    using o1 o2 by (simp add: x spec_outputs_append)
  then show ?case
    using one rest by (auto simp: x)
qed simp

section \<open>Properties\<close>

text \<open>C15. A receiver on a bus that loses and repeats frames delivers, of any number of messages sent one
  after the other, a subsequence: each delivered message is one that was sent, complete and
  unchanged, none is delivered twice and none overtakes another; and every message that fits the
  buffer and whose frames all arrive once is delivered. The hypothesis is that of a multi-frame
  message nothing arrives without its first frame, and that a single frame is not repeated.\<close>

theorem isotp_lossy_messages:
  assumes "rx_rel rx s" and "list_all goes_through xs"
  shows "\<exists>rx' ms. rx_deliveries rx (on_the_bus xs) = Some (rx', ms) \<and> subseq ms (map fst xs) \<and>
    subseq (map fst (filter (unbroken (unat (buffer_limit rx))) xs)) ms"
proof -
  have "list_all (\<lambda>f. can_frame_ok (fst f) (snd f)) (on_the_bus xs)"
    by (auto simp: list_all_iff arriving_def can_frame_ok_def length_segment)
  then show ?thesis
    using delivering.run_outputs [of rx s rx "on_the_bus xs"] assms(1)
      messages_delivered [OF assms(2), of "unat (buffer_limit rx)" "unat (rx_block_size rx)" s]
    by (auto simp: same_policy_def)
qed

theorem isotp_lossy_messages_witness:
  "\<exists>rx' ms. rx_deliveries (isotp_rx_init 64 0 0)
      (on_the_bus [(replicate 20 1, [0, 1, 2]), (replicate 20 2, [0, 2]), ([3], [0])]) = Some (rx', ms) \<and>
    subseq [replicate 20 1, [3]] ms \<and> subseq ms [replicate 20 1, replicate 20 2, [3]]"
proof -
  let ?xs = "[(replicate 20 1, [0, 1, 2]), (replicate 20 2, [0, 2]), ([3], [0])] :: transmission list"
  have g: "list_all goes_through ?xs"
    by (simp add: goes_through_def survives_def segment_count_def)
  have "unat (buffer_limit (isotp_rx_init 64 0 0)) = 64"
    by (simp add: isotp_rx_init_def ISOTP_MAX_PAYLOAD_def)
  then have "map fst (filter (unbroken (unat (buffer_limit (isotp_rx_init 64 0 0)))) ?xs) = [replicate 20 1, [3]]"
    by (simp add: unbroken_def segment_count_def upt_rec)
  then show ?thesis
    using isotp_lossy_messages [OF rx_init_rel g, of 64 0 0] by fastforce
qed

end
