(* ===== verification/Rtc.thy ===== *)
theory Rtc
  imports Prelude "HOL-Library.Product_Lexorder"
begin

text \<open>
  The calendar helpers of \<open>src/peripherals/rtc-examples/rtc_math.h\<close>: leap years, month lengths,
  BCD bytes, and the conversions between a date and the seconds since 2000-01-01. An output
  pointer is the value it points to, \<open>None\<close> when null; \<open>unsigned\<close> is 32 bits. The specification
  counts days with prefix sums of the year and month lengths; the locale \<open>unit_table\<close> proves
  once, for any table of non-empty units, that a position in the table is unique and ordered,
  and is interpreted for the years of the cycle and for the months of a year.
\<close>

section \<open>Dates and BCD\<close>

record rtc_date =
  year :: u32
  month :: u32
  day :: u32
  hour :: u32
  minute :: u32
  second :: u32

definition rtc_is_leap :: "u32 \<Rightarrow> bool" where
  "rtc_is_leap y \<longleftrightarrow> y mod 4 = 0 \<and> (y mod 100 \<noteq> 0 \<or> y mod 400 = 0)"

definition rtc_month_days :: "u32 \<Rightarrow> u32 \<Rightarrow> u32" where
  "rtc_month_days y m =
     (if m < 1 \<or> m > 12 then 0
      else ([31, 28, 31, 30, 31, 30, 31, 31, 30, 31, 30, 31] ! unat (m - 1)) +
        (if m = 2 \<and> rtc_is_leap y then 1 else 0))"

definition rtc_date_valid :: "rtc_date option \<Rightarrow> bool" where
  "rtc_date_valid d = (case d of None \<Rightarrow> False | Some d \<Rightarrow>
     year d \<ge> 2000 \<and> year d \<le> 2399 \<and> month d \<ge> 1 \<and> month d \<le> 12 \<and> day d \<ge> 1 \<and>
     day d \<le> rtc_month_days (year d) (month d) \<and> hour d < 24 \<and> minute d < 60 \<and> second d < 60)"

definition rtc_bcd_decode :: "u8 \<Rightarrow> u32 \<Rightarrow> u32 option \<Rightarrow> bool \<times> u32 option" where
  "rtc_bcd_decode raw max_value out =
     (let hi = ucast (drop_bit 4 raw); lo = ucast (raw AND 15) in
      if out = None \<or> max_value > 99 \<or> hi > 9 \<or> lo > 9 then (False, out)
      else let value = 10 * hi + lo in
        if value > max_value then (False, out) else (True, Some value))"

definition rtc_bcd_encode :: "u32 \<Rightarrow> u8 option \<Rightarrow> bool \<times> u8 option" where
  "rtc_bcd_encode value out =
     (if out = None \<or> value > 99 then (False, out)
      else (True, Some (ucast (push_bit 4 (value div 10) OR (value mod 10)))))"

section \<open>Conversions\<close>

text \<open>The two summing loops of \<open>rtc_to_epoch2000\<close>.\<close>

function year_loop :: "u32 \<Rightarrow> u32 \<Rightarrow> u64 \<Rightarrow> u64" where
  "year_loop y stop days =
     (if y < stop then year_loop (y + 1) stop (days + (if rtc_is_leap y then 366 else 365)) else days)"
  by auto
termination
  by (relation "measure (\<lambda>(y, stop, days). unat stop - unat y)")
    (auto simp: word_less_nat_alt unat_Suc_below)

function month_loop :: "u32 \<Rightarrow> u32 \<Rightarrow> u32 \<Rightarrow> u64 \<Rightarrow> u64" where
  "month_loop y m stop days =
     (if m < stop then month_loop y (m + 1) stop (days + ucast (rtc_month_days y m)) else days)"
  by auto
termination
  by (relation "measure (\<lambda>(y, m, stop, days). unat stop - unat m)")
    (auto simp: word_less_nat_alt unat_Suc_below)

declare year_loop.simps [simp del] month_loop.simps [simp del]

definition rtc_to_epoch2000 :: "rtc_date option \<Rightarrow> u64 option \<Rightarrow> bool \<times> u64 option" where
  "rtc_to_epoch2000 d out =
     (if out = None \<or> \<not> rtc_date_valid d then (False, out)
      else case d of None \<Rightarrow> (False, out) | Some d \<Rightarrow>
        let days = year_loop 2000 (year d) 0;
            days = month_loop (year d) 1 (month d) days;
            days = days + ucast (day d - 1)
        in (True, Some (days * 86400 + ucast (hour d) * 3600 + ucast (minute d) * 60 + ucast (second d))))"

definition RTC_EPOCH2000_LIMIT :: u64 where "RTC_EPOCH2000_LIMIT = 146097 * 86400"

text \<open>The two subtracting loops of \<open>rtc_from_epoch2000\<close>. The second never ends once the month
  passes 12, where \<open>rtc_month_days\<close> is 0: its value is then \<open>None\<close>.\<close>

function year_walk :: "u32 \<Rightarrow> u64 \<Rightarrow> u32 \<times> u64" where
  "year_walk y days =
     (let n = (if rtc_is_leap y then 366 else 365) in
      if days < n then (y, days) else year_walk (y + 1) (days - n))"
  by auto
termination
  by (relation "measure (\<lambda>(y, days). unat days)")
    (auto simp: word_less_nat_alt not_less word_le_nat_alt unat_minus_le)

declare year_walk.simps [simp del]

partial_function (option) month_walk :: "u32 \<Rightarrow> u32 \<Rightarrow> u64 \<Rightarrow> (u32 \<times> u64) option" where
  "month_walk y m days =
     (if days \<ge> ucast (rtc_month_days y m)
      then month_walk y (m + 1) (days - ucast (rtc_month_days y m))
      else Some (m, days))"

definition rtc_from_epoch2000 :: "u64 \<Rightarrow> rtc_date option \<Rightarrow> (bool \<times> rtc_date option) option" where
  "rtc_from_epoch2000 seconds out =
     (if out = None \<or> seconds \<ge> RTC_EPOCH2000_LIMIT then Some (False, out)
      else let days = seconds div 86400; within = ucast (seconds mod 86400) :: u32;
               (y, days) = year_walk 2000 days
        in do {
          (m, days) \<leftarrow> month_walk y 1 days;
          Some (True, Some \<lparr> year = y, month = m, day = ucast days + 1, hour = within div 3600,
            minute = within mod 3600 div 60, second = within mod 60 \<rparr>)
        })"

section \<open>Tables of units\<close>

definition prefix_sum :: "(nat \<Rightarrow> nat) \<Rightarrow> nat \<Rightarrow> nat \<Rightarrow> nat" where
  "prefix_sum len lo k = sum_list (map len [lo..<k])"

locale unit_table =
  fixes len :: "nat \<Rightarrow> nat" and lo hi :: nat
  assumes nonempty: "lo \<le> k \<Longrightarrow> k < hi \<Longrightarrow> 0 < len k" and range: "lo \<le> hi"
begin

lemma prefix_Suc: "lo \<le> k \<Longrightarrow> prefix_sum len lo (Suc k) = prefix_sum len lo k + len k"
  by (simp add: prefix_sum_def)

lemma prefix_mono:
  assumes "a \<le> b" and "lo \<le> a"
  shows "prefix_sum len lo a \<le> prefix_sum len lo b"
  using assms by (induction rule: dec_induct) (auto simp: prefix_Suc)

lemma before: "lo \<le> a \<Longrightarrow> a < b \<Longrightarrow> r < len a \<Longrightarrow> prefix_sum len lo a + r < prefix_sum len lo b + s"
  using prefix_Suc [of a] prefix_mono [of "Suc a" b] by simp

lemma position_unique:
  assumes "lo \<le> a" "lo \<le> b" "r < len a" "s < len b"
    and "prefix_sum len lo a + r = prefix_sum len lo b + s"
  shows "a = b \<and> r = s"
  using assms before [of a b r s] before [of b a s r] by (cases a b rule: linorder_cases) auto

lemma position_order:
  assumes "lo \<le> a" "lo \<le> b" "r < len a" "s < len b"
  shows "prefix_sum len lo a + r < prefix_sum len lo b + s \<longleftrightarrow> (a, r) < (b, s)"
  using assms before [of a b r s] before [of b a s r] by (cases a b rule: linorder_cases) auto

lemma position_bound: "lo \<le> a \<Longrightarrow> a < hi \<Longrightarrow> r < len a \<Longrightarrow> prefix_sum len lo a + r < prefix_sum len lo hi"
  using before [of a hi r 0] by simp

lemma in_range: "lo \<le> a \<Longrightarrow> prefix_sum len lo a < prefix_sum len lo hi \<Longrightarrow> a < hi"
  using prefix_mono [of hi a] range by (cases "a < hi") auto

end

section \<open>The calendar\<close>

definition year_len :: "nat \<Rightarrow> nat" where
  "year_len y = (if y mod 4 = 0 \<and> (y mod 100 \<noteq> 0 \<or> y mod 400 = 0) then 366 else 365)"

definition month_len :: "nat \<Rightarrow> nat \<Rightarrow> nat" where
  "month_len y m = ([31, 28, 31, 30, 31, 30, 31, 31, 30, 31, 30, 31] ! (m - 1)) +
     (if m = 2 \<and> year_len y = 366 then 1 else 0)"

interpretation years: unit_table year_len 2000 2400
  by unfold_locales (auto simp: year_len_def)

lemma month_cases: "1 \<le> m \<Longrightarrow> m < (13 :: nat) \<Longrightarrow> m \<in> {1, 2, 3, 4, 5, 6, 7, 8, 9, 10, 11, 12}"
  unfolding insert_iff empty_iff by arith

interpretation months: unit_table "month_len y" 1 13 for y
proof unfold_locales
  fix k :: nat assume "1 \<le> k" "k < 13"
  then show "0 < month_len y k"
    using month_cases [of k] by (auto simp: month_len_def)
qed simp

lemma year_total: "prefix_sum year_len 2000 2400 = 146097"
  by (simp add: prefix_sum_def year_len_def)

lemma month_total: "prefix_sum (month_len y) 1 13 = year_len y"
  by (simp add: prefix_sum_def month_len_def upt_rec year_len_def)

section \<open>The loops compute prefix sums\<close>

lemma leap_len: "(if rtc_is_leap y then 366 else 365) = year_len (unat y)"
  by (simp add: rtc_is_leap_def year_len_def word_unat_eq_iff unat_mod)

lemma year_len_unat: "unat (if rtc_is_leap y then 366 else 365 :: u64) = year_len (unat y)"
  by (simp add: rtc_is_leap_def year_len_def word_unat_eq_iff unat_mod)

lemma month_days_len:
  assumes "1 \<le> unat m" "unat m < 13"
  shows "unat (rtc_month_days y m) = month_len (unat y) (unat m)"
proof -
  have l: "rtc_is_leap y \<longleftrightarrow> year_len (unat y) = 366"
    using leap_len [of y] by (auto split: if_splits)
  have m: "m = word_of_nat (unat m)"
    by simp
  from month_cases [OF assms] show ?thesis
    by (subst (1) m, elim insertE) (auto simp: rtc_month_days_def month_len_def l)
qed

lemma month_days_beyond: "unat m < 13 \<or> rtc_month_days y m = 0"
  by (auto simp: rtc_month_days_def word_less_nat_alt)

lemma prefix_years: "k \<le> 2400 \<Longrightarrow> 2000 \<le> k \<Longrightarrow> prefix_sum year_len 2000 k \<le> 146097"
  using years.prefix_mono [of k 2400] year_total by simp

lemma prefix_months: "1 \<le> k \<Longrightarrow> k \<le> 13 \<Longrightarrow> prefix_sum (month_len y) 1 k \<le> 366"
  using months.prefix_mono [of k 13 y] month_total [of y] by (simp add: year_len_def split: if_splits)

lemma year_loop_sum:
  assumes "unat acc = prefix_sum year_len 2000 (unat y)"
    and "2000 \<le> unat y" "unat y \<le> unat stop" "unat stop \<le> 2400"
  shows "unat (year_loop y stop acc) = prefix_sum year_len 2000 (unat stop)"
  using assms
proof (induction y stop acc rule: year_loop.induct)
  case (1 y stop days)
  show ?case
  proof (cases "y < stop")
    case True
    then have lt: "unat y < unat stop"
      by (simp add: word_less_nat_alt)
    note S = unat_Suc_below [OF lt]
    have p: "prefix_sum year_len 2000 (unat (y + 1)) = unat days + year_len (unat y)"
      using "1.prems"(1,2) by (simp add: S years.prefix_Suc)
    have le: "unat days + year_len (unat y) \<le> 146097"
      using prefix_years [of "unat (y + 1)"] lt "1.prems"(2,4) S p by simp
    have "unat (days + (if rtc_is_leap y then 366 else 365)) = unat days + year_len (unat y)"
      using le by (subst unat_add_lt) (simp_all only: year_len_unat, simp)
    then have "unat (year_loop (y + 1) stop (days + (if rtc_is_leap y then 366 else 365))) = prefix_sum year_len 2000 (unat stop)"
      using True lt "1.prems" p S by (intro "1.IH") simp_all
    then show ?thesis
      using True by (subst year_loop.simps) simp
  next
    case False
    then show ?thesis
      using "1.prems" by (subst year_loop.simps) (simp add: word_less_nat_alt)
  qed
qed

lemma month_loop_sum:
  assumes "unat acc = base + prefix_sum (month_len (unat y)) 1 (unat m)" and "base \<le> 146097"
    and "1 \<le> unat m" "unat m \<le> unat stop" "unat stop < 13"
  shows "unat (month_loop y m stop acc) = base + prefix_sum (month_len (unat y)) 1 (unat stop)"
  using assms
proof (induction y m stop acc rule: month_loop.induct)
  case (1 y m stop days)
  show ?case
  proof (cases "m < stop")
    case True
    then have lt: "unat m < unat stop"
      by (simp add: word_less_nat_alt)
    note S = unat_Suc_below [OF lt]
    have d: "unat (ucast (rtc_month_days y m) :: u64) = month_len (unat y) (unat m)"
      using lt "1.prems"(3,5) by (simp add: unat_widen month_days_len)
    have p: "base + prefix_sum (month_len (unat y)) 1 (unat (m + 1)) = unat days + month_len (unat y) (unat m)"
      using "1.prems"(1,3) months.prefix_Suc [of "unat m" "unat y"] by (simp add: S)
    have le: "unat days + month_len (unat y) (unat m) \<le> 146097 + 366"
      using prefix_months [of "unat (m + 1)" "unat y"] lt "1.prems" S p by simp
    have "unat (days + ucast (rtc_month_days y m)) = unat days + month_len (unat y) (unat m)"
      using le by (subst unat_add_lt) (simp_all only: d, simp)
    then have "unat (month_loop y (m + 1) stop (days + ucast (rtc_month_days y m))) =
        base + prefix_sum (month_len (unat y)) 1 (unat stop)"
      using True lt "1.prems" p S by (intro "1.IH") simp_all
    then show ?thesis
      using True by (subst month_loop.simps) simp
  next
    case False
    then show ?thesis
      using "1.prems" by (subst month_loop.simps) (simp add: word_less_nat_alt)
  qed
qed

lemma year_walk_finds:
  assumes "prefix_sum year_len 2000 (unat y) + unat days < 146097" and "2000 \<le> unat y"
  shows "\<exists>y' d. year_walk y days = (y', d) \<and> 2000 \<le> unat y' \<and> unat y' < 2400 \<and> unat d < year_len (unat y') \<and>
    prefix_sum year_len 2000 (unat y') + unat d = prefix_sum year_len 2000 (unat y) + unat days"
  using assms
proof (induction y days rule: year_walk.induct)
  case (1 y days)
  have r: "unat y < 2400"
    using "1.prems" years.in_range [of "unat y"] year_total by simp
  let ?n = "if rtc_is_leap y then 366 else 365 :: u64"
  show ?case
  proof (cases "days < ?n")
    case True
    then have "unat days < year_len (unat y)"
      by (simp only: word_less_nat_alt year_len_unat)
    then show ?thesis
      using True "1.prems" r by (subst year_walk.simps) simp
  next
    case False
    then have le: "year_len (unat y) \<le> unat days"
      by (simp only: word_less_nat_alt year_len_unat not_less)
    have S: "unat (y + 1) = Suc (unat y)"
      using r by (subst unat_Suc_lt) simp_all
    have d: "unat (days - ?n) = unat days - year_len (unat y)"
      using False by (subst unat_minus_le) (simp_all only: not_less year_len_unat)
    have p: "prefix_sum year_len 2000 (unat (y + 1)) + unat (days - ?n) =
        prefix_sum year_len 2000 (unat y) + unat days"
      using le "1.prems"(2) unfolding d S by (simp add: years.prefix_Suc)
    have "\<exists>y' d. year_walk (y + 1) (days - ?n) = (y', d) \<and> 2000 \<le> unat y' \<and> unat y' < 2400 \<and>
      unat d < year_len (unat y') \<and>
      prefix_sum year_len 2000 (unat y') + unat d = prefix_sum year_len 2000 (unat (y + 1)) + unat (days - ?n)"
      using False "1.prems" p S by (intro "1.IH") simp_all
    then show ?thesis
      using False p by (subst year_walk.simps) (simp only: Let_def if_False)
  qed
qed

lemma month_walk_finds:
  assumes "prefix_sum (month_len (unat y)) 1 (unat m) + unat days < year_len (unat y)" and "1 \<le> unat m" "unat m < 13"
  shows "\<exists>m' d. month_walk y m days = Some (m', d) \<and> 1 \<le> unat m' \<and> unat m' < 13 \<and>
    unat d < month_len (unat y) (unat m') \<and>
    prefix_sum (month_len (unat y)) 1 (unat m') + unat d = prefix_sum (month_len (unat y)) 1 (unat m) + unat days"
  using assms
proof (induction "unat days" arbitrary: m days rule: less_induct)
  case less
  let ?n = "ucast (rtc_month_days y m) :: u64"
  have n: "unat ?n = month_len (unat y) (unat m)"
    using less.prems by (simp add: unat_widen month_days_len)
  show ?case
  proof (cases "days \<ge> ?n")
    case False
    then have "unat days < month_len (unat y) (unat m)"
      by (simp only: word_le_nat_alt n not_le)
    then show ?thesis
      using False less.prems by (subst month_walk.simps) simp
  next
    case True
    then have le: "month_len (unat y) (unat m) \<le> unat days"
      by (simp only: word_le_nat_alt n)
    have S: "unat (m + 1) = Suc (unat m)"
      using less.prems(3) by (subst unat_Suc_lt) simp_all
    have d: "unat (days - ?n) = unat days - month_len (unat y) (unat m)"
      using True n by (subst unat_minus_le) simp_all
    have p: "prefix_sum (month_len (unat y)) 1 (unat (m + 1)) + unat (days - ?n) =
        prefix_sum (month_len (unat y)) 1 (unat m) + unat days"
      using le less.prems(2) months.prefix_Suc [of "unat m" "unat y"] unfolding d S by simp
    have "prefix_sum (month_len (unat y)) 1 (unat (m + 1)) < prefix_sum (month_len (unat y)) 1 13"
      using p less.prems(1) unfolding month_total by linarith
    then have r: "unat (m + 1) < 13"
      using S by (intro months.in_range [of "unat (m + 1)" "unat y"]) simp_all
    have pos: "0 < month_len (unat y) (unat m)"
      using less.prems by (intro months.nonempty)
    have "\<exists>m' d. month_walk y (m + 1) (days - ?n) = Some (m', d) \<and> 1 \<le> unat m' \<and> unat m' < 13 \<and>
      unat d < month_len (unat y) (unat m') \<and>
      prefix_sum (month_len (unat y)) 1 (unat m') + unat d =
        prefix_sum (month_len (unat y)) 1 (unat (m + 1)) + unat (days - ?n)"
    proof (rule less.hyps)
      show "unat (days - ?n) < unat days"
        using d le pos by simp
    qed (use less.prems p r S in simp_all)
    then show ?thesis
      using True p by (subst month_walk.simps) (simp only: if_True)
  qed
qed

section \<open>Seconds of a date\<close>

definition epoch_days :: "rtc_date \<Rightarrow> nat" where
  "epoch_days d = prefix_sum year_len 2000 (unat (year d)) +
     (prefix_sum (month_len (unat (year d))) 1 (unat (month d)) + (unat (day d) - 1))"

definition day_seconds :: "rtc_date \<Rightarrow> nat" where
  "day_seconds d = (unat (hour d) * 60 + unat (minute d)) * 60 + unat (second d)"

definition epoch_seconds :: "rtc_date \<Rightarrow> nat" where
  "epoch_seconds d = epoch_days d * 86400 + day_seconds d"

definition date_fields :: "rtc_date \<Rightarrow> nat \<times> nat \<times> nat \<times> nat \<times> nat \<times> nat" where
  "date_fields d = (unat (year d), unat (month d), unat (day d), unat (hour d), unat (minute d), unat (second d))"

lemma valid_iff:
  "rtc_date_valid (Some d) \<longleftrightarrow> 2000 \<le> unat (year d) \<and> unat (year d) < 2400 \<and> 1 \<le> unat (month d) \<and>
     unat (month d) < 13 \<and> 1 \<le> unat (day d) \<and> unat (day d) \<le> month_len (unat (year d)) (unat (month d)) \<and>
     unat (hour d) < 24 \<and> unat (minute d) < 60 \<and> unat (second d) < 60"
  by (auto simp: rtc_date_valid_def word_le_nat_alt word_less_nat_alt month_days_len)

lemma month_position:
  assumes "rtc_date_valid (Some d)"
  shows "prefix_sum (month_len (unat (year d))) 1 (unat (month d)) + (unat (day d) - 1) < year_len (unat (year d))"
  using months.position_bound [of "unat (month d)" "unat (day d) - 1" "unat (year d)"] assms
  unfolding month_total valid_iff by linarith

lemma day_seconds_bound: "rtc_date_valid (Some d) \<Longrightarrow> day_seconds d < 86400"
  by (simp add: valid_iff day_seconds_def)

lemma epoch_days_bound: "rtc_date_valid (Some d) \<Longrightarrow> epoch_days d < 146097"
  using years.position_bound [OF _ _ month_position, of d] by (simp add: valid_iff epoch_days_def year_total)

lemma radix_order: "b < k \<Longrightarrow> b' < k \<Longrightarrow> a * k + b < a' * k + b' \<longleftrightarrow> a < a' \<or> a = a' \<and> b < b'" for a b :: nat
proof (cases a a' rule: linorder_cases)
  case less
  assume "b < k"
  then have "a * k + b < Suc a * k" by simp
  also have "\<dots> \<le> a' * k" using less by (intro mult_le_mono1) simp
  finally show ?thesis using less by simp
next
  case greater
  assume "b' < k"
  then have "a' * k + b' < Suc a' * k" by simp
  also have "\<dots> \<le> a * k" using greater by (intro mult_le_mono1) simp
  finally show ?thesis using greater by simp
qed simp

lemma epoch_days_order:
  assumes "rtc_date_valid (Some d)" "rtc_date_valid (Some e)"
  shows "epoch_days d < epoch_days e \<longleftrightarrow>
    (unat (year d), unat (month d), unat (day d)) < (unat (year e), unat (month e), unat (day e))"
proof -
  let ?md = "\<lambda>d. prefix_sum (month_len (unat (year d))) 1 (unat (month d)) + (unat (day d) - 1)"
  have "epoch_days d < epoch_days e \<longleftrightarrow> (unat (year d), ?md d) < (unat (year e), ?md e)"
    unfolding epoch_days_def using assms
    by (intro years.position_order month_position) (simp_all add: valid_iff)
  moreover have "?md d < ?md e \<longleftrightarrow> (unat (month d), unat (day d) - 1) < (unat (month e), unat (day e) - 1)"
    if "unat (year d) = unat (year e)"
    unfolding that using assms that
    by (intro months.position_order) (auto simp: valid_iff)
  ultimately show ?thesis
    using assms by (auto simp: valid_iff)
qed

lemma epoch_order:
  assumes "rtc_date_valid (Some d)" "rtc_date_valid (Some e)"
  shows "epoch_seconds d < epoch_seconds e \<longleftrightarrow> date_fields d < date_fields e"
proof -
  have days: "epoch_days d = epoch_days e \<longleftrightarrow>
      unat (year d) = unat (year e) \<and> unat (month d) = unat (month e) \<and> unat (day d) = unat (day e)"
    using epoch_days_order [OF assms] epoch_days_order [OF assms(2,1)]
    by (auto simp: epoch_days_def)
  have secs: "day_seconds d < day_seconds e \<longleftrightarrow>
      (unat (hour d), unat (minute d), unat (second d)) < (unat (hour e), unat (minute e), unat (second e))"
    using assms unfolding day_seconds_def
    by (subst radix_order) (auto simp: valid_iff radix_order)
  show ?thesis
    unfolding epoch_seconds_def radix_order [OF day_seconds_bound day_seconds_bound, OF assms]
    using days epoch_days_order [OF assms] secs by (auto simp: date_fields_def)
qed

lemma epoch_inj:
  assumes "rtc_date_valid (Some d)" "rtc_date_valid (Some e)" and "epoch_seconds d = epoch_seconds e"
  shows "d = e"
proof -
  have "date_fields d = date_fields e"
    using epoch_order [OF assms(1,2)] epoch_order [OF assms(2,1)] assms(3)
    by (metis less_irrefl linorder_less_linear)
  then show ?thesis
    by (cases d; cases e) (simp add: date_fields_def word_unat_eq_iff)
qed

lemma epoch_seconds_bound:
  assumes "rtc_date_valid (Some d)"
  shows "epoch_seconds d < 146097 * 86400"
proof -
  have "epoch_days d * 86400 + day_seconds d < 146097 * 86400 + 0"
    using epoch_days_bound [OF assms] day_seconds_bound [OF assms] by (subst radix_order) simp_all
  then show ?thesis
    by (simp add: epoch_seconds_def)
qed

section \<open>Exactness of the conversions\<close>

lemma to_epoch_exact:
  assumes "rtc_date_valid (Some d)"
  shows "\<exists>e. rtc_to_epoch2000 (Some d) (Some out) = (True, Some e) \<and> unat e = epoch_seconds d"
proof -
  note v = assms [unfolded valid_iff]
  let ?y = "year_loop 2000 (year d) 0"
  have y: "unat ?y = prefix_sum year_len 2000 (unat (year d))"
    using v by (intro year_loop_sum) (simp_all add: prefix_sum_def)
  let ?m = "month_loop (year d) 1 (month d) ?y"
  have m: "unat ?m = prefix_sum year_len 2000 (unat (year d)) + prefix_sum (month_len (unat (year d))) 1 (unat (month d))"
    using v prefix_years [of "unat (year d)"] by (intro month_loop_sum) (simp_all add: y prefix_sum_def)
  have d1: "unat (ucast (day d - 1) :: u64) = unat (day d) - 1"
    using v by (simp add: unat_widen unat_minus_le word_le_nat_alt)
  let ?d = "?m + ucast (day d - 1)"
  have d: "unat ?d = epoch_days d"
    using epoch_days_bound [OF assms] m d1 by (subst unat_add_lt) (simp_all add: epoch_days_def)
  have b: "epoch_days d < 146097" "unat (hour d) < 24" "unat (minute d) < 60" "unat (second d) < 60"
    using epoch_days_bound [OF assms] v by simp_all
  have p1: "unat (?d * 86400) = epoch_days d * 86400"
    using b d by (subst unat_mult_lt) simp_all
  have p2: "unat (ucast (hour d) * 3600 :: u64) = unat (hour d) * 3600"
    using b by (subst unat_mult_lt) (simp_all add: unat_widen)
  have p3: "unat (ucast (minute d) * 60 :: u64) = unat (minute d) * 60"
    using b by (subst unat_mult_lt) (simp_all add: unat_widen)
  have s1: "unat (?d * 86400 + ucast (hour d) * 3600) = epoch_days d * 86400 + unat (hour d) * 3600"
    using b p1 p2 by (subst unat_add_lt) simp_all
  have s2: "unat (?d * 86400 + ucast (hour d) * 3600 + ucast (minute d) * 60) =
      epoch_days d * 86400 + unat (hour d) * 3600 + unat (minute d) * 60"
    using b s1 p3 by (subst unat_add_lt) simp_all
  have s3: "unat (?d * 86400 + ucast (hour d) * 3600 + ucast (minute d) * 60 + ucast (second d)) = epoch_seconds d"
    using b s2 by (subst unat_add_lt) (simp_all add: unat_widen epoch_seconds_def day_seconds_def)
  show ?thesis
    using assms s3 by (simp add: rtc_to_epoch2000_def Let_def)
qed

lemma hms_join: "(x div 3600 * 60 + x mod 3600 div 60) * 60 + x mod 60 = x" for x :: nat
proof -
  have "x mod 60 = x mod 3600 mod 60"
    by (rule mod_mod_cancel [symmetric]) simp
  then have "x mod 3600 div 60 * 60 + x mod 60 = x mod 3600"
    by simp
  moreover have "(a * 60 + b) * 60 + c = a * 3600 + (b * 60 + c)" for a b c :: nat
    by simp
  ultimately show ?thesis
    by (simp only: div_mult_mod_eq)
qed

lemma from_epoch_exact:
  assumes "unat s < 146097 * 86400"
  shows "\<exists>d. rtc_from_epoch2000 s (Some out) = Some (True, Some d) \<and> rtc_date_valid (Some d) \<and> epoch_seconds d = unat s"
proof -
  let ?w = "ucast (s mod 86400) :: u32"
  have lim: "\<not> s \<ge> RTC_EPOCH2000_LIMIT"
    using assms by (simp add: RTC_EPOCH2000_LIMIT_def word_le_nat_alt)
  have days: "unat (s div 86400) < 146097"
    using assms by (simp add: unat_div less_mult_imp_div_less)
  have w: "unat ?w = unat s mod 86400"
    by (simp add: unsigned_ucast_eq unat_mod take_bit_nat_eq_self)
  obtain y r where y: "year_walk 2000 (s div 86400) = (y, r)" "2000 \<le> unat y" "unat y < 2400"
      "unat r < year_len (unat y)" "prefix_sum year_len 2000 (unat y) + unat r = unat (s div 86400)"
    using year_walk_finds [of 2000 "s div 86400"] days by (auto simp: prefix_sum_def)
  obtain m q where m: "month_walk y 1 r = Some (m, q)" "1 \<le> unat m" "unat m < 13"
      "unat q < month_len (unat y) (unat m)" "prefix_sum (month_len (unat y)) 1 (unat m) + unat q = unat r"
    using month_walk_finds [of y 1 r] y(4) by (auto simp: prefix_sum_def)
  let ?d = "\<lparr> year = y, month = m, day = ucast q + 1, hour = ?w div 3600,
    minute = ?w mod 3600 div 60, second = ?w mod 60 \<rparr>"
  have ml: "month_len (unat y) (unat m) \<le> 31"
    using month_cases [OF m(2,3)] by (auto simp: month_len_def)
  have q: "unat (ucast q + 1 :: u32) = unat q + 1"
  proof -
    have "unat (ucast q :: u32) = unat q"
      using m(4) ml by (simp add: unsigned_ucast_eq take_bit_nat_eq_self)
    then show ?thesis
      using m(4) ml by (subst unat_Suc_lt) simp_all
  qed
  have t: "unat (?w div 3600) = unat ?w div 3600" "unat (?w mod 3600 div 60) = unat ?w mod 3600 div 60"
    "unat (?w mod 60) = unat ?w mod 60"
    by (simp_all add: unat_div unat_mod)
  have wl: "unat ?w < 86400"
    unfolding w by simp
  have valid: "rtc_date_valid (Some ?d)"
    unfolding valid_iff rtc_date.simps q t using y m wl by (simp add: less_mult_imp_div_less)
  have "day_seconds ?d = unat ?w"
    unfolding day_seconds_def rtc_date.simps t by (rule hms_join)
  moreover have "epoch_days ?d = unat (s div 86400)"
    unfolding epoch_days_def rtc_date.simps q using y(5) m(5) by simp
  ultimately have "epoch_seconds ?d = unat s"
    unfolding epoch_seconds_def w by (simp add: unat_div)
  then show ?thesis
    using lim y(1) m(1) valid by (simp add: rtc_from_epoch2000_def Let_def)
qed

lemma nibble_pack:
  fixes a b :: u32
  assumes "a < 16" "b < 16"
  shows "drop_bit 4 (ucast (push_bit 4 a OR b) :: u8) = ucast a"
    and "(ucast (push_bit 4 a OR b) :: u8) AND 15 = ucast b"
proof -
  have t: "x = take_bit 4 x" if "x < 16" for x :: u32
    using that by (simp add: word_unat_eq_iff unsigned_take_bit_eq word_less_nat_alt take_bit_nat_eq_self)
  have m: "(15 :: u8) = mask 4"
    by (simp add: mask_eq_exp_minus_1)
  show "drop_bit 4 (ucast (push_bit 4 a OR b) :: u8) = ucast a"
    by (subst (1 2) t [OF assms(1)], subst t [OF assms(2)], rule bit_word_eqI) (auto simp: bit_simps)
  show "(ucast (push_bit 4 a OR b) :: u8) AND 15 = ucast b"
    unfolding m by (subst (1 2) t [OF assms(2)], rule bit_word_eqI) (auto simp: bit_simps)
qed

lemma nibble_unpack: "ucast (push_bit 4 (ucast (drop_bit 4 x) :: u32) OR ucast (x AND 15)) = x" for x :: u8
proof -
  have m: "(15 :: u8) = mask 4"
    by (simp add: mask_eq_exp_minus_1)
  show ?thesis
    unfolding m by (rule bit_word_eqI) (auto simp: bit_simps)
qed

section \<open>Properties\<close>

definition leap_day :: rtc_date where
  "leap_day = \<lparr> year = 2024, month = 2, day = 29, hour = 23, minute = 59, second = 59 \<rparr>"

definition new_year :: rtc_date where
  "new_year = \<lparr> year = 2100, month = 3, day = 1, hour = 0, minute = 0, second = 0 \<rparr>"

lemma sample_dates_valid: "rtc_date_valid (Some leap_day)" "rtc_date_valid (Some new_year)"
  by (simp_all add: rtc_date_valid_def leap_day_def new_year_def rtc_month_days_def rtc_is_leap_def)

text \<open>C10. Every valid date of 2000 to 2399 converts to a second count below the limit, and the
  count converts back to that date.\<close>

theorem rtc_epoch_roundtrip:
  assumes "rtc_date_valid (Some d)"
  shows "\<exists>s. rtc_to_epoch2000 (Some d) (Some out) = (True, Some s) \<and> s < RTC_EPOCH2000_LIMIT \<and>
    rtc_from_epoch2000 s (Some out') = Some (True, Some d)"
proof -
  obtain s where s: "rtc_to_epoch2000 (Some d) (Some out) = (True, Some s)" "unat s = epoch_seconds d"
    using to_epoch_exact [OF assms] by blast
  then have b: "unat s < 146097 * 86400"
    using epoch_seconds_bound [OF assms] by simp
  obtain e where e: "rtc_from_epoch2000 s (Some out') = Some (True, Some e)" "rtc_date_valid (Some e)"
      "epoch_seconds e = unat s"
    using from_epoch_exact [OF b] by blast
  have "e = d"
    using e s by (intro epoch_inj assms) simp_all
  then show ?thesis
    using s b e by (simp add: RTC_EPOCH2000_LIMIT_def word_less_nat_alt)
qed

theorem rtc_epoch_roundtrip_witness:
  "\<exists>s. rtc_from_epoch2000 s (Some new_year) = Some (True, Some leap_day)"
  using rtc_epoch_roundtrip [OF sample_dates_valid(1)] by blast

text \<open>C11. Every second count below the limit converts to a valid date, both loops ending, and the
  date converts back to that count.\<close>

theorem rtc_epoch_total:
  assumes "s < RTC_EPOCH2000_LIMIT"
  shows "\<exists>d. rtc_from_epoch2000 s (Some out) = Some (True, Some d) \<and> rtc_date_valid (Some d) \<and>
    rtc_to_epoch2000 (Some d) (Some out') = (True, Some s)"
proof -
  have "unat s < 146097 * 86400"
    using assms by (simp add: RTC_EPOCH2000_LIMIT_def word_less_nat_alt)
  then obtain d where d: "rtc_from_epoch2000 s (Some out) = Some (True, Some d)" "rtc_date_valid (Some d)"
      "epoch_seconds d = unat s"
    using from_epoch_exact by blast
  then show ?thesis
    using to_epoch_exact [OF d(2), of out'] by (auto simp: word_unat_eq_iff)
qed

theorem rtc_epoch_total_witness:
  "\<exists>d. rtc_from_epoch2000 951782400 (Some leap_day) = Some (True, Some d) \<and> rtc_date_valid (Some d)"
  using rtc_epoch_total [of 951782400 leap_day 0] by (auto simp: RTC_EPOCH2000_LIMIT_def)

text \<open>The second counts of two dates are ordered as the dates are, field by field from the year
  down.\<close>

theorem rtc_epoch_monotone:
  assumes "rtc_to_epoch2000 (Some d) (Some out) = (True, Some s)"
    and "rtc_to_epoch2000 (Some e) (Some out) = (True, Some t)"
  shows "s < t \<longleftrightarrow> date_fields d < date_fields e"
proof -
  have v: "rtc_date_valid (Some d)" "rtc_date_valid (Some e)"
    using assms by (auto simp: rtc_to_epoch2000_def split: if_splits)
  show ?thesis
    using to_epoch_exact [OF v(1), of out] to_epoch_exact [OF v(2), of out] assms epoch_order [OF v]
    by (auto simp: word_less_nat_alt)
qed

theorem rtc_epoch_monotone_witness:
  "\<exists>s t. rtc_to_epoch2000 (Some leap_day) (Some 0) = (True, Some s) \<and>
     rtc_to_epoch2000 (Some new_year) (Some 0) = (True, Some t) \<and> s < t"
proof -
  obtain s t where st: "rtc_to_epoch2000 (Some leap_day) (Some 0) = (True, Some s)"
      "rtc_to_epoch2000 (Some new_year) (Some 0) = (True, Some t)"
    using to_epoch_exact [OF sample_dates_valid(1), of 0] to_epoch_exact [OF sample_dates_valid(2), of 0]
    by blast
  then show ?thesis
    using rtc_epoch_monotone [OF st] by (auto simp: date_fields_def leap_day_def new_year_def)
qed

text \<open>Decoding accepts a byte with value \<open>v\<close> exactly when \<open>v\<close> is within the allowed maximum and
  the byte is the encoding of \<open>v\<close>; the maximum must be at most 99.\<close>

theorem rtc_bcd_inverse:
  "rtc_bcd_decode raw max_value (Some out) = (True, Some v) \<longleftrightarrow>
   max_value \<le> 99 \<and> v \<le> max_value \<and> rtc_bcd_encode v (Some out') = (True, Some raw)"
proof
  let ?hi = "ucast (drop_bit 4 raw) :: u32" and ?lo = "ucast (raw AND 15) :: u32"
  assume "rtc_bcd_decode raw max_value (Some out) = (True, Some v)"
  then have d: "max_value \<le> 99" "?hi \<le> 9" "?lo \<le> 9" "v = 10 * ?hi + ?lo" "v \<le> max_value"
    by (auto simp: rtc_bcd_decode_def Let_def not_less split: if_splits)
  have u: "unat v = 10 * unat ?hi + unat ?lo"
    using d(2,3) unfolding d(4) word_le_nat_alt
    by (simp add: unat_add_lt unat_mult_lt)
  have "v div 10 = ?hi" "v mod 10 = ?lo"
    using d(3) by (simp_all add: word_unat_eq_iff [where ?'a = 32] unat_div unat_mod u word_le_nat_alt)
  then show "max_value \<le> 99 \<and> v \<le> max_value \<and> rtc_bcd_encode v (Some out') = (True, Some raw)"
    using d nibble_unpack [of raw] by (auto simp: rtc_bcd_encode_def)
next
  assume a: "max_value \<le> 99 \<and> v \<le> max_value \<and> rtc_bcd_encode v (Some out') = (True, Some raw)"
  then have v: "unat v \<le> 99" "raw = ucast (push_bit 4 (v div 10) OR (v mod 10))"
    by (auto simp: rtc_bcd_encode_def word_le_nat_alt split: if_splits)
  have lt: "v div 10 < 16" "v mod 10 < 16"
    using v(1) by (simp_all add: word_less_nat_alt unat_div unat_mod)
  have w: "ucast (ucast x :: u8) = x" if "x < 16" for x :: u32
    using that by (simp add: word_unat_eq_iff unsigned_ucast_eq unsigned_take_bit_eq word_less_nat_alt take_bit_nat_eq_self)
  have hl: "ucast (drop_bit 4 raw) = v div 10" "ucast (raw AND 15) = v mod 10"
    unfolding v(2) nibble_pack [OF lt] by (simp_all only: w lt)
  have "10 * (v div 10) + v mod 10 = v"
    by (metis word_mod_div_equality mult.commute) 
  moreover have "unat v div 10 < 10" "unat v mod 10 < 10"
    using v(1) by (simp_all add: less_mult_imp_div_less)
  ultimately show "rtc_bcd_decode raw max_value (Some out) = (True, Some v)"
    using a v(1) by (simp add: rtc_bcd_decode_def Let_def hl word_le_nat_alt word_less_nat_alt unat_div unat_mod)
qed
end
