(* ===== verification/Stm32f4_Regs.thy ===== *)
theory Stm32f4_Regs
  imports Mmio
begin

unbundle bit_operations_syntax

text \<open>
  The register structures, addresses and bits of \<open>src/code/stm32f4/stm32f4_regs.h\<close>. A member of a
  register structure is at the base address plus four times its position.
\<close>

section \<open>Register structures\<close>

text \<open>The members of a structure in order, each with the number of its 32-bit words.\<close>

type_synonym reg_struct = "(string \<times> nat) list"

abbreviation words :: "string list \<Rightarrow> reg_struct" where
  "words ms \<equiv> map (\<lambda>m. (m, 1)) ms"

definition I2C_TypeDef :: reg_struct where
  "I2C_TypeDef = words [''CR1'', ''CR2'', ''OAR1'', ''OAR2'', ''DR'', ''SR1'', ''SR2'', ''CCR'', ''TRISE'', ''FLTR'']"

definition SPI_TypeDef :: reg_struct where
  "SPI_TypeDef = words [''CR1'', ''CR2'', ''SR'', ''DR'', ''CRCPR'', ''RXCRCR'', ''TXCRCR'', ''I2SCFGR'', ''I2SPR'']"

definition GPIO_TypeDef :: reg_struct where
  "GPIO_TypeDef =
     words [''MODER'', ''OTYPER'', ''OSPEEDR'', ''PUPDR'', ''IDR'', ''ODR'', ''BSRR'', ''LCKR''] @ [(''AFR'', 2)]"

definition RCC_TypeDef :: reg_struct where
  "RCC_TypeDef =
     words [''CR'', ''PLLCFGR'', ''CFGR'', ''CIR'', ''AHB1RSTR'', ''AHB2RSTR'', ''AHB3RSTR'',
       ''RESERVED0'', ''APB1RSTR'', ''APB2RSTR''] @ [(''RESERVED1'', 2)] @
     words [''AHB1ENR'', ''AHB2ENR'', ''AHB3ENR'', ''RESERVED2'', ''APB1ENR'', ''APB2ENR'']"

text \<open>The byte offset of a member, as the compiler lays the structure out.\<close>

fun member_offset :: "string \<Rightarrow> reg_struct \<Rightarrow> u32 option" where
  "member_offset m [] = None"
| "member_offset m ((x, n) # xs) =
     (if x = m then Some 0 else map_option (\<lambda>k. 4 * of_nat n + k) (member_offset m xs))"

section \<open>Addresses and bits\<close>

definition PERIPH_BASE :: u32 where "PERIPH_BASE = 0x40000000"
definition APB1PERIPH :: u32 where "APB1PERIPH = PERIPH_BASE + 0x00000000"
definition APB2PERIPH :: u32 where "APB2PERIPH = PERIPH_BASE + 0x00010000"
definition AHB1PERIPH :: u32 where "AHB1PERIPH = PERIPH_BASE + 0x00020000"

definition I2C1_BASE :: u32 where "I2C1_BASE = APB1PERIPH + 0x5400"
definition SPI1_BASE :: u32 where "SPI1_BASE = APB2PERIPH + 0x3000"
definition GPIOA_BASE :: u32 where "GPIOA_BASE = AHB1PERIPH + 0x0000"
definition GPIOB_BASE :: u32 where "GPIOB_BASE = AHB1PERIPH + 0x0400"
definition RCC_BASE :: u32 where "RCC_BASE = AHB1PERIPH + 0x3800"

definition I2C1_CR1 :: u32 where "I2C1_CR1 = I2C1_BASE + 4 * 0"
definition I2C1_CR2 :: u32 where "I2C1_CR2 = I2C1_BASE + 4 * 1"
definition I2C1_DR :: u32 where "I2C1_DR = I2C1_BASE + 4 * 4"
definition I2C1_SR1 :: u32 where "I2C1_SR1 = I2C1_BASE + 4 * 5"
definition I2C1_SR2 :: u32 where "I2C1_SR2 = I2C1_BASE + 4 * 6"
definition I2C1_CCR :: u32 where "I2C1_CCR = I2C1_BASE + 4 * 7"
definition I2C1_TRISE :: u32 where "I2C1_TRISE = I2C1_BASE + 4 * 8"

definition SPI1_CR1 :: u32 where "SPI1_CR1 = SPI1_BASE + 4 * 0"
definition SPI1_CR2 :: u32 where "SPI1_CR2 = SPI1_BASE + 4 * 1"
definition SPI1_SR :: u32 where "SPI1_SR = SPI1_BASE + 4 * 2"
definition SPI1_DR :: u32 where "SPI1_DR = SPI1_BASE + 4 * 3"

definition GPIO_MODER :: "u32 \<Rightarrow> u32" where "GPIO_MODER base = base + 4 * 0"
definition GPIO_OTYPER :: "u32 \<Rightarrow> u32" where "GPIO_OTYPER base = base + 4 * 1"
definition GPIO_OSPEEDR :: "u32 \<Rightarrow> u32" where "GPIO_OSPEEDR base = base + 4 * 2"
definition GPIO_PUPDR :: "u32 \<Rightarrow> u32" where "GPIO_PUPDR base = base + 4 * 3"
definition GPIO_IDR :: "u32 \<Rightarrow> u32" where "GPIO_IDR base = base + 4 * 4"
definition GPIO_BSRR :: "u32 \<Rightarrow> u32" where "GPIO_BSRR base = base + 4 * 6"
definition GPIO_AFR0 :: "u32 \<Rightarrow> u32" where "GPIO_AFR0 base = base + 4 * 8"

definition RCC_AHB1ENR :: u32 where "RCC_AHB1ENR = RCC_BASE + 4 * 12"
definition RCC_APB1ENR :: u32 where "RCC_APB1ENR = RCC_BASE + 4 * 16"
definition RCC_APB2ENR :: u32 where "RCC_APB2ENR = RCC_BASE + 4 * 17"

definition RCC_AHB1ENR_GPIOAEN :: u32 where "RCC_AHB1ENR_GPIOAEN = push_bit 0 1"
definition RCC_AHB1ENR_GPIOBEN :: u32 where "RCC_AHB1ENR_GPIOBEN = push_bit 1 1"
definition RCC_APB1ENR_I2C1EN :: u32 where "RCC_APB1ENR_I2C1EN = push_bit 21 1"
definition RCC_APB2ENR_SPI1EN :: u32 where "RCC_APB2ENR_SPI1EN = push_bit 12 1"

definition I2C_CR1_PE :: u32 where "I2C_CR1_PE = push_bit 0 1"
definition I2C_CR1_START :: u32 where "I2C_CR1_START = push_bit 8 1"
definition I2C_CR1_STOP :: u32 where "I2C_CR1_STOP = push_bit 9 1"
definition I2C_CR1_ACK :: u32 where "I2C_CR1_ACK = push_bit 10 1"
definition I2C_CR1_SWRST :: u32 where "I2C_CR1_SWRST = push_bit 15 1"
definition I2C_SR1_SB :: u32 where "I2C_SR1_SB = push_bit 0 1"
definition I2C_SR1_ADDR :: u32 where "I2C_SR1_ADDR = push_bit 1 1"
definition I2C_SR1_BTF :: u32 where "I2C_SR1_BTF = push_bit 2 1"
definition I2C_SR1_RXNE :: u32 where "I2C_SR1_RXNE = push_bit 6 1"
definition I2C_SR1_TXE :: u32 where "I2C_SR1_TXE = push_bit 7 1"
definition I2C_SR1_BERR :: u32 where "I2C_SR1_BERR = push_bit 8 1"
definition I2C_SR1_ARLO :: u32 where "I2C_SR1_ARLO = push_bit 9 1"
definition I2C_SR1_AF :: u32 where "I2C_SR1_AF = push_bit 10 1"
definition I2C_SR1_OVR :: u32 where "I2C_SR1_OVR = push_bit 11 1"
definition I2C_SR2_MSL :: u32 where "I2C_SR2_MSL = push_bit 0 1"
definition I2C_SR2_BUSY :: u32 where "I2C_SR2_BUSY = push_bit 1 1"

definition SPI_CR1_CPHA :: u32 where "SPI_CR1_CPHA = push_bit 0 1"
definition SPI_CR1_CPOL :: u32 where "SPI_CR1_CPOL = push_bit 1 1"
definition SPI_CR1_MSTR :: u32 where "SPI_CR1_MSTR = push_bit 2 1"
definition SPI_CR1_BR_Pos :: nat where "SPI_CR1_BR_Pos = 3"
definition SPI_CR1_SPE :: u32 where "SPI_CR1_SPE = push_bit 6 1"
definition SPI_CR1_LSBFIRST :: u32 where "SPI_CR1_LSBFIRST = push_bit 7 1"
definition SPI_CR1_SSI :: u32 where "SPI_CR1_SSI = push_bit 8 1"
definition SPI_CR1_SSM :: u32 where "SPI_CR1_SSM = push_bit 9 1"
definition SPI_SR_RXNE :: u32 where "SPI_SR_RXNE = push_bit 0 1"
definition SPI_SR_TXE :: u32 where "SPI_SR_TXE = push_bit 1 1"
definition SPI_SR_OVR :: u32 where "SPI_SR_OVR = push_bit 6 1"
definition SPI_SR_BSY :: u32 where "SPI_SR_BSY = push_bit 7 1"

lemmas stm_base = PERIPH_BASE_def APB1PERIPH_def APB2PERIPH_def AHB1PERIPH_def I2C1_BASE_def
  SPI1_BASE_def GPIOA_BASE_def GPIOB_BASE_def RCC_BASE_def

lemmas stm_regs = stm_base I2C1_CR1_def I2C1_CR2_def I2C1_DR_def I2C1_SR1_def I2C1_SR2_def
  I2C1_CCR_def I2C1_TRISE_def SPI1_CR1_def SPI1_CR2_def SPI1_SR_def SPI1_DR_def GPIO_MODER_def
  GPIO_OTYPER_def GPIO_OSPEEDR_def GPIO_PUPDR_def GPIO_IDR_def GPIO_BSRR_def GPIO_AFR0_def
  RCC_AHB1ENR_def RCC_APB1ENR_def RCC_APB2ENR_def

section \<open>The addresses are those of the structures\<close>

lemma i2c_layout:
  "map (\<lambda>m. map_option ((+) I2C1_BASE) (member_offset m I2C_TypeDef)) [''CR1'', ''CR2'', ''DR'', ''SR1'', ''SR2'', ''CCR'', ''TRISE''] =
     map Some [I2C1_CR1, I2C1_CR2, I2C1_DR, I2C1_SR1, I2C1_SR2, I2C1_CCR, I2C1_TRISE]"
  by (simp add: I2C_TypeDef_def stm_regs)

lemma spi_layout:
  "map (\<lambda>m. map_option ((+) SPI1_BASE) (member_offset m SPI_TypeDef)) [''CR1'', ''CR2'', ''SR'', ''DR''] =
     map Some [SPI1_CR1, SPI1_CR2, SPI1_SR, SPI1_DR]"
  by (simp add: SPI_TypeDef_def stm_regs)

lemma gpio_layout:
  "map (\<lambda>m. map_option ((+) base) (member_offset m GPIO_TypeDef)) [''MODER'', ''OTYPER'', ''OSPEEDR'', ''PUPDR'', ''IDR'', ''BSRR'', ''AFR''] =
     map Some [GPIO_MODER base, GPIO_OTYPER base, GPIO_OSPEEDR base, GPIO_PUPDR base, GPIO_IDR base, GPIO_BSRR base, GPIO_AFR0 base]"
  by (simp add: GPIO_TypeDef_def stm_regs)

lemma rcc_layout:
  "map (\<lambda>m. map_option ((+) RCC_BASE) (member_offset m RCC_TypeDef)) [''AHB1ENR'', ''APB1ENR'', ''APB2ENR''] =
     map Some [RCC_AHB1ENR, RCC_APB1ENR, RCC_APB2ENR]"
  by (simp add: RCC_TypeDef_def stm_regs)

text \<open>Each structure ends inside the 1 KB the memory map gives its peripheral.\<close>

lemma struct_sizes:
  "list_all (\<lambda>s. 4 * sum_list (map snd s) \<le> 1024) [I2C_TypeDef, SPI_TypeDef, GPIO_TypeDef, RCC_TypeDef]"
  by (simp add: I2C_TypeDef_def SPI_TypeDef_def GPIO_TypeDef_def RCC_TypeDef_def)

end
