(* ===== verification/Spi_Master.thy ===== *)
theory Spi_Master
  imports Stm32f4_Regs
begin

unbundle bit_operations_syntax

text \<open>
  The SPI master of \<open>src/code/stm32f4/spi_master.c\<close>. The polling loops are \<open>poll\<close> with the
  counter less one, so \<open>SPI_TIMEOUT_LOOPS\<close> polls are made at most; a data pointer is the array
  it points to, \<open>None\<close> when null, and a result \<open>None\<close> is an access outside an array.
\<close>

section \<open>The driver\<close>

definition SPI_TIMEOUT_LOOPS :: nat where "SPI_TIMEOUT_LOOPS = 100000"

function spi_prescale :: "u32 \<Rightarrow> u32 \<Rightarrow> u32 \<Rightarrow> u32 \<Rightarrow> u32" where
  "spi_prescale pclk2_hz sck_hz_max br div_by =
     (if pclk2_hz div div_by > sck_hz_max \<and> br < 7
      then spi_prescale pclk2_hz sck_hz_max (br + 1) (push_bit 1 div_by) else br)"
  by auto
termination
  by (relation "measure (\<lambda>(p, m, br, d). 7 - unat br)") (auto simp: word_less_nat_alt unat_Suc_lt)

declare spi_prescale.simps [simp del]

definition spi_init :: "device \<Rightarrow> u8 \<Rightarrow> u32 \<Rightarrow> u32 \<Rightarrow> io_trace \<Rightarrow> io_trace" where
  "spi_init dev mode pclk2_hz sck_hz_max t =
     (let t = reg_set dev RCC_AHB1ENR RCC_AHB1ENR_GPIOAEN t;
          t = reg_set dev RCC_APB2ENR RCC_APB2ENR_SPI1EN t;
          t = reg_modify dev (GPIO_MODER GPIOA_BASE) (push_bit 8 0xFF) (push_bit 10 0xAA) t;
          t = reg_modify dev (GPIO_MODER GPIOA_BASE) (push_bit 8 0x3) (push_bit 8 0x1) t;
          t = reg_set dev (GPIO_OSPEEDR GPIOA_BASE) (push_bit 8 0xFF) t;
          t = reg_modify dev (GPIO_AFR0 GPIOA_BASE) (push_bit 20 0xFFF) (push_bit 20 0x555) t;
          t = reg_write (GPIO_BSRR GPIOA_BASE) (push_bit 4 1) t;
          br = spi_prescale pclk2_hz sck_hz_max 0 2;
          t = reg_write SPI1_CR1 0 t;
          t = reg_write SPI1_CR1 (SPI_CR1_MSTR OR SPI_CR1_SSM OR SPI_CR1_SSI OR push_bit SPI_CR1_BR_Pos br
                OR (if mode AND 1 \<noteq> 0 then SPI_CR1_CPHA else 0)
                OR (if mode AND 2 \<noteq> 0 then SPI_CR1_CPOL else 0)) t;
          t = reg_write SPI1_CR2 0 t
      in reg_set dev SPI1_CR1 SPI_CR1_SPE t)"

definition spi_cs_assert :: "io_trace \<Rightarrow> io_trace" where
  "spi_cs_assert t = reg_write (GPIO_BSRR GPIOA_BASE) (push_bit (4 + 16) 1) t"

definition spi_wait_idle :: "device \<Rightarrow> io_trace \<Rightarrow> bool \<times> io_trace" where
  "spi_wait_idle dev t = poll dev SPI1_SR (\<lambda>v. v AND SPI_SR_BSY = 0) (SPI_TIMEOUT_LOOPS - 1) t"

definition spi_cs_release :: "device \<Rightarrow> io_trace \<Rightarrow> io_trace" where
  "spi_cs_release dev t =
     (case spi_wait_idle dev t of (_, t) \<Rightarrow> reg_write (GPIO_BSRR GPIOA_BASE) (push_bit 4 1) t)"

definition spi_transfer :: "device \<Rightarrow> u8 \<Rightarrow> io_trace \<Rightarrow> u8 \<times> io_trace" where
  "spi_transfer dev tx t =
     (case poll dev SPI1_SR (\<lambda>v. v AND SPI_SR_TXE \<noteq> 0) (SPI_TIMEOUT_LOOPS - 1) t of (ok, t) \<Rightarrow>
      if \<not> ok then (0xFF, t)
      else let t = reg_write SPI1_DR (ucast tx) t in
      case poll dev SPI1_SR (\<lambda>v. v AND SPI_SR_RXNE \<noteq> 0) (SPI_TIMEOUT_LOOPS - 1) t of (ok, t) \<Rightarrow>
      if \<not> ok then (0xFF, t)
      else case reg_read dev SPI1_DR t of (v, t) \<Rightarrow> (ucast (v AND 0xFF), t))"

text \<open>The loop of \<open>spi_transfer_buf\<close>; \<open>i\<close> counts up to \<open>len\<close>.\<close>

function spi_buf_loop ::
    "device \<Rightarrow> u8 list option \<Rightarrow> u8 list option \<Rightarrow> u32 \<Rightarrow> u32 \<Rightarrow> io_trace \<Rightarrow>
     (u8 list option \<times> io_trace) option" where
  "spi_buf_loop dev tx rx i len t =
     (if i < len
      then do {
        out \<leftarrow> (case tx of None \<Rightarrow> Some 0xFF | Some xs \<Rightarrow> arr_get xs (unat i));
        let (inb, t) = spi_transfer dev out t;
        rx \<leftarrow> (case rx of None \<Rightarrow> Some None | Some ys \<Rightarrow> map_option Some (arr_set ys (unat i) inb));
        spi_buf_loop dev tx rx (i + 1) len t
      }
      else Some (rx, t))"
  by auto
termination
  by (relation "measure (\<lambda>(dev, tx, rx, i, len, t). unat len - unat i)")
    (auto simp: word_less_nat_alt unat_Suc_below)

declare spi_buf_loop.simps [simp del]

definition spi_transfer_buf ::
    "device \<Rightarrow> u8 list option \<Rightarrow> u8 list option \<Rightarrow> u32 \<Rightarrow> io_trace \<Rightarrow> (u8 list option \<times> io_trace) option" where
  "spi_transfer_buf dev tx rx len t = spi_buf_loop dev tx rx 0 len t"

section \<open>Register traffic\<close>

lemma spi_addr [simp]: "SPI1_SR \<noteq> SPI1_DR" "SPI1_DR \<noteq> SPI1_SR" "SPI1_SR \<noteq> GPIO_BSRR GPIOA_BASE"
  "GPIO_BSRR GPIOA_BASE \<noteq> SPI1_SR"
  by (simp_all add: stm_regs)

lemma spi_transfer_traffic:
  "\<exists>evs. spi_transfer dev tx t = (r, t @ evs) \<and> length evs \<le> 2 * SPI_TIMEOUT_LOOPS + 2 \<and>
     (writes_to SPI1_DR evs = [ucast tx] \<or> writes_to SPI1_DR evs = [] \<and> r = 0xFF) \<and>
     (\<exists>v. reads_of SPI1_DR evs = [v] \<and> r = ucast v \<or> reads_of SPI1_DR evs = [] \<and> r = 0xFF)"
  if "r = fst (spi_transfer dev tx t)"
proof -
  let ?k = "SPI_TIMEOUT_LOOPS - 1"
  let ?p = "\<lambda>v. v AND SPI_SR_TXE \<noteq> 0" and ?q = "\<lambda>v. v AND SPI_SR_RXNE \<noteq> 0"
  have K: "?k + 1 = SPI_TIMEOUT_LOOPS"
    by (simp add: SPI_TIMEOUT_LOOPS_def)
  obtain ok1 e1 where 1: "poll dev SPI1_SR ?p ?k t = (ok1, t @ e1)" "only_reads SPI1_SR e1" "length e1 \<le> SPI_TIMEOUT_LOOPS"
    using poll_spec [OF refl, of dev SPI1_SR ?p ?k t] unfolding K by metis
  note w1 = only_reads_writes [OF 1(2), of SPI1_DR] only_reads_reads [OF 1(2), of SPI1_DR]
  let ?t = "(t @ e1) @ [Wr SPI1_DR (ucast tx)]"
  obtain ok2 e2 where 2: "poll dev SPI1_SR ?q ?k ?t = (ok2, ?t @ e2)" "only_reads SPI1_SR e2" "length e2 \<le> SPI_TIMEOUT_LOOPS"
    using poll_spec [OF refl, of dev SPI1_SR ?q ?k ?t] unfolding K by metis
  note w2 = only_reads_writes [OF 2(2), of SPI1_DR] only_reads_reads [OF 2(2), of SPI1_DR]
  consider "\<not> ok1" | "ok1" "\<not> ok2" | "ok1" "ok2"
    by blast
  then show ?thesis
  proof cases
    case 1
    then show ?thesis
      using that 1 w1 \<open>poll dev SPI1_SR ?p ?k t = (ok1, t @ e1)\<close> \<open>length e1 \<le> _\<close>
      by (simp add: spi_transfer_def)
  next
    case 2
    then show ?thesis
      using that w1 w2 \<open>poll dev SPI1_SR ?p ?k t = (ok1, t @ e1)\<close> \<open>length e1 \<le> _\<close>
        \<open>poll dev SPI1_SR ?q ?k ?t = (ok2, ?t @ e2)\<close> \<open>length e2 \<le> _\<close>
      by (simp add: spi_transfer_def reg_write_def)
  next
    case 3
    then show ?thesis
      using that w1 w2 \<open>poll dev SPI1_SR ?p ?k t = (ok1, t @ e1)\<close> \<open>length e1 \<le> _\<close>
        \<open>poll dev SPI1_SR ?q ?k ?t = (ok2, ?t @ e2)\<close> \<open>length e2 \<le> _\<close>
      by (simp add: spi_transfer_def reg_write_def reg_read_def)
  qed
qed


section \<open>The exchange of a byte\<close>

text \<open>What the reference manual asks for: a byte is written to the data register when TXE has been
  read set, and the byte that came in for it is read when RXNE has been read set, which clears it.
  \<open>Spi_Room\<close> has seen TXE, \<open>Spi_Got\<close> has seen RXNE; an access to the data register in any other
  phase overwrites or misses a byte (\<open>Spi_Lost\<close>). The second component records what was exchanged.\<close>

datatype spi_phase = Spi_Idle | Spi_Room | Spi_Sent u32 | Spi_Got u32 | Spi_Lost

fun spi_next :: "spi_phase \<times> (u32 \<times> u32) list \<Rightarrow> io_event \<Rightarrow> spi_phase \<times> (u32 \<times> u32) list" where
  "spi_next (p, ex) (Rd a v) =
     (if a = SPI1_SR
      then (case p of Spi_Idle \<Rightarrow> (if v AND SPI_SR_TXE \<noteq> 0 then Spi_Room else Spi_Idle)
          | Spi_Sent b \<Rightarrow> (if v AND SPI_SR_RXNE \<noteq> 0 then Spi_Got b else Spi_Sent b) | _ \<Rightarrow> p, ex)
      else if a = SPI1_DR
      then (case p of Spi_Got b \<Rightarrow> (Spi_Idle, ex @ [(b, v)]) | _ \<Rightarrow> (Spi_Lost, ex))
      else (p, ex))"
| "spi_next (p, ex) (Wr a v) =
     (if a = SPI1_DR then (case p of Spi_Room \<Rightarrow> Spi_Sent v | _ \<Rightarrow> Spi_Lost, ex) else (p, ex))"
| "spi_next (p, ex) (Wr8 a v) = (p, ex)"

definition spi_after :: "io_trace \<Rightarrow> spi_phase \<times> (u32 \<times> u32) list" where
  "spi_after t = foldl spi_next (Spi_Idle, []) t"

lemma spi_after_append: "spi_after (t @ evs) = foldl spi_next (spi_after t) evs"
  by (simp add: spi_after_def)

text \<open>A device whose flags come within the driver's timeout, each when it is due: TXE when nothing is
  under way, RXNE when a byte has been sent.\<close>

definition spi_flag_comes :: "device \<Rightarrow> u32 \<Rightarrow> io_trace \<Rightarrow> bool" where
  "spi_flag_comes dev m t \<longleftrightarrow>
     (\<exists>k < SPI_TIMEOUT_LOOPS. dev (after_reads dev SPI1_SR k t) SPI1_SR AND m \<noteq> 0)"

definition spi_attentive :: "device \<Rightarrow> bool" where
  "spi_attentive dev \<longleftrightarrow> (\<forall>t. case fst (spi_after t) of
     Spi_Idle \<Rightarrow> spi_flag_comes dev SPI_SR_TXE t | Spi_Sent b \<Rightarrow> spi_flag_comes dev SPI_SR_RXNE t | _ \<Rightarrow> True)"

lemma spi_attentiveD:
  assumes "spi_attentive dev"
  shows "spi_after t = (Spi_Idle, ex) \<Longrightarrow> spi_flag_comes dev SPI_SR_TXE t"
    "spi_after t = (Spi_Sent b, ex) \<Longrightarrow> spi_flag_comes dev SPI_SR_RXNE t"
  using assms [unfolded spi_attentive_def, rule_format, of t] by auto

lemma poll_until:
  "p (dev (after_reads dev a j t) a) \<Longrightarrow> j \<le> k \<Longrightarrow>
   \<exists>evs v. poll dev a p k t = (True, t @ evs @ [Rd a v]) \<and> p v \<and> (\<forall>e \<in> set evs. \<exists>w. e = Rd a w \<and> \<not> p w)"
proof (induction j arbitrary: k t)
  case 0
  then show ?case
    by (subst poll.simps) (auto simp: reg_read_def intro!: exI [of _ "[]"])
next
  case (Suc j)
  then obtain k' where k: "k = Suc k'" "j \<le> k'"
    by (cases k) simp_all
  show ?case
  proof (cases "p (dev t a)")
    case True
    then show ?thesis
      by (subst poll.simps) (auto simp: reg_read_def intro!: exI [of _ "[]"])
  next
    case False
    let ?e = "Rd a (dev t a)"
    obtain evs v where "poll dev a p k' (t @ [?e]) = (True, (t @ [?e]) @ evs @ [Rd a v])" "p v"
      "\<forall>e \<in> set evs. \<exists>w. e = Rd a w \<and> \<not> p w"
      using Suc.IH [of "t @ [?e]" k'] Suc.prems(1) k(2) by auto
    then show ?thesis
      using False unfolding k(1) by (subst poll.simps) (auto simp: reg_read_def intro!: exI [of _ "?e # evs"])
  qed
qed

lemma spi_wait_flag:
  assumes "spi_flag_comes dev m t"
  obtains evs v where "poll dev SPI1_SR (\<lambda>v. v AND m \<noteq> 0) (SPI_TIMEOUT_LOOPS - 1) t = (True, t @ evs @ [Rd SPI1_SR v])"
    "v AND m \<noteq> 0" "\<forall>e \<in> set evs. \<exists>w. e = Rd SPI1_SR w \<and> w AND m = 0"
proof -
  obtain j where "dev (after_reads dev SPI1_SR j t) SPI1_SR AND m \<noteq> 0" "j \<le> SPI_TIMEOUT_LOOPS - 1"
    using assms unfolding spi_flag_comes_def by fastforce
  then show ?thesis
    using poll_until [of "\<lambda>v. v AND m \<noteq> 0" dev SPI1_SR j t "SPI_TIMEOUT_LOOPS - 1"] that by auto
qed

lemma spi_waiting:
  "\<forall>e \<in> set evs. \<exists>w. e = Rd SPI1_SR w \<and> w AND SPI_SR_TXE = 0 \<Longrightarrow>
    foldl spi_next (Spi_Idle, ex) evs = (Spi_Idle, ex)"
  "\<forall>e \<in> set evs. \<exists>w. e = Rd SPI1_SR w \<and> w AND SPI_SR_RXNE = 0 \<Longrightarrow>
    foldl spi_next (Spi_Sent b, ex) evs = (Spi_Sent b, ex)"
  by (induction evs) auto

lemma spi_transfer_exchanges:
  assumes dev: "spi_attentive dev" and idle: "spi_after t = (Spi_Idle, ex)"
  shows "\<exists>evs v. spi_transfer dev tx t = (ucast v, t @ evs) \<and> reads_of SPI1_DR evs = [v] \<and>
    spi_after (t @ evs) = (Spi_Idle, ex @ [(ucast tx, v)])"
proof -
  obtain e1 v1 where w1: "poll dev SPI1_SR (\<lambda>v. v AND SPI_SR_TXE \<noteq> 0) (SPI_TIMEOUT_LOOPS - 1) t = (True, t @ e1 @ [Rd SPI1_SR v1])"
    "v1 AND SPI_SR_TXE \<noteq> 0" "\<forall>e \<in> set e1. \<exists>w. e = Rd SPI1_SR w \<and> w AND SPI_SR_TXE = 0"
    by (rule spi_wait_flag [OF spi_attentiveD(1) [OF dev idle]])
  let ?t1 = "(t @ e1 @ [Rd SPI1_SR v1]) @ [Wr SPI1_DR (ucast tx)]"
  have p1: "spi_after ?t1 = (Spi_Sent (ucast tx), ex)"
    using w1(2) by (simp add: spi_after_append idle spi_waiting(1) [OF w1(3)])
  obtain e2 v2 where w2: "poll dev SPI1_SR (\<lambda>v. v AND SPI_SR_RXNE \<noteq> 0) (SPI_TIMEOUT_LOOPS - 1) ?t1 = (True, ?t1 @ e2 @ [Rd SPI1_SR v2])"
    "v2 AND SPI_SR_RXNE \<noteq> 0" "\<forall>e \<in> set e2. \<exists>w. e = Rd SPI1_SR w \<and> w AND SPI_SR_RXNE = 0"
    by (rule spi_wait_flag [OF spi_attentiveD(2) [OF dev p1]])
  define t2 where "t2 = ?t1 @ e2 @ [Rd SPI1_SR v2]"
  define v where "v = dev t2 SPI1_DR"
  let ?e = "e1 @ [Rd SPI1_SR v1, Wr SPI1_DR (ucast tx)] @ e2 @ [Rd SPI1_SR v2, Rd SPI1_DR v]"
  have "spi_transfer dev tx t = (ucast v, t @ ?e)"
    unfolding spi_transfer_def w1(1) prod.case reg_write_def Let_def w2(1) t2_def [symmetric]
    by (simp add: reg_read_def v_def) (simp add: t2_def)
  moreover have "spi_after (t @ ?e) = (Spi_Idle, ex @ [(ucast tx, v)])"
  proof -
    have "spi_after (?t1 @ (e2 @ [Rd SPI1_SR v2, Rd SPI1_DR v])) = (Spi_Idle, ex @ [(ucast tx, v)])"
      unfolding spi_after_append [of ?t1] p1 using w2(2) spi_waiting(2) [OF w2(3)] by simp
    then show ?thesis
      by simp
  qed
  moreover have "only_reads SPI1_SR e1" "only_reads SPI1_SR e2"
    using w1(3) w2(3) by (auto simp: only_reads_def)
  then have "reads_of SPI1_DR ?e = [v]"
    using only_reads_reads [of SPI1_SR e1 SPI1_DR] only_reads_reads [of SPI1_SR e2 SPI1_DR] by simp
  ultimately show ?thesis
    by blast
qed

text \<open>The bytes sent, the room a buffer must have, and what a read buffer holds afterwards.\<close>

definition spi_outs :: "u8 list option \<Rightarrow> nat \<Rightarrow> u8 list" where
  "spi_outs tx n = (case tx of None \<Rightarrow> replicate n 0xFF | Some xs \<Rightarrow> take n xs)"

definition spi_room :: "u8 list option \<Rightarrow> nat \<Rightarrow> bool" where
  "spi_room p n \<longleftrightarrow> (case p of None \<Rightarrow> True | Some xs \<Rightarrow> n \<le> length xs)"

definition spi_stored :: "u8 list option \<Rightarrow> nat \<Rightarrow> u8 list \<Rightarrow> u8 list option" where
  "spi_stored rx i bs = map_option (\<lambda>ys. take i ys @ bs @ drop (i + length bs) ys) rx"

lemma spi_buf_loop_spec:
  assumes "spi_room tx (unat len)" and "spi_room rx (unat len)" and "unat i \<le> unat len"
  shows "\<exists>evs bs. spi_buf_loop dev tx rx i len t = Some (spi_stored rx (unat i) bs, t @ evs) \<and>
    length bs = unat len - unat i \<and>
    length evs \<le> (unat len - unat i) * (2 * SPI_TIMEOUT_LOOPS + 2) \<and>
    (spi_attentive dev \<and> spi_after t = (Spi_Idle, ex) \<longrightarrow> bs = map ucast (reads_of SPI1_DR evs) \<and>
       spi_after (t @ evs) = (Spi_Idle, ex @ zip (map ucast (drop (unat i) (spi_outs tx (unat len)))) (reads_of SPI1_DR evs)))"
  using assms
proof (induction "unat len - unat i" arbitrary: i rx t ex)
  case 0
  then have "\<not> i < len" "drop (unat i) (spi_outs tx (unat len)) = []"
    by (auto simp: word_less_nat_alt spi_outs_def split: option.splits)
  then show ?case
    using 0 by (subst spi_buf_loop.simps) (auto simp: spi_stored_def option.map_ident intro!: exI [of _ "[]"])
next
  case (Suc n)
  then have lt: "unat i < unat len" "i < len"
    by (auto simp: word_less_nat_alt)
  note S = unat_Suc_below [OF lt(1)]
  define out where "out = spi_outs tx (unat len) ! unat i"
  have len_outs: "length (spi_outs tx (unat len)) = unat len"
    using Suc.prems(1) by (auto simp: spi_outs_def spi_room_def split: option.splits)
  have o: "(case tx of None \<Rightarrow> Some 0xFF | Some xs \<Rightarrow> arr_get xs (unat i)) = Some out"
    using Suc.prems(1) lt by (auto simp: out_def spi_outs_def spi_room_def mem split: option.splits)
  obtain r e1 where tr: "spi_transfer dev out t = (r, t @ e1)" "length e1 \<le> 2 * SPI_TIMEOUT_LOOPS + 2"
    using spi_transfer_traffic [OF refl, of dev out t] by (metis fst_conv)
  define ex1 where "ex1 = ex @ [(ucast out, hd (reads_of SPI1_DR e1))]"
  have rdy: "spi_after (t @ e1) = (Spi_Idle, ex1) \<and> reads_of SPI1_DR e1 = [hd (reads_of SPI1_DR e1)] \<and>
      r = ucast (hd (reads_of SPI1_DR e1))"
    if "spi_attentive dev" "spi_after t = (Spi_Idle, ex)"
    using spi_transfer_exchanges [OF that, of out] tr(1) by (auto simp: ex1_def)
  define rx1 where "rx1 = map_option (\<lambda>ys. ys[unat i := r]) rx"
  have rx1: "(case rx of None \<Rightarrow> Some None | Some ys \<Rightarrow> map_option Some (arr_set ys (unat i) r)) = Some rx1"
    using Suc.prems(2) lt by (auto simp: rx1_def spi_room_def mem split: option.splits)
  have "spi_room rx1 (unat len)"
    using Suc.prems(2) by (auto simp: rx1_def spi_room_def split: option.splits)
  then have "\<exists>evs bs. spi_buf_loop dev tx rx1 (i + 1) len (t @ e1) =
      Some (spi_stored rx1 (unat (i + 1)) bs, (t @ e1) @ evs) \<and> length bs = unat len - unat (i + 1) \<and>
    length evs \<le> (unat len - unat (i + 1)) * (2 * SPI_TIMEOUT_LOOPS + 2) \<and>
    (spi_attentive dev \<and> spi_after (t @ e1) = (Spi_Idle, ex1) \<longrightarrow> bs = map ucast (reads_of SPI1_DR evs) \<and>
       spi_after ((t @ e1) @ evs) = (Spi_Idle, ex1 @ zip (map ucast (drop (unat (i + 1)) (spi_outs tx (unat len)))) (reads_of SPI1_DR evs)))"
    using Suc.hyps(2) lt(1) by (intro Suc.hyps(1) Suc.prems(1)) (simp_all add: S)
  then obtain e2 bs where l: "spi_buf_loop dev tx rx1 (i + 1) len (t @ e1) =
      Some (spi_stored rx1 (unat (i + 1)) bs, (t @ e1) @ e2)" "length bs = unat len - unat (i + 1)"
    "length e2 \<le> (unat len - unat (i + 1)) * (2 * SPI_TIMEOUT_LOOPS + 2)"
    "(spi_attentive dev \<and> spi_after (t @ e1) = (Spi_Idle, ex1) \<longrightarrow> bs = map ucast (reads_of SPI1_DR e2) \<and>
       spi_after ((t @ e1) @ e2) = (Spi_Idle, ex1 @ zip (map ucast (drop (unat (i + 1)) (spi_outs tx (unat len)))) (reads_of SPI1_DR e2)))"
    by blast
  have st: "spi_stored rx1 (unat (i + 1)) bs = spi_stored rx (unat i) (r # bs)"
    using Suc.prems(2) lt S by (cases rx) (auto simp: spi_stored_def rx1_def spi_room_def take_Suc_update)
  have step: "spi_buf_loop dev tx rx i len t = Some (spi_stored rx (unat i) (r # bs), t @ (e1 @ e2))"
    using lt(2) o tr(1) rx1 l(1) st by (subst spi_buf_loop.simps) simp
  have d: "drop (unat i) (spi_outs tx (unat len)) = out # drop (unat (i + 1)) (spi_outs tx (unat len))"
    unfolding out_def S using lt(1) len_outs by (simp add: Cons_nth_drop_Suc)
  have bound: "length (e1 @ e2) \<le> (unat len - unat i) * (2 * SPI_TIMEOUT_LOOPS + 2)"
  proof -
    have "unat len - unat i = Suc (unat len - unat (i + 1))"
      using S lt(1) by simp
    then show ?thesis
      using tr(2) l(3) by simp
  qed
  show ?case
  proof (intro exI [of _ "e1 @ e2"] exI [of _ "r # bs"] conjI impI)
    show "spi_buf_loop dev tx rx i len t = Some (spi_stored rx (unat i) (r # bs), t @ (e1 @ e2))"
      by (rule step)
    show "length (r # bs) = unat len - unat i"
      using l(2) S lt(1) by simp
    show "length (e1 @ e2) \<le> (unat len - unat i) * (2 * SPI_TIMEOUT_LOOPS + 2)"
      by (rule bound)
  next
    assume at: "spi_attentive dev \<and> spi_after t = (Spi_Idle, ex)"
    note r = rdy [OF conjunct1 [OF at] conjunct2 [OF at]]
    define v where "v = hd (reads_of SPI1_DR e1)"
    have v: "reads_of SPI1_DR e1 = [v]" "r = ucast v" "ex1 = ex @ [(ucast out, v)]"
      using r unfolding v_def ex1_def by simp_all
    note tail = l(4) [THEN mp, OF conjI [OF conjunct1 [OF at] conjunct1 [OF r]]]
    show "r # bs = map ucast (reads_of SPI1_DR (e1 @ e2))"
      using tail v(1,2) by simp
    show "spi_after (t @ e1 @ e2) =
      (Spi_Idle, ex @ zip (map ucast (drop (unat i) (spi_outs tx (unat len)))) (reads_of SPI1_DR (e1 @ e2)))"
      using tail v(1,3) unfolding d by simp
  qed
qed

section \<open>Configuration\<close>

lemma spi_prescale_spec:
  assumes "unat b \<le> 7" and "unat d = 2 ^ (unat b + 1)" and "\<And>j. j < unat b \<Longrightarrow> unat m < unat p div 2 ^ (j + 1)"
  shows "unat (spi_prescale p m b d) \<le> 7 \<and>
    (\<forall>j < unat (spi_prescale p m b d). unat m < unat p div 2 ^ (j + 1)) \<and>
    (unat (spi_prescale p m b d) < 7 \<longrightarrow> unat p div 2 ^ (unat (spi_prescale p m b d) + 1) \<le> unat m)"
  using assms
proof (induction p m b d rule: spi_prescale.induct)
  case (1 p m b d)
  show ?case
  proof (cases "p div d > m \<and> b < 7")
    case True
    then have b: "unat b < 7"
      by (simp add: word_less_nat_alt)
    then have b: "unat b < 7" "unat (b + 1) = unat b + 1"
      by (simp_all add: unat_Suc_lt)
    have pos: "(2 :: nat) ^ (unat b + 1) \<le> 2 ^ 7"
      using b(1) by (intro power_increasing) simp_all
    have d: "unat (push_bit 1 d) = 2 ^ (unat (b + 1) + 1)"
    proof -
      have "unat (push_bit 1 d) = 2 * unat d"
        using "1.prems"(2) pos by (simp add: push_bit_eq_mult mult.commute unat_mult_lt)
      then show ?thesis
        using "1.prems"(2) b(2) by simp
    qed
    have more: "unat m < unat p div 2 ^ (j + 1)" if "j < unat (b + 1)" for j
      using that "1.prems"(2,3) b(2) True by (cases "j = unat b") (auto simp: word_less_nat_alt unat_div)
    show ?thesis
      using "1.IH" [OF True _ d more] True b by (subst (1 2 3 4) spi_prescale.simps) simp
  next
    case False
    then have "spi_prescale p m b d = b"
      by (subst spi_prescale.simps) (simp only: if_False)
    then show ?thesis
      using "1.prems" False by (auto simp: word_less_nat_alt unat_div not_less)
  qed
qed

lemma moder_other [simp]: "RCC_AHB1ENR \<noteq> GPIO_MODER GPIOA_BASE" "RCC_APB2ENR \<noteq> GPIO_MODER GPIOA_BASE"
  "GPIO_OSPEEDR GPIOA_BASE \<noteq> GPIO_MODER GPIOA_BASE" "GPIO_AFR0 GPIOA_BASE \<noteq> GPIO_MODER GPIOA_BASE"
  "GPIO_BSRR GPIOA_BASE \<noteq> GPIO_MODER GPIOA_BASE" "SPI1_CR1 \<noteq> GPIO_MODER GPIOA_BASE"
  "SPI1_CR2 \<noteq> GPIO_MODER GPIOA_BASE"
  by (simp_all add: stm_regs)

lemma spi_cr1_other [simp]: "RCC_AHB1ENR \<noteq> SPI1_CR1" "RCC_APB2ENR \<noteq> SPI1_CR1"
  "GPIO_OSPEEDR GPIOA_BASE \<noteq> SPI1_CR1" "GPIO_AFR0 GPIOA_BASE \<noteq> SPI1_CR1"
  "GPIO_BSRR GPIOA_BASE \<noteq> SPI1_CR1" "GPIO_MODER GPIOA_BASE \<noteq> SPI1_CR1" "SPI1_CR2 \<noteq> SPI1_CR1"
  by (simp_all add: stm_regs)

definition spi_config :: "u8 \<Rightarrow> u32 \<Rightarrow> u32" where
  "spi_config mode br = SPI_CR1_MSTR OR SPI_CR1_SSM OR SPI_CR1_SSI OR push_bit SPI_CR1_BR_Pos br
     OR (if mode AND 1 \<noteq> 0 then SPI_CR1_CPHA else 0) OR (if mode AND 2 \<noteq> 0 then SPI_CR1_CPOL else 0)"

lemma spi_init_cr1:
  "\<exists>x. writes_to SPI1_CR1 (spi_init dev mode p m t) =
     writes_to SPI1_CR1 t @ [0, spi_config mode (spi_prescale p m 0 2), x OR SPI_CR1_SPE]"
  unfolding spi_config_def
  by (simp only: spi_init_def Let_def traffic spi_cr1_other if_False simp_thms(6) if_True append_Nil2
      append_assoc append.simps) (rule exI, rule refl)

lemma spi_init_moder:
  "\<exists>w v. writes_to (GPIO_MODER GPIOA_BASE) (spi_init dev mode p m t) = writes_to (GPIO_MODER GPIOA_BASE) t @
     [(w AND NOT (push_bit 8 0xFF)) OR push_bit 10 0xAA, (v AND NOT (push_bit 8 3)) OR push_bit 8 1]"
  by (simp only: spi_init_def Let_def traffic moder_other if_False simp_thms(6) if_True append_Nil2
      append_assoc append.simps) (rule exI, rule exI, rule refl)

lemma spi_config_bits:
  assumes "unat br \<le> 7"
  shows "(bit (spi_config mode br) 0 \<longleftrightarrow> bit mode 0) \<and> (bit (spi_config mode br) 1 \<longleftrightarrow> bit mode 1) \<and>
    bit (spi_config mode br) 2 \<and> bit (spi_config mode br) 8 \<and> bit (spi_config mode br) 9 \<and>
    \<not> bit (spi_config mode br) 7" and "take_bit 3 (drop_bit 3 (spi_config mode br)) = br"
proof -
  have t3: "br = take_bit 3 br"
    using assms by (simp add: word_unat_eq_iff unsigned_take_bit_eq take_bit_nat_eq_self)
  then have hi: "\<not> bit br n" if "3 \<le> n" for n
    using that by (metis bit_take_bit_iff linorder_not_less)
  have m: "mode AND 1 \<noteq> 0 \<longleftrightarrow> bit mode 0" "mode AND 2 \<noteq> 0 \<longleftrightarrow> bit mode 1"
    using and_bit_nonzero [of mode 0] and_bit_nonzero [of mode 1] by (simp_all add: push_bit_eq_mult)
  note defs = spi_config_def SPI_CR1_MSTR_def SPI_CR1_SSM_def SPI_CR1_SSI_def SPI_CR1_BR_Pos_def
    SPI_CR1_CPHA_def SPI_CR1_CPOL_def
  show "(bit (spi_config mode br) 0 \<longleftrightarrow> bit mode 0) \<and> (bit (spi_config mode br) 1 \<longleftrightarrow> bit mode 1) \<and>
    bit (spi_config mode br) 2 \<and> bit (spi_config mode br) 8 \<and> bit (spi_config mode br) 9 \<and>
    \<not> bit (spi_config mode br) 7"
    using hi [of 4] hi [of 5] hi [of 6] unfolding defs m by (auto simp: bit_simps bit_1_iff)
  show "take_bit 3 (drop_bit 3 (spi_config mode br)) = br"
  proof (rule bit_word_eqI)
    fix n assume "n < LENGTH(32)"
    show "bit (take_bit 3 (drop_bit 3 (spi_config mode br))) n \<longleftrightarrow> bit br n"
      using hi [of n] by (cases "n < 3") (auto simp: defs bit_simps bit_1_iff)
  qed
qed

section \<open>Properties\<close>

text \<open>Initialisation programs the mode number into CPOL and CPHA, master mode, software slave
  management, most significant bit first, and the smallest power-of-two divider whose clock does
  not exceed the maximum; only when even the largest divider, 256, is too fast is that one used
  all the same. The peripheral is enabled by a last, separate write.\<close>

theorem spi_init_configures:
  "\<exists>cfg x. writes_to SPI1_CR1 (spi_init dev mode pclk2_hz sck_hz_max t) = writes_to SPI1_CR1 t @ [0, cfg, x OR SPI_CR1_SPE] \<and>
     (bit cfg 0 \<longleftrightarrow> bit mode 0) \<and> (bit cfg 1 \<longleftrightarrow> bit mode 1) \<and> bit cfg 2 \<and> bit cfg 8 \<and> bit cfg 9 \<and> \<not> bit cfg 7 \<and>
     (let b = unat (take_bit 3 (drop_bit 3 cfg)) in
      (\<forall>j < b. unat sck_hz_max < unat pclk2_hz div 2 ^ (j + 1)) \<and>
      (b < 7 \<longrightarrow> unat pclk2_hz div 2 ^ (b + 1) \<le> unat sck_hz_max))"
proof -
  let ?b = "spi_prescale pclk2_hz sck_hz_max 0 2"
  have b: "unat ?b \<le> 7" "\<forall>j < unat ?b. unat sck_hz_max < unat pclk2_hz div 2 ^ (j + 1)"
    "unat ?b < 7 \<longrightarrow> unat pclk2_hz div 2 ^ (unat ?b + 1) \<le> unat sck_hz_max"
    using spi_prescale_spec [of 0 2 sck_hz_max pclk2_hz] by auto
  obtain x where "writes_to SPI1_CR1 (spi_init dev mode pclk2_hz sck_hz_max t) =
      writes_to SPI1_CR1 t @ [0, spi_config mode ?b, x OR SPI_CR1_SPE]"
    using spi_init_cr1 by blast
  then show ?thesis
    using b spi_config_bits [OF b(1), of mode]
    by (intro exI [of _ "spi_config mode ?b"] exI [of _ x]) (simp only: Let_def simp_thms)
qed

definition spi_echo :: device where
  "spi_echo t a = (if a = SPI1_DR then 0x142 else 3)"

theorem spi_init_configures_witness:
  "\<exists>cfg x. writes_to SPI1_CR1 (spi_init spi_echo 3 84000000 10000000 []) = [0, cfg, x OR SPI_CR1_SPE] \<and>
     bit cfg 0 \<and> bit cfg 1 \<and> unat (take_bit 3 (drop_bit 3 cfg)) = 3"
proof -
  obtain cfg x where c: "writes_to SPI1_CR1 (spi_init spi_echo 3 84000000 10000000 []) =
      writes_to SPI1_CR1 [] @ [0, cfg, x OR SPI_CR1_SPE]"
    "bit cfg 0 \<longleftrightarrow> bit (3 :: u8) 0" "bit cfg 1 \<longleftrightarrow> bit (3 :: u8) 1"
    "let b = unat (take_bit 3 (drop_bit 3 cfg)) in
      (\<forall>j < b. unat (10000000 :: u32) < unat (84000000 :: u32) div 2 ^ (j + 1)) \<and>
      (b < 7 \<longrightarrow> unat (84000000 :: u32) div 2 ^ (b + 1) \<le> unat (10000000 :: u32))"
    using spi_init_configures [of spi_echo 3 84000000 10000000 "[]"] by blast
  define b where "b = unat (take_bit 3 (drop_bit 3 cfg))"
  have "\<not> 3 < b"
  proof
    assume "3 < b"
    then show False
      using c(4) unfolding Let_def b_def [symmetric] by (auto dest: spec [of _ 3])
  qed
  moreover have "\<not> b < 3"
  proof
    assume "b < 3"
    then have "b \<in> {0, 1, 2}"
      by auto
    then show False
      using c(4) unfolding Let_def b_def [symmetric] by auto
  qed
  ultimately have "b = 3"
    by simp
  then show ?thesis
    using c(1-3) unfolding b_def by (auto simp: bit_numeral_rec)
qed

text \<open>The pin mode constant \<open>0xAA << 10\<close> covers four pins, not three: the first write to the
  mode register of port A always sets bit 17, the alternate-function mode of PA8, a pin the
  driver does not use.\<close>

theorem spi_init_sets_pa8_mode:
  "\<exists>w1 w2. writes_to (GPIO_MODER GPIOA_BASE) (spi_init dev mode pclk2_hz sck_hz_max t) =
     writes_to (GPIO_MODER GPIOA_BASE) t @ [w1, w2] \<and> bit w1 17"
proof -
  have "bit (x OR push_bit 10 0xAA) 17" for x :: u32
    by (simp add: bit_simps)
  then show ?thesis
    using spi_init_moder [of dev mode pclk2_hz sck_hz_max t] by metis
qed

text \<open>C32. A buffer transfer makes a bounded number of register accesses on any device, even one
  that never answers, and stays inside both buffers. On a device whose flags come within the timeout
  (\<open>spi_attentive\<close>), started when nothing is under way, it exchanges exactly the bytes: each byte of
  the transmit buffer (0xFF when there is none) is written when TXE has been seen and the byte that
  comes in for it is read when RXNE has been seen, in order and none lost, and the receive buffer
  holds the low bytes read. The device is left with nothing under way.\<close>

theorem spi_buf_full_duplex:
  assumes "spi_room tx (unat len)" and "spi_room rx (unat len)"
  shows "\<exists>evs bs. spi_transfer_buf dev tx rx len t = Some (spi_stored rx 0 bs, t @ evs) \<and> length bs = unat len \<and>
    length evs \<le> unat len * (2 * SPI_TIMEOUT_LOOPS + 2) \<and>
    (spi_attentive dev \<and> spi_after t = (Spi_Idle, ex) \<longrightarrow> bs = map ucast (reads_of SPI1_DR evs) \<and>
       spi_after (t @ evs) = (Spi_Idle, ex @ zip (map ucast (spi_outs tx (unat len))) (reads_of SPI1_DR evs)))"
  using spi_buf_loop_spec [OF assms, of 0 dev t ex] by (simp add: spi_transfer_buf_def)

text \<open>A loop-back: TXE is set when nothing is under way and has been read clear once, RXNE only after
  a byte was sent and a poll later, and the byte that comes in is the complement of the one sent.
  Reading it clears RXNE.\<close>

definition spi_polled :: "io_trace \<Rightarrow> bool" where
  "spi_polled t \<longleftrightarrow> (case rev t of Rd a v # _ \<Rightarrow> a = SPI1_SR | _ \<Rightarrow> False)"

definition spi_loop_back :: device where
  "spi_loop_back t a =
     (if a = SPI1_SR
      then (if \<not> spi_polled t then 0
        else case fst (spi_after t) of Spi_Idle \<Rightarrow> SPI_SR_TXE | Spi_Sent b \<Rightarrow> SPI_SR_RXNE | _ \<Rightarrow> 0)
      else if a = SPI1_DR then (case fst (spi_after t) of Spi_Got b \<Rightarrow> NOT b | _ \<Rightarrow> 0)
      else 0)"

lemma spi_loop_back_attentive: "spi_attentive spi_loop_back"
proof -
  have bits: "SPI_SR_TXE \<noteq> 0" "SPI_SR_RXNE \<noteq> 0"
    by (simp_all add: SPI_SR_TXE_def SPI_SR_RXNE_def)
  have comes: "spi_flag_comes spi_loop_back m t"
    if p: "fst (spi_after t) = p" "p = Spi_Idle \<and> m = SPI_SR_TXE \<or> (\<exists>b. p = Spi_Sent b) \<and> m = SPI_SR_RXNE" for p m t
  proof (cases "spi_polled t")
    case True
    then have "spi_loop_back (after_reads spi_loop_back SPI1_SR 0 t) SPI1_SR AND m \<noteq> 0"
      using p bits by (auto simp: spi_loop_back_def)
    then show ?thesis
      unfolding spi_flag_comes_def by (intro exI [of _ 0]) (simp add: SPI_TIMEOUT_LOOPS_def)
  next
    case False
    then have "spi_loop_back t SPI1_SR = 0"
      by (simp add: spi_loop_back_def)
    then have a: "after_reads spi_loop_back SPI1_SR 1 t = t @ [Rd SPI1_SR 0]"
      by simp
    have "fst (spi_after (t @ [Rd SPI1_SR 0])) = p"
      using p by (cases "spi_after t") (auto simp: spi_after_append)
    then have "spi_loop_back (t @ [Rd SPI1_SR 0]) SPI1_SR AND m \<noteq> 0"
      using p(2) bits by (auto simp: spi_loop_back_def spi_polled_def)
    then show ?thesis
      unfolding spi_flag_comes_def a [symmetric] by (intro exI [of _ 1]) (simp add: SPI_TIMEOUT_LOOPS_def)
  qed
  then show ?thesis
    unfolding spi_attentive_def by (auto split: spi_phase.split)
qed

theorem spi_buf_full_duplex_witness:
  "\<exists>evs bs. spi_transfer_buf spi_loop_back (Some [1, 2]) (Some [0, 0, 9]) 2 [] = Some (spi_stored (Some [0, 0, 9]) 0 bs, evs) \<and>
     spi_after evs = (Spi_Idle, zip [1, 2] (reads_of SPI1_DR evs)) \<and> bs = map ucast (reads_of SPI1_DR evs) \<and> length bs = 2"
proof -
  have "spi_after [] = (Spi_Idle, [])"
    by (simp add: spi_after_def)
  then show ?thesis
    using spi_buf_full_duplex [of "Some [1, 2]" 2 "Some [0, 0, 9]" spi_loop_back "[]" "[]"] spi_loop_back_attentive
    by (auto simp: spi_room_def spi_outs_def)
qed

text \<open>Chip select is raised by the last access of \<open>spi_cs_release\<close>, after at least one and at
  most \<open>SPI_TIMEOUT_LOOPS\<close> reads of the status register; unless the wait gave up, the last of
  them showed the bus idle.\<close>

theorem spi_cs_release_waits:
  "\<exists>evs. spi_cs_release dev t = t @ evs @ [Wr (GPIO_BSRR GPIOA_BASE) (push_bit 4 1)] \<and>
     only_reads SPI1_SR evs \<and> 1 \<le> length evs \<and> length evs \<le> SPI_TIMEOUT_LOOPS \<and>
     (fst (spi_wait_idle dev t) \<longrightarrow> (\<exists>v. last evs = Rd SPI1_SR v \<and> \<not> bit v 7))"
proof -
  let ?p = "\<lambda>v. v AND SPI_SR_BSY = 0"
  have bsy: "v AND SPI_SR_BSY = 0 \<longleftrightarrow> \<not> bit v 7" for v
    using and_bit_nonzero [of v 7] unfolding SPI_SR_BSY_def by blast
  obtain ok evs where p: "poll dev SPI1_SR ?p (SPI_TIMEOUT_LOOPS - 1) t = (ok, t @ evs)" "only_reads SPI1_SR evs"
      "1 \<le> length evs" "length evs \<le> SPI_TIMEOUT_LOOPS - 1 + 1" "ok \<longrightarrow> (\<exists>v. last evs = Rd SPI1_SR v \<and> ?p v)"
    using poll_spec [OF refl, of dev SPI1_SR ?p "SPI_TIMEOUT_LOOPS - 1" t] by metis
  then show ?thesis
    unfolding spi_cs_release_def spi_wait_idle_def bsy
    by (auto simp: reg_write_def SPI_TIMEOUT_LOOPS_def)
qed

theorem spi_cs_release_waits_witness:
  "\<exists>evs v. spi_cs_release spi_echo [] = evs @ [Wr (GPIO_BSRR GPIOA_BASE) 0x10] \<and>
     last evs = Rd SPI1_SR v \<and> \<not> bit v 7"
proof -
  have "fst (spi_wait_idle spi_echo [])"
    by (simp add: spi_wait_idle_def poll.simps reg_read_def spi_echo_def SPI_SR_BSY_def)
  then show ?thesis
    using spi_cs_release_waits [of spi_echo "[]"] by (auto simp: push_bit_eq_mult)
qed

end
