(* ===== verification/I2c_Master.thy ===== *)
theory I2c_Master
  imports Stm32f4_Regs
begin

unbundle bit_operations_syntax

text \<open>
  The I2C master of \<open>src/code/stm32f4/i2c_master.c\<close>. \<open>WAIT_FOR\<close> is \<open>wait_for\<close>: its loop is
  \<open>i2c_poll\<close>, whose count is the C counter less one, so the condition is tested at most
  \<open>I2C_TIMEOUT_LOOPS\<close> times; its \<open>return\<close> from the enclosing function is the result that is not
  \<open>I2C_OK\<close>, which every caller passes on. A result \<open>None\<close> is an access outside a buffer or a
  division by zero.
\<close>

section \<open>The driver\<close>

datatype i2c_result = I2C_OK | I2C_ERR_BUS_BUSY | I2C_ERR_TIMEOUT_START | I2C_ERR_NACK |
  I2C_ERR_TIMEOUT_TX | I2C_ERR_TIMEOUT_RX | I2C_ERR_PARAM

definition I2C_TIMEOUT_LOOPS :: nat where "I2C_TIMEOUT_LOOPS = 100000"

fun i2c_poll :: "device \<Rightarrow> u32 \<Rightarrow> (u32 \<Rightarrow> bool) \<Rightarrow> i2c_result \<Rightarrow> nat \<Rightarrow> io_trace \<Rightarrow> i2c_result \<times> io_trace" where
  "i2c_poll dev reg p err k t =
     (case reg_read dev reg t of (v, t) \<Rightarrow>
        if p v then (I2C_OK, t)
        else case k of
          0 \<Rightarrow> (err, t)
        | Suc k \<Rightarrow>
            (case reg_read dev I2C1_SR1 t of (s, t) \<Rightarrow>
               if s AND I2C_SR1_AF \<noteq> 0
               then (I2C_ERR_NACK, reg_set dev I2C1_CR1 I2C_CR1_STOP (reg_clear dev I2C1_SR1 I2C_SR1_AF t))
               else i2c_poll dev reg p err k t))"

declare i2c_poll.simps [simp del]

definition wait_for :: "device \<Rightarrow> u32 \<Rightarrow> (u32 \<Rightarrow> bool) \<Rightarrow> i2c_result \<Rightarrow> io_trace \<Rightarrow> i2c_result \<times> io_trace" where
  "wait_for dev reg p err t = i2c_poll dev reg p err (I2C_TIMEOUT_LOOPS - 1) t"

definition i2c_init :: "device \<Rightarrow> u32 \<Rightarrow> u32 \<Rightarrow> io_trace \<Rightarrow> io_trace option" where
  "i2c_init dev pclk1_hz scl_hz t =
     (let t = reg_set dev RCC_AHB1ENR RCC_AHB1ENR_GPIOBEN t;
          t = reg_set dev RCC_APB1ENR RCC_APB1ENR_I2C1EN t;
          t = reg_modify dev (GPIO_MODER GPIOB_BASE) (push_bit 12 0xF) (push_bit 12 0xA) t;
          t = reg_set dev (GPIO_OTYPER GPIOB_BASE) (push_bit 6 3) t;
          t = reg_modify dev (GPIO_OSPEEDR GPIOB_BASE) (push_bit 12 0xF) (push_bit 12 0xF) t;
          t = reg_modify dev (GPIO_PUPDR GPIOB_BASE) (push_bit 12 0xF) (push_bit 12 0x5) t;
          t = reg_modify dev (GPIO_AFR0 GPIOB_BASE) (push_bit 24 0xFF) (push_bit 24 0x44) t;
          t = reg_write I2C1_CR1 I2C_CR1_SWRST t;
          t = reg_write I2C1_CR1 0 t;
          pclk_mhz = pclk1_hz div 1000000;
          t = reg_write I2C1_CR2 pclk_mhz t
      in if scl_hz \<le> 100000
         then do {
           ccr \<leftarrow> udiv pclk1_hz (2 * scl_hz);
           let t = reg_write I2C1_CCR (if ccr < 4 then 4 else ccr) t;
           let t = reg_write I2C1_TRISE (pclk_mhz + 1) t;
           Some (reg_write I2C1_CR1 I2C_CR1_PE t)
         }
         else do {
           ccr \<leftarrow> udiv pclk1_hz (3 * scl_hz);
           let t = reg_write I2C1_CCR (push_bit 15 1 OR (if ccr < 1 then 1 else ccr)) t;
           let t = reg_write I2C1_TRISE (pclk_mhz * 300 div 1000 + 1) t;
           Some (reg_write I2C1_CR1 I2C_CR1_PE t)
         })"

definition i2c_start :: "device \<Rightarrow> u8 \<Rightarrow> bool \<Rightarrow> io_trace \<Rightarrow> i2c_result \<times> io_trace" where
  "i2c_start dev addr7 reading t =
     (case wait_for dev I2C1_SR2 (\<lambda>v. v AND I2C_SR2_BUSY = 0) I2C_ERR_BUS_BUSY t of (r, t) \<Rightarrow>
      if r \<noteq> I2C_OK then (r, t)
      else let t = reg_set dev I2C1_CR1 (I2C_CR1_ACK OR I2C_CR1_START) t in
      case wait_for dev I2C1_SR1 (\<lambda>v. v AND I2C_SR1_SB \<noteq> 0) I2C_ERR_TIMEOUT_START t of (r, t) \<Rightarrow>
      if r \<noteq> I2C_OK then (r, t)
      else let t = reg_write I2C1_DR (ucast (push_bit 1 addr7) OR (if reading then 1 else 0)) t in
      case wait_for dev I2C1_SR1 (\<lambda>v. v AND I2C_SR1_ADDR \<noteq> 0) I2C_ERR_NACK t of (r, t) \<Rightarrow>
      if r \<noteq> I2C_OK then (r, t)
      else (I2C_OK, snd (reg_read dev I2C1_SR2 (snd (reg_read dev I2C1_SR1 t)))))"

function i2c_send :: "device \<Rightarrow> u8 list \<Rightarrow> u32 \<Rightarrow> u32 \<Rightarrow> io_trace \<Rightarrow> (i2c_result \<times> io_trace) option" where
  "i2c_send dev data i len t =
     (if i < len
      then (case wait_for dev I2C1_SR1 (\<lambda>v. v AND I2C_SR1_TXE \<noteq> 0) I2C_ERR_TIMEOUT_TX t of (r, t) \<Rightarrow>
        if r \<noteq> I2C_OK then Some (r, t)
        else do {
          b \<leftarrow> arr_get data (unat i);
          i2c_send dev data (i + 1) len (reg_write I2C1_DR (ucast b) t)
        })
      else Some (I2C_OK, t))"
  by auto
termination
  by (relation "measure (\<lambda>(dev, data, i, len, t). unat len - unat i)")
    (auto simp: word_less_nat_alt unat_Suc_below)

declare i2c_send.simps [simp del]

definition i2c_write :: "device \<Rightarrow> u8 \<Rightarrow> u8 list \<Rightarrow> u32 \<Rightarrow> io_trace \<Rightarrow> (i2c_result \<times> io_trace) option" where
  "i2c_write dev addr7 data len t =
     (case i2c_start dev addr7 False t of (r, t) \<Rightarrow>
      if r \<noteq> I2C_OK then Some (r, t)
      else do {
        (r, t) \<leftarrow> i2c_send dev data 0 len t;
        if r \<noteq> I2C_OK then Some (r, t)
        else case wait_for dev I2C1_SR1 (\<lambda>v. v AND I2C_SR1_BTF \<noteq> 0) I2C_ERR_TIMEOUT_TX t of (r, t) \<Rightarrow>
        if r \<noteq> I2C_OK then Some (r, t)
        else Some (I2C_OK, reg_set dev I2C1_CR1 I2C_CR1_STOP t)
      })"

function i2c_recv :: "device \<Rightarrow> u8 list \<Rightarrow> u32 \<Rightarrow> u32 \<Rightarrow> io_trace \<Rightarrow> (i2c_result \<times> u8 list \<times> io_trace) option" where
  "i2c_recv dev data i len t =
     (if i < len
      then let t = (if i = len - 1
                    then reg_set dev I2C1_CR1 I2C_CR1_STOP (reg_clear dev I2C1_CR1 I2C_CR1_ACK t)
                    else t) in
        case wait_for dev I2C1_SR1 (\<lambda>v. v AND I2C_SR1_RXNE \<noteq> 0) I2C_ERR_TIMEOUT_RX t of (r, t) \<Rightarrow>
        if r \<noteq> I2C_OK then Some (r, data, t)
        else case reg_read dev I2C1_DR t of (v, t) \<Rightarrow>
        do {
          data \<leftarrow> arr_set data (unat i) (ucast (v AND 0xFF));
          i2c_recv dev data (i + 1) len t
        }
      else Some (I2C_OK, data, t))"
  by auto
termination
  by (relation "measure (\<lambda>(dev, data, i, len, t). unat len - unat i)")
    (auto simp: word_less_nat_alt unat_Suc_below)

declare i2c_recv.simps [simp del]

definition i2c_read :: "device \<Rightarrow> u8 \<Rightarrow> u8 list \<Rightarrow> u32 \<Rightarrow> io_trace \<Rightarrow> (i2c_result \<times> u8 list \<times> io_trace) option" where
  "i2c_read dev addr7 data len t =
     (if len = 0 then Some (I2C_ERR_PARAM, data, t)
      else case i2c_start dev addr7 True t of (r, t) \<Rightarrow>
      if r \<noteq> I2C_OK then Some (r, data, t)
      else do {
        (r, data, t) \<leftarrow> i2c_recv dev data 0 len t;
        if r \<noteq> I2C_OK then Some (r, data, t)
        else Some (I2C_OK, data, reg_set dev I2C1_CR1 I2C_CR1_ACK t)
      })"

definition i2c_write_read ::
    "device \<Rightarrow> u8 \<Rightarrow> u8 list \<Rightarrow> u32 \<Rightarrow> u8 list \<Rightarrow> u32 \<Rightarrow> io_trace \<Rightarrow> (i2c_result \<times> u8 list \<times> io_trace) option" where
  "i2c_write_read dev addr7 tx tx_len rx rx_len t =
     (case i2c_start dev addr7 False t of (r, t) \<Rightarrow>
      if r \<noteq> I2C_OK then Some (r, rx, t)
      else do {
        (r, t) \<leftarrow> i2c_send dev tx 0 tx_len t;
        if r \<noteq> I2C_OK then Some (r, rx, t)
        else case wait_for dev I2C1_SR1 (\<lambda>v. v AND I2C_SR1_BTF \<noteq> 0) I2C_ERR_TIMEOUT_TX t of (r, t) \<Rightarrow>
        if r \<noteq> I2C_OK then Some (r, rx, t)
        else i2c_read dev addr7 rx rx_len t
      })"

text \<open>\<open>for (volatile int d = 0; d < 200; d++) { }\<close>: it touches no register.\<close>

function i2c_delay :: "int \<Rightarrow> io_trace \<Rightarrow> io_trace" where
  "i2c_delay d t = (if d < 200 then i2c_delay (d + 1) t else t)"
  by auto
termination
  by (relation "measure (\<lambda>(d, t). nat (200 - d))") auto

declare i2c_delay.simps [simp del]

lemma i2c_delay_adds_nothing [simp]: "i2c_delay d t = t"
  by (induction d t rule: i2c_delay.induct) (subst i2c_delay.simps, simp)

fun recover_clocks :: "device \<Rightarrow> nat \<Rightarrow> io_trace \<Rightarrow> io_trace" where
  "recover_clocks dev 0 t = t"
| "recover_clocks dev (Suc n) t =
     (let t = reg_write (GPIO_BSRR GPIOB_BASE) (push_bit (6 + 16) 1) t;
          t = i2c_delay 0 t;
          t = reg_write (GPIO_BSRR GPIOB_BASE) (push_bit 6 1) t;
          t = i2c_delay 0 t
      in case reg_read dev (GPIO_IDR GPIOB_BASE) t of (v, t) \<Rightarrow>
        if v AND push_bit 7 1 \<noteq> 0 then t else recover_clocks dev n t)"

definition i2c_bus_recover :: "device \<Rightarrow> io_trace \<Rightarrow> io_trace" where
  "i2c_bus_recover dev t =
     (let t = reg_set dev RCC_AHB1ENR RCC_AHB1ENR_GPIOBEN t;
          t = reg_modify dev (GPIO_MODER GPIOB_BASE) (push_bit 12 0xF) (push_bit 12 0x5) t;
          t = reg_set dev (GPIO_OTYPER GPIOB_BASE) (push_bit 6 3) t;
          t = reg_write (GPIO_BSRR GPIOB_BASE) (push_bit 6 3) t;
          t = recover_clocks dev 9 t;
          t = reg_write (GPIO_BSRR GPIOB_BASE) (push_bit (7 + 16) 1) t;
          t = i2c_delay 0 t;
          t = reg_write (GPIO_BSRR GPIOB_BASE) (push_bit 7 1) t;
          t = reg_write I2C1_CR1 I2C_CR1_SWRST t
      in reg_write I2C1_CR1 0 t)"

fun i2c_strerror :: "i2c_result \<Rightarrow> string" where
  "i2c_strerror I2C_OK = ''ok''"
| "i2c_strerror I2C_ERR_BUS_BUSY = ''bus busy - try i2c_bus_recover()''"
| "i2c_strerror I2C_ERR_TIMEOUT_START = ''no START - check pull-ups and clocks''"
| "i2c_strerror I2C_ERR_NACK = ''address or data NACK - wrong address?''"
| "i2c_strerror I2C_ERR_TIMEOUT_TX = ''TX timeout - target clock-stretching?''"
| "i2c_strerror I2C_ERR_TIMEOUT_RX = ''RX timeout''"
| "i2c_strerror I2C_ERR_PARAM = ''bad argument''"

section \<open>What each step adds to the history\<close>

lemma i2c_addr [simp]: "I2C1_SR1 \<noteq> I2C1_DR" "I2C1_SR2 \<noteq> I2C1_DR" "I2C1_CR1 \<noteq> I2C1_DR" "I2C1_SR1 \<noteq> I2C1_CR1"
  "I2C1_SR2 \<noteq> I2C1_CR1" "I2C1_DR \<noteq> I2C1_CR1"
  "I2C1_DR \<noteq> I2C1_SR1" "I2C1_DR \<noteq> I2C1_SR2" "I2C1_DR \<noteq> I2C1_CR1" "I2C1_CR1 \<noteq> I2C1_SR1" "I2C1_CR1 \<noteq> I2C1_SR2"
  by (simp_all add: stm_regs)

text \<open>A wait reads status registers; it writes only when it leaves by a NACK, clearing the flag and
  requesting a stop.\<close>

definition wait_effect :: "i2c_result \<Rightarrow> nat \<Rightarrow> i2c_result \<Rightarrow> io_trace \<Rightarrow> bool" where
  "wait_effect err n r evs \<longleftrightarrow> length evs \<le> n \<and> writes_to I2C1_DR evs = [] \<and> reads_of I2C1_DR evs = [] \<and>
     (r = I2C_OK \<longrightarrow> writes_to I2C1_CR1 evs = []) \<and>
     (r \<noteq> I2C_OK \<longrightarrow> (r = err \<and> writes_to I2C1_CR1 evs = []) \<or>
       (r = I2C_ERR_NACK \<and> (\<exists>x. writes_to I2C1_CR1 evs = [x OR I2C_CR1_STOP])))"

lemma i2c_poll_effect:
  assumes "reg \<in> {I2C1_SR1, I2C1_SR2}" and "err \<noteq> I2C_OK"
  shows "\<exists>r evs. i2c_poll dev reg p err k t = (r, t @ evs) \<and> wait_effect err (2 * k + 5) r evs"
proof (induction k arbitrary: t)
  case 0
  then show ?case
    using assms by (auto simp: i2c_poll.simps reg_read_def wait_effect_def)
next
  case (Suc k)
  let ?t1 = "t @ [Rd reg (dev t reg)]"
  let ?t2 = "?t1 @ [Rd I2C1_SR1 (dev ?t1 I2C1_SR1)]"
  have step: "i2c_poll dev reg p err (Suc k) t =
    (if p (dev t reg) then (I2C_OK, ?t1)
     else if dev ?t1 I2C1_SR1 AND I2C_SR1_AF \<noteq> 0
     then (I2C_ERR_NACK, reg_set dev I2C1_CR1 I2C_CR1_STOP (reg_clear dev I2C1_SR1 I2C_SR1_AF ?t2))
     else i2c_poll dev reg p err k ?t2)"
    by (subst i2c_poll.simps) (simp add: reg_read_def)
  obtain r evs where e: "i2c_poll dev reg p err k ?t2 = (r, ?t2 @ evs)" "wait_effect err (2 * k + 5) r evs"
    using Suc.IH by blast
  consider (ok) "p (dev t reg)" | (af) "\<not> p (dev t reg)" "dev ?t1 I2C1_SR1 AND I2C_SR1_AF \<noteq> 0"
    | (go) "\<not> p (dev t reg)" "dev ?t1 I2C1_SR1 AND I2C_SR1_AF = 0"
    by blast
  then show ?case
  proof cases
    case ok
    then show ?thesis
      unfolding step using assms by (auto simp: wait_effect_def)
  next
    case af
    then show ?thesis
      unfolding step using assms(1)
      by (auto simp: wait_effect_def reg_simps)
  next
    case go
    let ?e = "[Rd reg (dev t reg), Rd I2C1_SR1 (dev ?t1 I2C1_SR1)] @ evs"
    have "wait_effect err (2 * Suc k + 5) r ?e"
      using e(2) assms(1) by (auto simp: wait_effect_def)
    moreover have "i2c_poll dev reg p err (Suc k) t = (r, t @ ?e)"
      unfolding step using go e(1) by simp
    ultimately show ?thesis
      by blast
  qed
qed

text \<open>A wait for a flag of SR1 that ends well has only read SR1.\<close>

definition only_polls :: "io_trace \<Rightarrow> bool" where
  "only_polls evs \<longleftrightarrow> (\<forall>e \<in> set evs. \<exists>v. e = Rd I2C1_SR1 v)"

lemma i2c_poll_only_polls:
  "i2c_poll dev I2C1_SR1 p err k t = (I2C_OK, t') \<Longrightarrow> err \<noteq> I2C_OK \<Longrightarrow> \<exists>evs. t' = t @ evs \<and> only_polls evs"
proof (induction k arbitrary: t)
  case 0
  then show ?case
    by (subst (asm) i2c_poll.simps) (auto simp: reg_read_def only_polls_def split: if_splits)
next
  case (Suc k)
  let ?t1 = "t @ [Rd I2C1_SR1 (dev t I2C1_SR1)]"
  let ?t2 = "?t1 @ [Rd I2C1_SR1 (dev ?t1 I2C1_SR1)]"
  have step: "i2c_poll dev I2C1_SR1 p err (Suc k) t =
    (if p (dev t I2C1_SR1) then (I2C_OK, ?t1)
     else if dev ?t1 I2C1_SR1 AND I2C_SR1_AF \<noteq> 0
     then (I2C_ERR_NACK, reg_set dev I2C1_CR1 I2C_CR1_STOP (reg_clear dev I2C1_SR1 I2C_SR1_AF ?t2))
     else i2c_poll dev I2C1_SR1 p err k ?t2)"
    by (subst i2c_poll.simps) (simp add: reg_read_def)
  have "t' = ?t1 \<or> i2c_poll dev I2C1_SR1 p err k ?t2 = (I2C_OK, t')"
    using Suc.prems(1) unfolding step
    by (cases "p (dev t I2C1_SR1)"; cases "dev ?t1 I2C1_SR1 AND I2C_SR1_AF \<noteq> 0") simp_all
  then show ?case
  proof (elim disjE)
    assume "t' = ?t1"
    then show ?thesis
      by (simp add: only_polls_def)
  next
    assume "i2c_poll dev I2C1_SR1 p err k ?t2 = (I2C_OK, t')"
    from Suc.IH [OF this Suc.prems(2)] show ?thesis
      by (auto simp: only_polls_def)
  qed
qed

lemma only_polls_reads:
  assumes "only_polls evs"
  shows "reads_of I2C1_DR evs = []" "writes_to I2C1_CR1 evs = []"
  using assms by (induction evs) (auto simp: only_polls_def)

definition WAIT_MAX :: nat where "WAIT_MAX = 2 * I2C_TIMEOUT_LOOPS + 3"

lemma wait_for_effect:
  assumes "reg \<in> {I2C1_SR1, I2C1_SR2}" and "err \<noteq> I2C_OK"
  obtains r evs where "wait_for dev reg p err t = (r, t @ evs)" "wait_effect err WAIT_MAX r evs"
proof -
  have m: "2 * (I2C_TIMEOUT_LOOPS - 1) + 5 = WAIT_MAX"
    by (simp add: WAIT_MAX_def I2C_TIMEOUT_LOOPS_def)
  show thesis
    using i2c_poll_effect [OF assms, of dev p "I2C_TIMEOUT_LOOPS - 1" t] that
    unfolding m wait_for_def [symmetric] by blast
qed

definition addr_byte :: "u8 \<Rightarrow> bool \<Rightarrow> u32" where
  "addr_byte addr7 reading = ucast (push_bit 1 addr7) OR (if reading then 1 else 0)"

lemma i2c_start_effect:
  obtains r evs where "i2c_start dev addr7 reading t = (r, t @ evs)" "length evs \<le> 3 * WAIT_MAX + 5"
    "reads_of I2C1_DR evs = []"
    "writes_to I2C1_DR evs = [] \<or> writes_to I2C1_DR evs = [addr_byte addr7 reading]"
    "r = I2C_OK \<Longrightarrow> writes_to I2C1_DR evs = [addr_byte addr7 reading] \<and>
       (\<exists>x. writes_to I2C1_CR1 evs = [x OR (I2C_CR1_ACK OR I2C_CR1_START)])"
proof -
  let ?p1 = "\<lambda>v. v AND I2C_SR2_BUSY = 0" and ?p2 = "\<lambda>v. v AND I2C_SR1_SB \<noteq> 0" and ?p3 = "\<lambda>v. v AND I2C_SR1_ADDR \<noteq> 0"
  obtain r1 e1 where w1: "wait_for dev I2C1_SR2 ?p1 I2C_ERR_BUS_BUSY t = (r1, t @ e1)"
    "wait_effect I2C_ERR_BUS_BUSY WAIT_MAX r1 e1"
    using wait_for_effect [of I2C1_SR2 I2C_ERR_BUS_BUSY dev ?p1 t] by auto
  let ?s = "[Rd I2C1_CR1 (dev (t @ e1) I2C1_CR1), Wr I2C1_CR1 (dev (t @ e1) I2C1_CR1 OR (I2C_CR1_ACK OR I2C_CR1_START))]"
  have s: "reg_set dev I2C1_CR1 (I2C_CR1_ACK OR I2C_CR1_START) (t @ e1) = (t @ e1) @ ?s"
    by (simp add: reg_set_def reg_read_def reg_write_def)
  obtain r2 e2 where w2: "wait_for dev I2C1_SR1 ?p2 I2C_ERR_TIMEOUT_START ((t @ e1) @ ?s) = (r2, ((t @ e1) @ ?s) @ e2)"
    "wait_effect I2C_ERR_TIMEOUT_START WAIT_MAX r2 e2"
    using wait_for_effect [of I2C1_SR1 I2C_ERR_TIMEOUT_START dev ?p2 "(t @ e1) @ ?s"] by auto
  let ?t3 = "(((t @ e1) @ ?s) @ e2) @ [Wr I2C1_DR (addr_byte addr7 reading)]"
  have a: "reg_write I2C1_DR (ucast (push_bit 1 addr7) OR (if reading then 1 else 0)) (((t @ e1) @ ?s) @ e2) = ?t3"
    by (simp add: reg_write_def addr_byte_def)
  obtain r3 e3 where w3: "wait_for dev I2C1_SR1 ?p3 I2C_ERR_NACK ?t3 = (r3, ?t3 @ e3)"
    "wait_effect I2C_ERR_NACK WAIT_MAX r3 e3"
    using wait_for_effect [of I2C1_SR1 I2C_ERR_NACK dev ?p3 ?t3] by auto
  let ?f = "[Rd I2C1_SR1 (dev (?t3 @ e3) I2C1_SR1), Rd I2C1_SR2 (dev ((?t3 @ e3) @ [Rd I2C1_SR1 (dev (?t3 @ e3) I2C1_SR1)]) I2C1_SR2)]"
  have f: "snd (reg_read dev I2C1_SR2 (snd (reg_read dev I2C1_SR1 (?t3 @ e3)))) = (?t3 @ e3) @ ?f"
    by (simp add: reg_read_def)
  consider (a) "r1 \<noteq> I2C_OK" | (b) "r1 = I2C_OK" "r2 \<noteq> I2C_OK" | (c) "r1 = I2C_OK" "r2 = I2C_OK" "r3 \<noteq> I2C_OK"
    | (d) "r1 = I2C_OK" "r2 = I2C_OK" "r3 = I2C_OK"
    by blast
  then show thesis
  proof cases
    case a
    have "i2c_start dev addr7 reading t = (r1, t @ e1)"
      unfolding i2c_start_def w1(1) using a by simp
    then show ?thesis
      using w1(2) a that by (auto simp: wait_effect_def)
  next
    case b
    have "i2c_start dev addr7 reading t = (r2, t @ (e1 @ ?s @ e2))"
      unfolding i2c_start_def w1(1) prod.case s Let_def w2(1) using b by simp
    then show ?thesis
      using w1(2) w2(2) b by (intro that) (auto simp: wait_effect_def)
  next
    case c
    have "i2c_start dev addr7 reading t = (r3, t @ (e1 @ ?s @ e2 @ [Wr I2C1_DR (addr_byte addr7 reading)] @ e3))"
      unfolding i2c_start_def w1(1) prod.case s Let_def w2(1) a w3(1) using c by simp
    then show ?thesis
      using w1(2) w2(2) w3(2) c by (intro that) (auto simp: wait_effect_def)
  next
    case d
    have "i2c_start dev addr7 reading t = (I2C_OK, t @ (e1 @ ?s @ e2 @ [Wr I2C1_DR (addr_byte addr7 reading)] @ e3 @ ?f))"
      unfolding i2c_start_def w1(1) prod.case s Let_def w2(1) a w3(1) f using d by simp
    then show ?thesis
      using w1(2) w2(2) w3(2) d by (intro that) (auto simp: wait_effect_def)
  qed
qed

lemma i2c_send_effect:
  assumes "unat len \<le> length data" and "unat i \<le> unat len"
  shows "\<exists>r evs n. i2c_send dev data i len t = Some (r, t @ evs) \<and> n \<le> unat len - unat i \<and>
    writes_to I2C1_DR evs = map ucast (take n (drop (unat i) data)) \<and> reads_of I2C1_DR evs = [] \<and>
    length evs \<le> (unat len - unat i) * (WAIT_MAX + 1) \<and>
    (r = I2C_OK \<longrightarrow> n = unat len - unat i \<and> writes_to I2C1_CR1 evs = [])"
  using assms(2)
proof (induction "unat len - unat i" arbitrary: i t)
  case 0
  then have "\<not> i < len"
    by (simp add: word_less_nat_alt)
  then show ?case
    using 0 by (subst i2c_send.simps) auto
next
  case (Suc m)
  then have lt: "unat i < unat len" "i < len"
    by (auto simp: word_less_nat_alt)
  note S = unat_Suc_below [OF lt(1)]
  let ?p = "\<lambda>v. v AND I2C_SR1_TXE \<noteq> 0"
  obtain r e where w: "wait_for dev I2C1_SR1 ?p I2C_ERR_TIMEOUT_TX t = (r, t @ e)"
    "wait_effect I2C_ERR_TIMEOUT_TX WAIT_MAX r e"
    using wait_for_effect [of I2C1_SR1 I2C_ERR_TIMEOUT_TX dev ?p t] by auto
  have diff: "unat len - unat i = Suc (unat len - unat (i + 1))"
    using S lt(1) by simp
  have len: "length e \<le> WAIT_MAX" "WAIT_MAX \<le> (unat len - unat i) * (WAIT_MAX + 1)"
    using w(2) unfolding diff by (simp_all add: wait_effect_def)
  show ?case
  proof (cases "r = I2C_OK")
    case False
    then have "i2c_send dev data i len t = Some (r, t @ e)"
      using lt(2) w(1) by (subst i2c_send.simps) simp
    then show ?thesis
      using False w(2) len by (intro exI [of _ r] exI [of _ e] exI [of _ 0]) (auto simp: wait_effect_def)
  next
    case True
    let ?b = "data ! unat i"
    have g: "arr_get data (unat i) = Some ?b"
      using assms(1) lt(1) by (intro arr_get_Some) simp
    let ?e = "e @ [Wr I2C1_DR (ucast ?b)]"
    have ih: "\<exists>r evs n. i2c_send dev data (i + 1) len (t @ ?e) = Some (r, (t @ ?e) @ evs) \<and> n \<le> unat len - unat (i + 1) \<and>
        writes_to I2C1_DR evs = map ucast (take n (drop (unat (i + 1)) data)) \<and> reads_of I2C1_DR evs = [] \<and>
        length evs \<le> (unat len - unat (i + 1)) * (WAIT_MAX + 1) \<and>
        (r = I2C_OK \<longrightarrow> n = unat len - unat (i + 1) \<and> writes_to I2C1_CR1 evs = [])"
      using Suc.hyps(2) lt(1) by (intro Suc.hyps(1)) (simp_all add: S)
    then obtain r' evs n where l: "i2c_send dev data (i + 1) len (t @ ?e) = Some (r', (t @ ?e) @ evs)"
      "n \<le> unat len - unat (i + 1)" "writes_to I2C1_DR evs = map ucast (take n (drop (unat (i + 1)) data))"
      "reads_of I2C1_DR evs = []" "length evs \<le> (unat len - unat (i + 1)) * (WAIT_MAX + 1)"
      "r' = I2C_OK \<longrightarrow> n = unat len - unat (i + 1) \<and> writes_to I2C1_CR1 evs = []"
      by blast
    have d: "drop (unat i) data = ?b # drop (unat (i + 1)) data"
      unfolding S using assms(1) lt(1) by (simp add: Cons_nth_drop_Suc)
    have step: "i2c_send dev data i len t = Some (r', t @ (?e @ evs))"
      using lt(2) w(1) True g l(1) by (subst i2c_send.simps) (simp add: reg_write_def)
    show ?thesis
      using step l w(2) True len(1) unfolding d diff
      by (intro exI [of _ r'] exI [of _ "?e @ evs"] exI [of _ "Suc n"]) (auto simp: wait_effect_def)
  qed
qed

text \<open>What \<open>i2c_write\<close> and \<open>i2c_write_read\<close> share: the address and the bytes, up to the
  point where the last one has left.\<close>

definition i2c_out :: "device \<Rightarrow> u8 \<Rightarrow> u8 list \<Rightarrow> u32 \<Rightarrow> io_trace \<Rightarrow> (i2c_result \<times> io_trace) option" where
  "i2c_out dev addr7 data len t =
     (case i2c_start dev addr7 False t of (r, t) \<Rightarrow>
      if r \<noteq> I2C_OK then Some (r, t)
      else do {
        (r, t) \<leftarrow> i2c_send dev data 0 len t;
        if r \<noteq> I2C_OK then Some (r, t)
        else Some (wait_for dev I2C1_SR1 (\<lambda>v. v AND I2C_SR1_BTF \<noteq> 0) I2C_ERR_TIMEOUT_TX t)
      })"

lemma i2c_write_out:
  "i2c_write dev addr7 data len t =
     do { (r, t) \<leftarrow> i2c_out dev addr7 data len t;
          if r \<noteq> I2C_OK then Some (r, t) else Some (I2C_OK, reg_set dev I2C1_CR1 I2C_CR1_STOP t) }"
  unfolding i2c_write_def i2c_out_def
  by (cases "i2c_start dev addr7 False t"; cases "i2c_send dev data 0 len (snd (i2c_start dev addr7 False t))")
    (auto split: prod.splits if_splits)

lemma i2c_write_read_out:
  "i2c_write_read dev addr7 tx tx_len rx rx_len t =
     do { (r, t) \<leftarrow> i2c_out dev addr7 tx tx_len t;
          if r \<noteq> I2C_OK then Some (r, rx, t) else i2c_read dev addr7 rx rx_len t }"
  unfolding i2c_write_read_def i2c_out_def
  by (cases "i2c_start dev addr7 False t"; cases "i2c_send dev tx 0 tx_len (snd (i2c_start dev addr7 False t))")
    (auto split: prod.splits if_splits)

lemma i2c_out_effect:
  assumes "unat len \<le> length data"
  obtains r evs n where "i2c_out dev addr7 data len t = Some (r, t @ evs)"
    "length evs \<le> (unat len + 4) * (WAIT_MAX + 2)" "reads_of I2C1_DR evs = []"
    "writes_to I2C1_DR evs = take n (addr_byte addr7 False # map ucast (take (unat len) data))"
    "r = I2C_OK \<Longrightarrow> n = Suc (unat len) \<and> (\<exists>x. writes_to I2C1_CR1 evs = [x OR (I2C_CR1_ACK OR I2C_CR1_START)])"
proof -
  obtain r1 e1 where s1: "i2c_start dev addr7 False t = (r1, t @ e1)" "length e1 \<le> 3 * WAIT_MAX + 5"
    "reads_of I2C1_DR e1 = []" "writes_to I2C1_DR e1 = [] \<or> writes_to I2C1_DR e1 = [addr_byte addr7 False]"
    "r1 = I2C_OK \<Longrightarrow> writes_to I2C1_DR e1 = [addr_byte addr7 False] \<and>
       (\<exists>x. writes_to I2C1_CR1 e1 = [x OR (I2C_CR1_ACK OR I2C_CR1_START)])"
    using i2c_start_effect by blast
  obtain r2 e2 m where s2: "i2c_send dev data 0 len (t @ e1) = Some (r2, (t @ e1) @ e2)"
    "m \<le> unat len" "writes_to I2C1_DR e2 = map ucast (take m data)" "reads_of I2C1_DR e2 = []"
    "length e2 \<le> unat len * (WAIT_MAX + 1)" "r2 = I2C_OK \<longrightarrow> m = unat len \<and> writes_to I2C1_CR1 e2 = []"
    using i2c_send_effect [of len data 0 dev "t @ e1"] assms by auto
  let ?p = "\<lambda>v. v AND I2C_SR1_BTF \<noteq> 0"
  obtain r3 e3 where s3: "wait_for dev I2C1_SR1 ?p I2C_ERR_TIMEOUT_TX ((t @ e1) @ e2) = (r3, ((t @ e1) @ e2) @ e3)"
    "wait_effect I2C_ERR_TIMEOUT_TX WAIT_MAX r3 e3"
    using wait_for_effect [of I2C1_SR1 I2C_ERR_TIMEOUT_TX dev ?p "(t @ e1) @ e2"] by auto
  have size: "(unat len + 4) * (WAIT_MAX + 2) = unat len * (WAIT_MAX + 1) + unat len + 4 * WAIT_MAX + 8"
    by (simp add: algebra_simps)
  have tk: "map ucast (take m data) = take m (map ucast (take (unat len) data))"
    using s2(2) by (simp add: take_map)
  consider (a) "r1 \<noteq> I2C_OK" | (b) "r1 = I2C_OK" "r2 \<noteq> I2C_OK" | (c) "r1 = I2C_OK" "r2 = I2C_OK"
    by blast
  then show thesis
  proof cases
    case a
    then have out: "i2c_out dev addr7 data len t = Some (r1, t @ e1)"
      unfolding i2c_out_def s1(1) by simp
    show thesis
      using s1(4)
    proof
      assume "writes_to I2C1_DR e1 = []"
      then show thesis
        by (intro that [OF out, of 0]) (use a s1 size in auto)
    next
      assume "writes_to I2C1_DR e1 = [addr_byte addr7 False]"
      then show thesis
        by (intro that [OF out, of 1]) (use a s1 size in auto)
    qed
  next
    case b
    then have "i2c_out dev addr7 data len t = Some (r2, t @ (e1 @ e2))"
      unfolding i2c_out_def s1(1) by (simp add: s2(1) [simplified])
    then show thesis
      by (rule that [of _ _ "Suc m"]) (use b s1 s2 size tk in auto)
  next
    case c
    then have "i2c_out dev addr7 data len t = Some (r3, t @ (e1 @ e2 @ e3))"
      unfolding i2c_out_def s1(1) using s3(1) by (simp add: s2(1) [simplified])
    then show thesis
      by (rule that [of _ _ "Suc m"]) (use c s1 s2 s3(2) size tk in \<open>auto simp: wait_effect_def\<close>)
  qed
qed


definition i2c_quiet :: device where
  "i2c_quiet t a = (if a = I2C1_SR1 then 0x87 else 0)"


text \<open>Receiving. On success the acknowledge is cleared and the stop requested, in this order and one
  right after the other, when all bytes but the last have been read; after that only SR1 is polled
  until the last byte is read. This is the order of the program's accesses; whether the last byte
  reaches the target unacknowledged depends on the peripheral.\<close>

definition nack_stop :: "u32 \<Rightarrow> u32 \<Rightarrow> io_trace \<Rightarrow> bool" where
  "nack_stop x y evs \<longleftrightarrow> (\<exists>e1 e2 v.
     evs = e1 @ [Wr I2C1_CR1 (x AND NOT I2C_CR1_ACK), Rd I2C1_CR1 y, Wr I2C1_CR1 (y OR I2C_CR1_STOP)] @ e2 @ [Rd I2C1_DR v] \<and>
     writes_to I2C1_CR1 e1 = [] \<and> only_polls e2)"

text \<open>What \<open>n\<close> more bytes add to the history.\<close>

definition recv_effect :: "nat \<Rightarrow> i2c_result \<Rightarrow> u8 list \<Rightarrow> io_trace \<Rightarrow> bool" where
  "recv_effect n r bs evs \<longleftrightarrow> bs = map ucast (reads_of I2C1_DR evs) \<and> length bs \<le> n \<and> writes_to I2C1_DR evs = [] \<and>
     length evs \<le> n * (WAIT_MAX + 1) + 4 \<and>
     (r = I2C_OK \<longrightarrow> length bs = n \<and> (\<exists>x y. nack_stop x y evs))"

lemma wait_effect_rx:
  assumes "wait_effect I2C_ERR_TIMEOUT_RX WAIT_MAX r e"
  shows "length e \<le> WAIT_MAX \<and> writes_to I2C1_DR e = [] \<and> reads_of I2C1_DR e = [] \<and> (r = I2C_OK \<longrightarrow> writes_to I2C1_CR1 e = [])"
  using assms by (auto simp: wait_effect_def)

lemma recv_effect_fail:
  assumes "wait_effect I2C_ERR_TIMEOUT_RX WAIT_MAX r e" and "r \<noteq> I2C_OK"
    and "e0 = [] \<or> (\<exists>a b c d. e0 = [Rd I2C1_CR1 a, Wr I2C1_CR1 b, Rd I2C1_CR1 c, Wr I2C1_CR1 d])"
  shows "recv_effect (Suc n) r [] (e0 @ e)"
  using wait_effect_rx [OF assms(1)] assms(2,3) by (auto simp: recv_effect_def)

lemma recv_effect_last:
  assumes "wait_effect I2C_ERR_TIMEOUT_RX WAIT_MAX I2C_OK e" and "only_polls e"
  shows "recv_effect 1 I2C_OK [ucast v]
    ([Rd I2C1_CR1 c, Wr I2C1_CR1 (c AND NOT I2C_CR1_ACK), Rd I2C1_CR1 d, Wr I2C1_CR1 (d OR I2C_CR1_STOP)] @ e @ [Rd I2C1_DR v])"
    (is "recv_effect 1 _ _ ?evs")
proof -
  have "nack_stop c d ?evs"
    using assms(2) unfolding nack_stop_def
    by (intro exI [of _ "[Rd I2C1_CR1 c]"] exI [of _ e] exI [of _ v]) simp
  then show ?thesis
    using wait_effect_rx [OF assms(1)] by (auto simp: recv_effect_def)
qed

lemma recv_effect_step:
  assumes "wait_effect I2C_ERR_TIMEOUT_RX WAIT_MAX I2C_OK e" and "recv_effect n r bs evs"
  shows "recv_effect (Suc n) r (ucast v # bs) (e @ [Rd I2C1_DR v] @ evs)"
proof -
  have "nack_stop x y (e @ [Rd I2C1_DR v] @ evs)" if n: "nack_stop x y evs" for x y
  proof -
    obtain e1 e2 w where "evs = e1 @ [Wr I2C1_CR1 (x AND NOT I2C_CR1_ACK), Rd I2C1_CR1 y, Wr I2C1_CR1 (y OR I2C_CR1_STOP)] @
        e2 @ [Rd I2C1_DR w]" "writes_to I2C1_CR1 e1 = []" "only_polls e2"
      using n by (auto simp: nack_stop_def)
    then show ?thesis
      using wait_effect_rx [OF assms(1)] unfolding nack_stop_def
      by (intro exI [of _ "e @ [Rd I2C1_DR v] @ e1"] exI [of _ e2] exI [of _ w]) simp
  qed
  then show ?thesis
    using wait_effect_rx [OF assms(1)] assms(2) by (auto simp: recv_effect_def)
qed

lemma i2c_recv_step:
  assumes "unat i < length data" and "i < len"
  obtains e0 r e v where "i2c_recv dev data i len t =
      (if r \<noteq> I2C_OK then Some (r, data, t @ e0 @ e)
       else i2c_recv dev (data[unat i := ucast v]) (i + 1) len (t @ e0 @ e @ [Rd I2C1_DR v]))"
    and "wait_effect I2C_ERR_TIMEOUT_RX WAIT_MAX r e"
    and "if i = len - 1 then \<exists>c d. e0 = [Rd I2C1_CR1 c, Wr I2C1_CR1 (c AND NOT I2C_CR1_ACK), Rd I2C1_CR1 d, Wr I2C1_CR1 (d OR I2C_CR1_STOP)]
      else e0 = []"
    and "r = I2C_OK \<longrightarrow> only_polls e"
proof -
  let ?p = "\<lambda>v. v AND I2C_SR1_RXNE \<noteq> 0"
  define c where "c = dev t I2C1_CR1"
  define d where "d = dev (t @ [Rd I2C1_CR1 c, Wr I2C1_CR1 (c AND NOT I2C_CR1_ACK)]) I2C1_CR1"
  define e0 where "e0 = (if i = len - 1
    then [Rd I2C1_CR1 c, Wr I2C1_CR1 (c AND NOT I2C_CR1_ACK), Rd I2C1_CR1 d, Wr I2C1_CR1 (d OR I2C_CR1_STOP)] else [])"
  have e0: "(if i = len - 1 then reg_set dev I2C1_CR1 I2C_CR1_STOP (reg_clear dev I2C1_CR1 I2C_CR1_ACK t) else t) = t @ e0"
    by (simp add: e0_def c_def d_def reg_simps)
  obtain r e where w: "wait_for dev I2C1_SR1 ?p I2C_ERR_TIMEOUT_RX (t @ e0) = (r, (t @ e0) @ e)"
    "wait_effect I2C_ERR_TIMEOUT_RX WAIT_MAX r e"
    using wait_for_effect [of I2C1_SR1 I2C_ERR_TIMEOUT_RX dev ?p "t @ e0"] by auto
  define v where "v = dev (t @ e0 @ e) I2C1_DR"
  have "arr_set data (unat i) (ucast v) = Some (data[unat i := ucast v])"
    using assms(1) by (simp add: mem)
  then have "i2c_recv dev data i len t = (if r \<noteq> I2C_OK then Some (r, data, t @ e0 @ e)
      else i2c_recv dev (data[unat i := ucast v]) (i + 1) len (t @ e0 @ e @ [Rd I2C1_DR v]))"
    using assms(2) w(1) by (subst i2c_recv.simps) (simp add: e0 reg_read_def v_def)
  moreover have "if i = len - 1
      then \<exists>c d. e0 = [Rd I2C1_CR1 c, Wr I2C1_CR1 (c AND NOT I2C_CR1_ACK), Rd I2C1_CR1 d, Wr I2C1_CR1 (d OR I2C_CR1_STOP)]
      else e0 = []"
    unfolding e0_def by (cases "i = len - 1") auto
  moreover have "r = I2C_OK \<longrightarrow> only_polls e"
    using w(1) i2c_poll_only_polls [of dev ?p I2C_ERR_TIMEOUT_RX _ "t @ e0" "(t @ e0) @ e"]
    by (auto simp: wait_for_def)
  ultimately show ?thesis
    using that w(2) by blast
qed

lemma i2c_recv_effect:
  assumes "unat len \<le> length data" and "unat i < unat len"
  shows "\<exists>r bs evs. i2c_recv dev data i len t = Some (r, take (unat i) data @ bs @ drop (unat i + length bs) data, t @ evs) \<and>
    recv_effect (unat len - unat i) r bs evs"
  using assms
proof (induction "unat len - unat i" arbitrary: i data t)
  case 0
  then show ?case by simp
next
  case (Suc m)
  have i: "unat i < length data" "i < len"
    using Suc.prems by (auto simp: word_less_nat_alt)
  note S = unat_Suc_below [OF Suc.prems(2)]
  have "unat (len - 1) = unat len - 1"
    using Suc.prems(2) by (subst unat_minus_le) (auto simp: word_le_nat_alt)
  then have final: "i = len - 1 \<longleftrightarrow> unat (i + 1) = unat len"
    using S Suc.prems(2) by (auto simp: word_unat_eq_iff)
  have diff: "unat len - unat i = Suc (unat len - unat (i + 1))"
    using S Suc.prems(2) by simp
  obtain e0 r e v where step: "i2c_recv dev data i len t = (if r \<noteq> I2C_OK then Some (r, data, t @ e0 @ e)
      else i2c_recv dev (data[unat i := ucast v]) (i + 1) len (t @ e0 @ e @ [Rd I2C1_DR v]))"
    "wait_effect I2C_ERR_TIMEOUT_RX WAIT_MAX r e"
    "if i = len - 1 then \<exists>c d. e0 = [Rd I2C1_CR1 c, Wr I2C1_CR1 (c AND NOT I2C_CR1_ACK), Rd I2C1_CR1 d, Wr I2C1_CR1 (d OR I2C_CR1_STOP)]
     else e0 = []"
    "r = I2C_OK \<longrightarrow> only_polls e"
    by (rule i2c_recv_step [OF i])
  let ?data = "data[unat i := ucast v]"
  consider (fail) "r \<noteq> I2C_OK" | (final) "r = I2C_OK" "i = len - 1" | (more) "r = I2C_OK" "i \<noteq> len - 1"
    by blast
  then show ?case
  proof cases
    case fail
    have "e0 = [] \<or> (\<exists>a b c d. e0 = [Rd I2C1_CR1 a, Wr I2C1_CR1 b, Rd I2C1_CR1 c, Wr I2C1_CR1 d])"
      using step(3) by (cases "i = len - 1") auto
    then have "recv_effect (unat len - unat i) r [] (e0 @ e)"
      unfolding diff by (rule recv_effect_fail [OF step(2) fail])
    then show ?thesis
      using step(1) fail by (intro exI [of _ r] exI [of _ "[]"] exI [of _ "e0 @ e"]) simp
  next
    case final: final
    have "unat len - unat i = 1"
      using \<open>i = len - 1 \<longleftrightarrow> _\<close> final(2) S Suc.prems(2) by simp
    then have "recv_effect (unat len - unat i) I2C_OK [ucast v] (e0 @ e @ [Rd I2C1_DR v])"
      using recv_effect_last [of e v] step(2-4) final by auto
    moreover have "i2c_recv dev ?data (i + 1) len t = Some (I2C_OK, ?data, t)" for t
      using \<open>i = len - 1 \<longleftrightarrow> _\<close> final(2) by (subst i2c_recv.simps) (simp add: word_less_nat_alt)
    moreover have "take (unat i) data @ [ucast v] @ drop (unat i + length [ucast v :: u8]) data = ?data"
      using i(1) by (simp add: upd_conv_take_nth_drop)
    ultimately show ?thesis
      using step(1) final(1) by (intro exI [of _ I2C_OK] exI [of _ "[ucast v]"] exI [of _ "e0 @ e @ [Rd I2C1_DR v]"]) simp
  next
    case more
    then have "unat (i + 1) < unat len" "e0 = []"
      using final S Suc.prems(2) step(3) by auto
    then obtain r' bs evs where ih: "i2c_recv dev ?data (i + 1) len (t @ e0 @ e @ [Rd I2C1_DR v]) =
        Some (r', take (unat (i + 1)) ?data @ bs @ drop (unat (i + 1) + length bs) ?data, (t @ e0 @ e @ [Rd I2C1_DR v]) @ evs)"
      "recv_effect (unat len - unat (i + 1)) r' bs evs"
      using Suc.hyps(1) [of "i + 1" ?data "t @ e0 @ e @ [Rd I2C1_DR v]"] Suc.hyps(2) Suc.prems(1) diff by auto
    have buf: "take (unat (i + 1)) ?data @ bs @ drop (unat (i + 1) + length bs) ?data =
        take (unat i) data @ (ucast v # bs) @ drop (unat i + length (ucast v # bs)) data"
      unfolding S using i(1) by (simp add: take_Suc_update)
    have "recv_effect (unat len - unat i) r' (ucast v # bs) (e @ [Rd I2C1_DR v] @ evs)"
      unfolding diff using recv_effect_step [OF _ ih(2)] step(2) more(1) by simp
    then show ?thesis
      using step(1) ih(1) more(1) \<open>e0 = []\<close> unfolding buf
      by (intro exI [of _ r'] exI [of _ "ucast v # bs"] exI [of _ "e @ [Rd I2C1_DR v] @ evs"]) simp
  qed
qed

text \<open>The accesses of a read that succeeds: the start with the acknowledge on, all bytes but the last,
  the acknowledge cleared and the stop requested, polls of SR1, the last byte, and the acknowledge
  switched on again.\<close>

definition read_traffic :: "nat \<Rightarrow> io_trace \<Rightarrow> bool" where
  "read_traffic n evs \<longleftrightarrow> (\<exists>w x y v z e1 e2.
     evs = e1 @ [Wr I2C1_CR1 (x AND NOT I2C_CR1_ACK), Rd I2C1_CR1 y, Wr I2C1_CR1 (y OR I2C_CR1_STOP)] @ e2 @
       [Rd I2C1_DR v, Rd I2C1_CR1 z, Wr I2C1_CR1 (z OR I2C_CR1_ACK)] \<and>
     writes_to I2C1_CR1 e1 = [w OR (I2C_CR1_ACK OR I2C_CR1_START)] \<and>
     length (reads_of I2C1_DR e1) + 1 = n \<and> only_polls e2)"

lemma read_ok_traffic:
  assumes "writes_to I2C1_CR1 e1 = [w OR (I2C_CR1_ACK OR I2C_CR1_START)]" and "reads_of I2C1_DR e1 = []"
    and "recv_effect n I2C_OK bs e2"
  shows "read_traffic n (e1 @ e2 @ [Rd I2C1_CR1 z, Wr I2C1_CR1 (z OR I2C_CR1_ACK)])"
proof -
  obtain x y f g v where e2: "e2 = f @ [Wr I2C1_CR1 (x AND NOT I2C_CR1_ACK), Rd I2C1_CR1 y, Wr I2C1_CR1 (y OR I2C_CR1_STOP)] @
      g @ [Rd I2C1_DR v]" "writes_to I2C1_CR1 f = []" "only_polls g"
    using assms(3) unfolding recv_effect_def nack_stop_def by blast
  have "length (reads_of I2C1_DR e2) = n"
    using assms(3) unfolding recv_effect_def by (metis length_map)
  then have "length (reads_of I2C1_DR f) + 1 = n"
    using only_polls_reads [OF e2(3)] by (simp add: e2(1))
  then show ?thesis
    using assms(1,2) e2 unfolding read_traffic_def
    by (intro exI [of _ w] exI [of _ x] exI [of _ y] exI [of _ v] exI [of _ z] exI [of _ "e1 @ f"] exI [of _ g]) simp
qed

lemma read_bound:
  assumes "length e1 \<le> 3 * WAIT_MAX + 5" and "length e2 \<le> n * (WAIT_MAX + 1) + 4" and "length e3 \<le> 2"
  shows "length (e1 @ e2 @ e3) \<le> (n + 4) * (WAIT_MAX + 2) + 2"
proof -
  have "(n + 4) * (WAIT_MAX + 2) + 2 = n * (WAIT_MAX + 1) + n + 4 * WAIT_MAX + 10"
    by (simp add: algebra_simps)
  moreover have "1 \<le> WAIT_MAX"
    by (simp add: WAIT_MAX_def)
  ultimately show ?thesis
    using assms by simp
qed

lemma i2c_read_parts:
  assumes "unat len \<le> length data" and "len \<noteq> 0"
  obtains r1 e1 r2 bs e2 where
    "i2c_start dev adr True t = (r1, t @ e1)" and "length e1 \<le> 3 * WAIT_MAX + 5" and "reads_of I2C1_DR e1 = []"
    and "writes_to I2C1_DR e1 = [] \<or> writes_to I2C1_DR e1 = [addr_byte adr True]"
    and "r1 = I2C_OK \<longrightarrow> writes_to I2C1_DR e1 = [addr_byte adr True] \<and>
       (\<exists>x. writes_to I2C1_CR1 e1 = [x OR (I2C_CR1_ACK OR I2C_CR1_START)])"
    and "i2c_recv dev data 0 len (t @ e1) = Some (r2, bs @ drop (length bs) data, t @ e1 @ e2)"
    and "recv_effect (unat len) r2 bs e2"
proof -
  obtain r1 e1 where s1: "i2c_start dev adr True t = (r1, t @ e1)" "length e1 \<le> 3 * WAIT_MAX + 5"
    "reads_of I2C1_DR e1 = []" "writes_to I2C1_DR e1 = [] \<or> writes_to I2C1_DR e1 = [addr_byte adr True]"
    "r1 = I2C_OK \<longrightarrow> writes_to I2C1_DR e1 = [addr_byte adr True] \<and>
       (\<exists>x. writes_to I2C1_CR1 e1 = [x OR (I2C_CR1_ACK OR I2C_CR1_START)])"
    using i2c_start_effect by blast
  have pos: "unat (0 :: u32) < unat len"
    using assms(2) unat_gt_0 [of len] by simp
  obtain r2 bs e2 where "i2c_recv dev data 0 len (t @ e1) = Some (r2, bs @ drop (length bs) data, t @ e1 @ e2)"
    "recv_effect (unat len) r2 bs e2"
    using i2c_recv_effect [OF assms(1) pos, of dev "t @ e1"]
    unfolding unsigned_0 take_0 append_Nil diff_zero add_0 append_assoc by blast
  then show ?thesis
    using that [OF s1] by blast
qed

text \<open>C28. A read of length 0 is refused without touching the bus. Any other is bounded on every device,
  stays inside the buffer, puts at most the address byte in the data register and stores the
  low bytes of what it read, in order, leaving the rest of the buffer alone. On success it read
  exactly \<open>len\<close> bytes, and its writes to the control register come in this order: the start with the
  acknowledge on; then, when \<open>len - 1\<close> bytes have been read, the acknowledge cleared and the stop
  requested one right after the other; and, with only polls of SR1 and the read of the last byte
  between, the acknowledge restored as the very last access.\<close>

theorem i2c_read_exact:
  assumes "unat len \<le> length data"
  shows "\<exists>r bs evs. i2c_read dev addr7 data len t = Some (r, bs @ drop (length bs) data, t @ evs) \<and>
    bs = map ucast (reads_of I2C1_DR evs) \<and> length bs \<le> unat len \<and>
    length evs \<le> (unat len + 4) * (WAIT_MAX + 2) + 2 \<and>
    (writes_to I2C1_DR evs = [] \<or> writes_to I2C1_DR evs = [addr_byte addr7 True]) \<and>
    (len = 0 \<longrightarrow> r = I2C_ERR_PARAM \<and> evs = []) \<and>
    (r = I2C_OK \<longrightarrow> length bs = unat len \<and> writes_to I2C1_DR evs = [addr_byte addr7 True] \<and>
      read_traffic (unat len) evs)"
proof (cases "len = 0")
  case True
  then have "i2c_read dev addr7 data len t = Some (I2C_ERR_PARAM, data, t)"
    by (simp add: i2c_read_def)
  then show ?thesis
    using True by (intro exI [of _ I2C_ERR_PARAM] exI [of _ "[]"]) simp
next
  case False
  obtain r1 e1 r2 bs e2 where s1: "i2c_start dev addr7 True t = (r1, t @ e1)" "length e1 \<le> 3 * WAIT_MAX + 5"
    "reads_of I2C1_DR e1 = []" "writes_to I2C1_DR e1 = [] \<or> writes_to I2C1_DR e1 = [addr_byte addr7 True]"
    "r1 = I2C_OK \<longrightarrow> writes_to I2C1_DR e1 = [addr_byte addr7 True] \<and>
       (\<exists>x. writes_to I2C1_CR1 e1 = [x OR (I2C_CR1_ACK OR I2C_CR1_START)])"
    and s2: "i2c_recv dev data 0 len (t @ e1) = Some (r2, bs @ drop (length bs) data, t @ e1 @ e2)" "recv_effect (unat len) r2 bs e2"
    by (rule i2c_read_parts [where dev = dev and adr = addr7 and t = t, OF assms False])
  note R = s2(2) [unfolded recv_effect_def]
  consider (start) "r1 \<noteq> I2C_OK" | (recv) "r1 = I2C_OK" "r2 \<noteq> I2C_OK" | (ok) "r1 = I2C_OK" "r2 = I2C_OK"
    by blast
  then show ?thesis
  proof cases
    case start
    then show ?thesis
      using s1(1-4) False read_bound [OF s1(2), of "[]" "unat len" "[]"]
      by (intro exI [of _ r1] exI [of _ "[]"] exI [of _ e1]) (simp add: i2c_read_def)
  next
    case recv
    then show ?thesis
      using s1(1,3,5) s2(1) R False read_bound [OF s1(2), of e2 "unat len" "[]"]
      by (intro exI [of _ r2] exI [of _ bs] exI [of _ "e1 @ e2"]) (auto simp: i2c_read_def)
  next
    case ok
    define z where "z = dev (t @ e1 @ e2) I2C1_CR1"
    let ?z = "[Rd I2C1_CR1 z, Wr I2C1_CR1 (z OR I2C_CR1_ACK)]"
    obtain w where w: "writes_to I2C1_DR e1 = [addr_byte addr7 True]"
      "writes_to I2C1_CR1 e1 = [w OR (I2C_CR1_ACK OR I2C_CR1_START)]" "length bs = unat len"
      using s1(5) R ok by blast
    have "i2c_read dev addr7 data len t = Some (I2C_OK, bs @ drop (length bs) data, t @ e1 @ e2 @ ?z)"
      unfolding i2c_read_def s1(1) using ok False s2(1) by (simp add: reg_simps z_def)
    moreover have "length (e1 @ e2 @ ?z) \<le> (unat len + 4) * (WAIT_MAX + 2) + 2"
      using R by (intro read_bound s1(2)) simp_all
    moreover have "bs = map ucast (reads_of I2C1_DR (e1 @ e2 @ ?z))" "writes_to I2C1_DR (e1 @ e2 @ ?z) = [addr_byte addr7 True]"
      using s1(3) w(1) R by simp_all
    moreover have "length bs \<le> unat len"
      using w(3) by simp
    ultimately show ?thesis
      using w(3) False read_ok_traffic [OF w(2) s1(3) s2(2) [unfolded ok(2)], of z]
      by (intro exI [of _ I2C_OK] exI [of _ bs] exI [of _ "e1 @ e2 @ ?z"]) blast
  qed
qed

text \<open>A device on which the read succeeds: every flag that is waited for is set, and a read of the
  data register gives the number of accesses made so far.\<close>

definition i2c_counting :: device where
  "i2c_counting t a = (if a = I2C1_SR1 then 0x43 else if a = I2C1_DR then of_nat (length t) else 0)"

lemma wait_for_at_once: "p (dev t reg) \<Longrightarrow> wait_for dev reg p err t = (I2C_OK, t @ [Rd reg (dev t reg)])"
  unfolding wait_for_def by (subst i2c_poll.simps) (simp add: reg_read_def)

lemma i2c_counting_waits:
  "wait_for i2c_counting I2C1_SR2 (\<lambda>v. v AND I2C_SR2_BUSY = 0) err t = (I2C_OK, t @ [Rd I2C1_SR2 0])"
  "wait_for i2c_counting I2C1_SR1 (\<lambda>v. v AND I2C_SR1_SB \<noteq> 0) err t = (I2C_OK, t @ [Rd I2C1_SR1 0x43])"
  "wait_for i2c_counting I2C1_SR1 (\<lambda>v. v AND I2C_SR1_ADDR \<noteq> 0) err t = (I2C_OK, t @ [Rd I2C1_SR1 0x43])"
  "wait_for i2c_counting I2C1_SR1 (\<lambda>v. v AND I2C_SR1_RXNE \<noteq> 0) err t = (I2C_OK, t @ [Rd I2C1_SR1 0x43])"
  by (subst wait_for_at_once; simp add: i2c_counting_def stm_regs I2C_SR1_SB_def I2C_SR1_ADDR_def I2C_SR1_RXNE_def)+

lemma i2c_counting_read:
  "\<exists>evs. i2c_read i2c_counting 0x50 [7, 8, 9, 10] 3 [] = Some (I2C_OK, [9, 11, 17, 10], evs)"
  by (simp add: i2c_read_def i2c_start_def i2c_counting_waits i2c_recv.simps reg_simps mem Let_def)
    (simp add: i2c_counting_def)

theorem i2c_read_exact_witness:
  "\<exists>evs. i2c_read i2c_counting 0x50 [7, 8, 9, 10] 3 [] = Some (I2C_OK, [9, 11, 17, 10], evs) \<and>
    read_traffic 3 evs \<and> writes_to I2C1_DR evs = [0xA1]"
proof -
  have "unat (3 :: u32) \<le> length [7 :: u8, 8, 9, 10]"
    by simp
  from i2c_read_exact [OF this, of i2c_counting "0x50" "[]"] show ?thesis
    using i2c_counting_read by (auto simp: addr_byte_def push_bit_eq_mult)
qed

section \<open>The repeated start\<close>

text \<open>The bus as the reference manual documents it. Once the controller has reported its start
  condition (SB), the bus is busy until a stop is requested or the peripheral is reset or
  disabled; \<open>bus_law\<close> says that a device shows this in BUSY.\<close>

fun owns_bus :: "bool \<Rightarrow> io_trace \<Rightarrow> bool" where
  "owns_bus b [] = b"
| "owns_bus b (Rd a v # t) = owns_bus (b \<or> a = I2C1_SR1 \<and> v AND I2C_SR1_SB \<noteq> 0) t"
| "owns_bus b (Wr a v # t) =
     owns_bus (b \<and> \<not> (a = I2C1_CR1 \<and> (v AND I2C_CR1_STOP \<noteq> 0 \<or> v AND I2C_CR1_SWRST \<noteq> 0 \<or> v AND I2C_CR1_PE = 0))) t"
| "owns_bus b (Wr8 a v # t) = owns_bus b t"

definition bus_law :: "device \<Rightarrow> bool" where
  "bus_law dev \<longleftrightarrow> (\<forall>t. owns_bus False t \<longrightarrow> dev t I2C1_SR2 AND I2C_SR2_BUSY \<noteq> 0)"

lemma owns_bus_append [simp]: "owns_bus b (s @ t) = owns_bus (owns_bus b s) t"
  by (induction b s rule: owns_bus.induct) auto

lemma owns_bus_keeps: "writes_to I2C1_CR1 evs = [] \<Longrightarrow> owns_bus True evs"
  by (induction True evs rule: owns_bus.induct) (auto split: if_splits)

lemma i2c_poll_ok:
  "i2c_poll dev reg p err k t = (I2C_OK, t') \<Longrightarrow> err \<noteq> I2C_OK \<Longrightarrow> \<exists>t1 v. t' = t1 @ [Rd reg v] \<and> p v"
proof (induction k arbitrary: t)
  case 0
  then show ?case
    by (subst (asm) i2c_poll.simps) (auto simp: reg_read_def split: if_splits)
next
  case (Suc k)
  from Suc.prems Suc.IH show ?case
    by (subst (asm) i2c_poll.simps) (auto simp: reg_read_def split: if_splits)
qed

lemma wait_for_ok:
  "wait_for dev reg p err t = (I2C_OK, t') \<Longrightarrow> err \<noteq> I2C_OK \<Longrightarrow> \<exists>t1 v. t' = t1 @ [Rd reg v] \<and> p v"
  unfolding wait_for_def by (rule i2c_poll_ok)

lemma wait_for_quiet:
  assumes "wait_for dev reg p err t = (I2C_OK, t')" "reg \<in> {I2C1_SR1, I2C1_SR2}" "err \<noteq> I2C_OK"
  shows "\<exists>evs. t' = t @ evs \<and> writes_to I2C1_CR1 evs = []"
  using wait_for_effect [OF assms(2,3), of dev p t] assms(1) by (auto simp: wait_effect_def)

lemma i2c_start_owns:
  assumes "i2c_start dev addr7 reading t = (I2C_OK, t')"
  shows "owns_bus False t'"
proof -
  let ?p1 = "\<lambda>v. v AND I2C_SR2_BUSY = 0" and ?p2 = "\<lambda>v. v AND I2C_SR1_SB \<noteq> 0" and ?p3 = "\<lambda>v. v AND I2C_SR1_ADDR \<noteq> 0"
  obtain t1 t2 t3 where w: "wait_for dev I2C1_SR1 ?p2 I2C_ERR_TIMEOUT_START t1 = (I2C_OK, t2)"
    "wait_for dev I2C1_SR1 ?p3 I2C_ERR_NACK (t2 @ [Wr I2C1_DR (addr_byte addr7 reading)]) = (I2C_OK, t3)"
    "t' = snd (reg_read dev I2C1_SR2 (snd (reg_read dev I2C1_SR1 t3)))"
    using assms unfolding i2c_start_def Let_def reg_write_def addr_byte_def
    by (auto split: prod.splits if_splits)
  have "owns_bus False t2"
    using wait_for_ok [OF w(1)] by auto
  moreover obtain evs where "t3 = (t2 @ [Wr I2C1_DR (addr_byte addr7 reading)]) @ evs" "writes_to I2C1_CR1 evs = []"
    using wait_for_quiet [OF w(2)] by auto
  ultimately show ?thesis
    using owns_bus_keeps [of evs] w(3) by (simp add: reg_read_def)
qed

lemma i2c_out_owns:
  assumes "i2c_out dev addr7 data len t = Some (I2C_OK, t')" and "unat len \<le> length data"
  shows "owns_bus False t'"
proof -
  obtain t1 where s1: "i2c_start dev addr7 False t = (I2C_OK, t1)"
    using assms(1) unfolding i2c_out_def by (auto split: prod.splits if_splits)
  obtain r2 e2 where s2: "i2c_send dev data 0 len t1 = Some (r2, t1 @ e2)"
    "r2 = I2C_OK \<Longrightarrow> writes_to I2C1_CR1 e2 = []"
    using i2c_send_effect [of len data 0 dev t1] assms(2) by auto
  have r2: "r2 = I2C_OK" and w: "wait_for dev I2C1_SR1 (\<lambda>v. v AND I2C_SR1_BTF \<noteq> 0) I2C_ERR_TIMEOUT_TX (t1 @ e2) = (I2C_OK, t')"
    using assms(1) unfolding i2c_out_def s1 by (auto simp: s2(1) split: if_splits)
  obtain e3 where "t' = (t1 @ e2) @ e3" "writes_to I2C1_CR1 e3 = []"
    using wait_for_quiet [OF w] by auto
  then show ?thesis
    using i2c_start_owns [OF s1] s2(2) [OF r2] by (simp add: owns_bus_keeps)
qed

lemma i2c_poll_busy:
  assumes "bus_law dev" and "owns_bus False t" and "err \<noteq> I2C_OK"
  shows "fst (i2c_poll dev I2C1_SR2 (\<lambda>v. v AND I2C_SR2_BUSY = 0) err k t) \<noteq> I2C_OK"
  using assms(2)
proof (induction k arbitrary: t)
  case 0
  then show ?case
    using assms(1,3) by (subst i2c_poll.simps) (auto simp: reg_read_def bus_law_def)
next
  case (Suc k)
  then show ?case
    using assms(1) by (subst i2c_poll.simps) (auto simp: reg_read_def bus_law_def)
qed

lemma i2c_read_busy:
  assumes "bus_law dev" and "owns_bus False t"
  shows "\<exists>r evs. i2c_read dev addr7 data len t = Some (r, data, t @ evs) \<and> r \<noteq> I2C_OK \<and> reads_of I2C1_DR evs = []"
proof -
  let ?p = "\<lambda>v. v AND I2C_SR2_BUSY = 0"
  obtain r evs where w: "wait_for dev I2C1_SR2 ?p I2C_ERR_BUS_BUSY t = (r, t @ evs)"
    "wait_effect I2C_ERR_BUS_BUSY WAIT_MAX r evs"
    using wait_for_effect [of I2C1_SR2 I2C_ERR_BUS_BUSY dev ?p t] by auto
  have "r \<noteq> I2C_OK"
    using i2c_poll_busy [OF assms, of I2C_ERR_BUS_BUSY "I2C_TIMEOUT_LOOPS - 1"] w(1) by (simp add: wait_for_def)
  then show ?thesis
    using w by (cases "len = 0") (auto simp: i2c_read_def i2c_start_def wait_effect_def)
qed

text \<open>C27. The repeated start never happens. \<open>i2c_write_read\<close> leaves the bus owned and then calls
  \<open>i2c_read\<close>, whose start waits for BUSY to clear first: on a bus that behaves as documented
  the call never returns \<open>I2C_OK\<close>, never reads a byte and leaves the receive buffer as it was.\<close>

theorem i2c_write_read_never_ok:
  assumes "bus_law dev" and "unat tx_len \<le> length tx"
  shows "\<exists>r evs. i2c_write_read dev addr7 tx tx_len rx rx_len t = Some (r, rx, t @ evs) \<and>
    r \<noteq> I2C_OK \<and> reads_of I2C1_DR evs = []"
proof -
  obtain r evs where o: "i2c_out dev addr7 tx tx_len t = Some (r, t @ evs)" "reads_of I2C1_DR evs = []"
    using i2c_out_effect [OF assms(2), of dev addr7 t] by blast
  show ?thesis
  proof (cases "r = I2C_OK")
    case False
    then show ?thesis
      using o by (simp add: i2c_write_read_out)
  next
    case True
    have "owns_bus False (t @ evs)"
      using o(1) True assms(2) by (intro i2c_out_owns) simp_all
    then obtain r' e where "i2c_read dev addr7 rx rx_len (t @ evs) = Some (r', rx, (t @ evs) @ e)"
      "r' \<noteq> I2C_OK" "reads_of I2C1_DR e = []"
      using i2c_read_busy [OF assms(1)] by blast
    then show ?thesis
      using o True by (simp add: i2c_write_read_out)
  qed
qed

text \<open>A device that follows the law and acknowledges everything.\<close>

definition i2c_bus :: device where
  "i2c_bus t a =
     (if a = I2C1_SR2 then (if owns_bus False t then I2C_SR2_BUSY else 0)
      else if a = I2C1_SR1 then 0x87 else 0)"

theorem i2c_write_read_never_ok_witness:
  "fst (i2c_start i2c_bus 0x50 False []) = I2C_OK \<and>
   (\<exists>r evs. i2c_write_read i2c_bus 0x50 [0x10] 1 [0, 0] 2 [] = Some (r, [0, 0], evs) \<and> r \<noteq> I2C_OK)"
proof -
  have "bus_law i2c_bus"
    by (simp add: bus_law_def i2c_bus_def I2C_SR2_BUSY_def)
  then have "\<exists>r evs. i2c_write_read i2c_bus 0x50 [0x10] 1 [0, 0] 2 [] = Some (r, [0, 0], evs) \<and> r \<noteq> I2C_OK"
    using i2c_write_read_never_ok [of i2c_bus 1 "[0x10]" "0x50" "[0, 0]" 2 "[]"] by fastforce
  moreover have "fst (i2c_start i2c_bus 0x50 False []) = I2C_OK"
    by (simp add: i2c_start_def wait_for_def i2c_poll.simps reg_simps i2c_bus_def stm_regs
        I2C_SR1_SB_def I2C_SR1_ADDR_def)
  ultimately show ?thesis
    by blast
qed

section \<open>Bus recovery and configuration\<close>

lemma recover_clocks_effect:
  "\<exists>n evs. recover_clocks dev k t = t @ evs \<and> n \<le> k \<and> (0 < k \<longrightarrow> 0 < n) \<and>
    writes_to (GPIO_BSRR GPIOB_BASE) evs = concat (replicate n [push_bit 22 1, push_bit 6 1]) \<and>
    length (reads_of (GPIO_IDR GPIOB_BASE) evs) = n \<and> writes_to I2C1_CR1 evs = [] \<and>
    (\<forall>v \<in> set (butlast (reads_of (GPIO_IDR GPIOB_BASE) evs)). \<not> bit v 7) \<and>
    (n < k \<longrightarrow> bit (last (reads_of (GPIO_IDR GPIOB_BASE) evs)) 7)"
proof (induction k arbitrary: t)
  case 0
  then show ?case
    by (intro exI [of _ 0] exI [of _ "[]"]) simp
next
  case (Suc k)
  let ?w = "[Wr (GPIO_BSRR GPIOB_BASE) (push_bit 22 1), Wr (GPIO_BSRR GPIOB_BASE) (push_bit 6 1)]"
  let ?v = "dev (t @ ?w) (GPIO_IDR GPIOB_BASE)"
  let ?e = "?w @ [Rd (GPIO_IDR GPIOB_BASE) ?v]"
  have ne: "GPIO_BSRR GPIOB_BASE \<noteq> GPIO_IDR GPIOB_BASE" "GPIO_BSRR GPIOB_BASE \<noteq> I2C1_CR1"
    by (simp_all add: stm_regs)
  have b: "?v AND push_bit 7 1 \<noteq> 0 \<longleftrightarrow> bit ?v 7"
    by (rule and_bit_nonzero)
  have step: "recover_clocks dev (Suc k) t = (if bit ?v 7 then t @ ?e else recover_clocks dev k (t @ ?e))"
    unfolding b [symmetric] by (simp add: reg_write_def reg_read_def)
  show ?case
  proof (cases "bit ?v 7")
    case True
    then show ?thesis
      using ne unfolding step by (intro exI [of _ 1] exI [of _ ?e]) simp
  next
    case False
    obtain n evs where ih: "recover_clocks dev k (t @ ?e) = (t @ ?e) @ evs" "n \<le> k" "0 < k \<longrightarrow> 0 < n"
      "writes_to (GPIO_BSRR GPIOB_BASE) evs = concat (replicate n [push_bit 22 1, push_bit 6 1])"
      "length (reads_of (GPIO_IDR GPIOB_BASE) evs) = n" "writes_to I2C1_CR1 evs = []"
      "\<forall>v \<in> set (butlast (reads_of (GPIO_IDR GPIOB_BASE) evs)). \<not> bit v 7"
      "n < k \<longrightarrow> bit (last (reads_of (GPIO_IDR GPIOB_BASE) evs)) 7"
      using Suc.IH by blast
    show ?thesis
      unfolding step using False ih ne
      by (intro exI [of _ "Suc n"] exI [of _ "?e @ evs"]) (cases "reads_of (GPIO_IDR GPIOB_BASE) evs", auto)
  qed
qed

text \<open>Bus recovery releases both lines, gives between 1 and 9 clock pulses on SCL, the last one the
  first after which SDA reads high when there are fewer than 9, then makes the stop condition
  (SDA low, SDA high) and resets the peripheral.\<close>

theorem i2c_bus_recover_clocks:
  "\<exists>n evs. i2c_bus_recover dev t = t @ evs \<and> 1 \<le> n \<and> n \<le> 9 \<and>
     writes_to (GPIO_BSRR GPIOB_BASE) evs =
       [push_bit 6 3] @ concat (replicate n [push_bit 22 1, push_bit 6 1]) @ [push_bit 23 1, push_bit 7 1] \<and>
     length (reads_of (GPIO_IDR GPIOB_BASE) evs) = n \<and>
     list_all (\<lambda>v. \<not> bit v 7) (butlast (reads_of (GPIO_IDR GPIOB_BASE) evs)) \<and>
     (n = 9 \<or> bit (last (reads_of (GPIO_IDR GPIOB_BASE) evs)) 7) \<and>
     writes_to I2C1_CR1 evs = [I2C_CR1_SWRST, 0]"
proof -
  let ?B = "GPIO_BSRR GPIOB_BASE" and ?I = "GPIO_IDR GPIOB_BASE"
  have ne: "RCC_AHB1ENR \<noteq> ?B" "GPIO_MODER GPIOB_BASE \<noteq> ?B" "GPIO_OTYPER GPIOB_BASE \<noteq> ?B" "I2C1_CR1 \<noteq> ?B"
    "RCC_AHB1ENR \<noteq> ?I" "GPIO_MODER GPIOB_BASE \<noteq> ?I" "GPIO_OTYPER GPIOB_BASE \<noteq> ?I"
    "RCC_AHB1ENR \<noteq> I2C1_CR1" "GPIO_MODER GPIOB_BASE \<noteq> I2C1_CR1" "GPIO_OTYPER GPIOB_BASE \<noteq> I2C1_CR1" "?B \<noteq> I2C1_CR1"
    by (simp_all add: stm_regs)
  obtain a where a: "reg_set dev RCC_AHB1ENR RCC_AHB1ENR_GPIOBEN t = t @ a"
    "writes_to ?B a = []" "reads_of ?I a = []" "writes_to I2C1_CR1 a = []"
    using reg_set_adds [of dev RCC_AHB1ENR RCC_AHB1ENR_GPIOBEN t] ne by auto
  obtain b where b: "reg_modify dev (GPIO_MODER GPIOB_BASE) (push_bit 12 0xF) (push_bit 12 0x5) (t @ a) = (t @ a) @ b"
    "writes_to ?B b = []" "reads_of ?I b = []" "writes_to I2C1_CR1 b = []"
    using reg_modify_adds [of dev "GPIO_MODER GPIOB_BASE" "push_bit 12 0xF" "push_bit 12 0x5" "t @ a"] ne by auto
  obtain c where c: "reg_set dev (GPIO_OTYPER GPIOB_BASE) (push_bit 6 3) ((t @ a) @ b) = ((t @ a) @ b) @ c"
    "writes_to ?B c = []" "reads_of ?I c = []" "writes_to I2C1_CR1 c = []"
    using reg_set_adds [of dev "GPIO_OTYPER GPIOB_BASE" "push_bit 6 3" "(t @ a) @ b"] ne by auto
  let ?t = "(((t @ a) @ b) @ c) @ [Wr ?B (push_bit 6 3)]"
  obtain n d where d: "recover_clocks dev 9 ?t = ?t @ d" "n \<le> 9" "0 < n"
    "writes_to ?B d = concat (replicate n [push_bit 22 1, push_bit 6 1])" "length (reads_of ?I d) = n"
    "\<forall>v \<in> set (butlast (reads_of ?I d)). \<not> bit v 7" "n < 9 \<longrightarrow> bit (last (reads_of ?I d)) 7"
    "writes_to I2C1_CR1 d = []"
    using recover_clocks_effect [of dev 9 ?t] by (elim exE conjE) (rule that, simp_all)
  let ?e = "a @ b @ c @ [Wr ?B (push_bit 6 3)] @ d @
    [Wr ?B (push_bit 23 1), Wr ?B (push_bit 7 1), Wr I2C1_CR1 I2C_CR1_SWRST, Wr I2C1_CR1 0]"
  have "i2c_bus_recover dev t = t @ ?e"
    unfolding i2c_bus_recover_def Let_def a(1) b(1) c(1) i2c_delay_adds_nothing reg_write_def d(1) by simp
  moreover have "writes_to ?B ?e = [push_bit 6 3] @ concat (replicate n [push_bit 22 1, push_bit 6 1]) @ [push_bit 23 1, push_bit 7 1]"
    "reads_of ?I ?e = reads_of ?I d" "writes_to I2C1_CR1 ?e = [I2C_CR1_SWRST, 0]"
    using a b c d ne by simp_all
  ultimately show ?thesis
    using d by (intro exI [of _ n] exI [of _ ?e]) (auto simp: list_all_iff)
qed

lemma i2c_init_None: "i2c_init dev pclk1_hz 0 t = None"
  by (simp add: i2c_init_def udiv_def Let_def)

text \<open>The divider as the code computes it, and as a quotient.\<close>

definition i2c_ccr :: "u32 \<Rightarrow> u32 \<Rightarrow> u32" where
  "i2c_ccr pclk1_hz scl_hz =
     (if scl_hz \<le> 100000 then max 4 (pclk1_hz div (2 * scl_hz)) else max 1 (pclk1_hz div (3 * scl_hz)))"

lemma i2c_ccr_unat:
  assumes "unat scl_hz * 3 < 2 ^ 32"
  shows "unat (i2c_ccr pclk1_hz scl_hz) =
    max (if scl_hz \<le> 100000 then 4 else 1) (unat pclk1_hz div ((if scl_hz \<le> 100000 then 2 else 3) * unat scl_hz))"
proof -
  have "unat (2 * scl_hz) = 2 * unat scl_hz" "unat (3 * scl_hz) = 3 * unat scl_hz"
    using assms by (simp_all add: unat_mult_lt)
  then have "unat (pclk1_hz div (2 * scl_hz)) = unat pclk1_hz div (2 * unat scl_hz)"
    "unat (pclk1_hz div (3 * scl_hz)) = unat pclk1_hz div (3 * unat scl_hz)"
    by (simp_all add: unat_div)
  then show ?thesis
    by (auto simp: i2c_ccr_def max_def word_le_nat_alt)
qed

lemma i2c_init_ccr:
  assumes "0 < scl_hz" and "unat scl_hz * 3 < 2 ^ 32"
  shows "\<exists>t'. i2c_init dev pclk1_hz scl_hz t = Some t' \<and>
    writes_to I2C1_CCR t' = writes_to I2C1_CCR t @
      [if scl_hz \<le> 100000 then i2c_ccr pclk1_hz scl_hz else push_bit 15 1 OR i2c_ccr pclk1_hz scl_hz] \<and>
    last t' = Wr I2C1_CR1 I2C_CR1_PE"
proof -
  have "unat (2 * scl_hz) = 2 * unat scl_hz" "unat (3 * scl_hz) = 3 * unat scl_hz"
    using assms(2) by (simp_all add: unat_mult_lt)
  then have nz: "2 * scl_hz \<noteq> 0" "3 * scl_hz \<noteq> 0"
    using assms(1) by (simp_all add: word_less_nat_alt unat_eq_zero [symmetric] del: unat_eq_zero)
  have ne: "RCC_AHB1ENR \<noteq> I2C1_CCR" "RCC_APB1ENR \<noteq> I2C1_CCR" "GPIO_MODER GPIOB_BASE \<noteq> I2C1_CCR" "GPIO_OTYPER GPIOB_BASE \<noteq> I2C1_CCR"
    "GPIO_OSPEEDR GPIOB_BASE \<noteq> I2C1_CCR" "GPIO_PUPDR GPIOB_BASE \<noteq> I2C1_CCR" "GPIO_AFR0 GPIOB_BASE \<noteq> I2C1_CCR"
    "I2C1_CR1 \<noteq> I2C1_CCR" "I2C1_CR2 \<noteq> I2C1_CCR" "I2C1_TRISE \<noteq> I2C1_CCR"
    by (simp_all add: stm_regs)
  have c: "(if pclk1_hz div (2 * scl_hz) < 4 then 4 else pclk1_hz div (2 * scl_hz)) = max 4 (pclk1_hz div (2 * scl_hz))"
    "(if pclk1_hz div (3 * scl_hz) < 1 then 1 else pclk1_hz div (3 * scl_hz)) = max 1 (pclk1_hz div (3 * scl_hz))"
    by (auto simp: max_def not_le not_less)
  show ?thesis
    unfolding i2c_init_def udiv_def i2c_ccr_def
    by (cases "scl_hz \<le> 100000"; simp only: nz if_True if_False bind.bind_lunit Let_def c option.inject ex_simps simp_thms
        traffic ne append_Nil2; simp add: reg_write_def)
qed

lemma floor_exact:
  fixes d p :: nat
  assumes "4 * d \<le> p" and "0 < d" and "m \<le> 4"
  shows "max m (p div d) * d \<le> p \<and> (max m (p div d) * d = p \<longleftrightarrow> d dvd p)"
proof -
  have "4 \<le> p div d"
    using assms(1,2) by (simp add: less_eq_div_iff_mult_less_eq)
  then have "max m (p div d) = p div d"
    using assms(3) by simp
  then show ?thesis
    by (simp add: div_times_less_eq_dividend) (metis dvd_div_mult_self dvd_triv_right)
qed

text \<open>The clock divider. For a speed that is not zero and does not wrap, \<open>i2c_init\<close> writes the
  control clock register once, with the quotient rounded down (at least 4 in standard mode,
  1 in fast mode, where bit 15 is set), and enables the peripheral last. Rounding down makes the
  bus as fast as asked for or faster: SCL exceeds \<open>scl_hz\<close> unless the quotient is exact.\<close>

theorem i2c_init_rate:
  fixes pclk1_hz scl_hz :: u32
  assumes "0 < scl_hz" and "unat scl_hz * 3 < 2 ^ 32"
  defines "k \<equiv> if scl_hz \<le> 100000 then 2 else 3"
  shows "\<exists>t' n. i2c_init dev pclk1_hz scl_hz t = Some t' \<and>
    writes_to I2C1_CCR t' = writes_to I2C1_CCR t @ [if scl_hz \<le> 100000 then n else push_bit 15 1 OR n] \<and>
    last t' = Wr I2C1_CR1 I2C_CR1_PE \<and>
    unat n = max (if scl_hz \<le> 100000 then 4 else 1) (unat pclk1_hz div (k * unat scl_hz)) \<and>
    (4 * (k * unat scl_hz) \<le> unat pclk1_hz \<longrightarrow> unat n * (k * unat scl_hz) \<le> unat pclk1_hz \<and>
      (unat n * (k * unat scl_hz) = unat pclk1_hz \<longleftrightarrow> k * unat scl_hz dvd unat pclk1_hz))"
proof -
  let ?n = "i2c_ccr pclk1_hz scl_hz"
  have n: "unat ?n = max (if scl_hz \<le> 100000 then 4 else 1) (unat pclk1_hz div (k * unat scl_hz))"
    using i2c_ccr_unat [OF assms(2)] unfolding k_def .
  have "0 < k * unat scl_hz"
    using assms(1) by (simp add: k_def word_less_nat_alt)
  then have "unat ?n * (k * unat scl_hz) \<le> unat pclk1_hz \<and>
      (unat ?n * (k * unat scl_hz) = unat pclk1_hz \<longleftrightarrow> k * unat scl_hz dvd unat pclk1_hz)"
    if "4 * (k * unat scl_hz) \<le> unat pclk1_hz"
    unfolding n by (intro floor_exact that) simp_all
  then show ?thesis
    using i2c_init_ccr [OF assms(1,2), of dev pclk1_hz t] n by blast
qed

theorem i2c_init_rate_witness:
  "\<exists>t'. i2c_init i2c_quiet 16000000 400000 [] = Some t' \<and> writes_to I2C1_CCR t' = [0x800D]"
proof -
  obtain t' n where t': "i2c_init i2c_quiet 16000000 400000 [] = Some t'"
    "writes_to I2C1_CCR t' = writes_to I2C1_CCR [] @ [if (400000 :: u32) \<le> 100000 then n else push_bit 15 1 OR n]"
    "unat n = max (if (400000 :: u32) \<le> 100000 then 4 else 1)
       (unat (16000000 :: u32) div ((if (400000 :: u32) \<le> 100000 then 2 else 3) * unat (400000 :: u32)))"
    using i2c_init_rate [of 400000 i2c_quiet 16000000 "[]"] by auto
  then have "n = 13"
    by (simp add: word_unat_eq_iff)
  then show ?thesis
    using t'(1,2) by (simp add: push_bit_eq_mult)
qed

end
