(* ===== verification/I2c_Recovery.thy ===== *)
theory I2c_Recovery
  imports I2c_Master
begin

unbundle bit_operations_syntax

text \<open>
  What follows a bus recovery in \<open>src/code/stm32f4/i2c_master.c\<close>. \<open>i2c_bus_recover\<close> ends by clearing
  the control register, the enable bit PE with it; \<open>pe_law\<close> is what the reference manual says of a
  disabled peripheral.
\<close>

text \<open>\<open>disabled t\<close>: the last value written to the control register has PE clear. Then SB reads as
  zero, and PE reads back as it was written.\<close>

definition disabled :: "io_trace \<Rightarrow> bool" where
  "disabled t \<longleftrightarrow> (case rev (writes_to I2C1_CR1 t) of [] \<Rightarrow> False | v # _ \<Rightarrow> \<not> bit v 0)"

definition pe_law :: "device \<Rightarrow> bool" where
  "pe_law dev \<longleftrightarrow> (\<forall>t. disabled t \<longrightarrow> \<not> bit (dev t I2C1_SR1) 0 \<and> \<not> bit (dev t I2C1_CR1) 0)"

lemma disabled_append:
  "disabled (t @ evs) \<longleftrightarrow> (if writes_to I2C1_CR1 evs = [] then disabled t else disabled evs)"
  by (cases "rev (writes_to I2C1_CR1 evs)") (auto simp: disabled_def)

lemma disabled_write: "disabled (reg_write a v t) \<longleftrightarrow> (if a = I2C1_CR1 then \<not> bit v 0 else disabled t)"
  by (simp add: reg_write_def disabled_append) (simp add: disabled_def)

lemma disabled_read [simp]: "disabled (t @ [Rd a v]) = disabled t"
  by (simp add: disabled_append)

lemma start_bit: "v AND I2C_SR1_SB \<noteq> 0 \<longleftrightarrow> bit v 0"
  unfolding I2C_SR1_SB_def by (rule and_bit_nonzero)

lemma poll_start_fails:
  assumes "pe_law dev" and "err \<noteq> I2C_OK"
  shows "disabled t \<Longrightarrow> fst (i2c_poll dev I2C1_SR1 (\<lambda>v. v AND I2C_SR1_SB \<noteq> 0) err k t) \<noteq> I2C_OK"
proof (induction k arbitrary: t)
  case 0
  then show ?case
    using assms by (subst i2c_poll.simps) (simp add: reg_read_def start_bit pe_law_def)
next
  case (Suc k)
  let ?t2 = "(t @ [Rd I2C1_SR1 (dev t I2C1_SR1)]) @ [Rd I2C1_SR1 (dev (t @ [Rd I2C1_SR1 (dev t I2C1_SR1)]) I2C1_SR1)]"
  have "disabled ?t2"
    using Suc.prems by (simp only: disabled_read)
  moreover have "\<not> bit (dev t I2C1_SR1) 0"
    using Suc.prems assms(1) by (simp add: pe_law_def)
  ultimately show ?case
    using Suc.IH [of ?t2] assms(2) by (subst i2c_poll.simps) (simp add: reg_read_def start_bit)
qed

text \<open>A wait on a disabled peripheral leaves it disabled, also when it ends by a NACK and requests a stop:
  the control register it writes back has PE clear.\<close>

lemma disabled_set:
  assumes "pe_law dev" and "disabled t" and "\<not> bit m 0"
  shows "disabled (reg_set dev I2C1_CR1 m t)"
  using assms by (simp add: reg_set_def reg_read_def disabled_write pe_law_def bit_or_iff)

lemma start_stop_bits: "\<not> bit I2C_CR1_STOP 0" "\<not> bit (I2C_CR1_ACK OR I2C_CR1_START) 0"
  by (simp_all add: bit_simps I2C_CR1_ACK_def I2C_CR1_START_def I2C_CR1_STOP_def)

lemma poll_keeps_disabled:
  assumes "pe_law dev"
  shows "disabled t \<Longrightarrow> disabled (snd (i2c_poll dev reg p err k t))"
proof (induction k arbitrary: t)
  case 0
  then show ?case
    by (subst i2c_poll.simps) (simp add: reg_read_def)
next
  case (Suc k)
  let ?t1 = "t @ [Rd reg (dev t reg)]"
  let ?t2 = "?t1 @ [Rd I2C1_SR1 (dev ?t1 I2C1_SR1)]"
  have step: "i2c_poll dev reg p err (Suc k) t =
    (if p (dev t reg) then (I2C_OK, ?t1)
     else if dev ?t1 I2C1_SR1 AND I2C_SR1_AF \<noteq> 0
     then (I2C_ERR_NACK, reg_set dev I2C1_CR1 I2C_CR1_STOP (reg_clear dev I2C1_SR1 I2C_SR1_AF ?t2))
     else i2c_poll dev reg p err k ?t2)"
    by (subst i2c_poll.simps) (simp add: reg_read_def)
  have d: "disabled ?t1" "disabled ?t2"
    using Suc.prems by (simp_all only: disabled_read)
  then have "disabled (reg_clear dev I2C1_SR1 I2C_SR1_AF ?t2)"
    by (simp add: reg_clear_def reg_read_def disabled_write disabled_append)
  then have "disabled (reg_set dev I2C1_CR1 I2C_CR1_STOP (reg_clear dev I2C1_SR1 I2C_SR1_AF ?t2))"
    by (intro disabled_set [OF assms] start_stop_bits)
  then show ?case
    unfolding step using d(1) Suc.IH [OF d(2)] by simp
qed

text \<open>A start on a disabled peripheral fails at once or at its start condition, whatever the bus does,
  and leaves it disabled: no address is put in the data register.\<close>

definition start_failures :: "i2c_result set" where
  "start_failures = {I2C_ERR_BUS_BUSY, I2C_ERR_TIMEOUT_START, I2C_ERR_NACK}"

lemma start_failures_not_ok: "r \<in> start_failures \<Longrightarrow> r \<noteq> I2C_OK"
  by (auto simp: start_failures_def)

lemma disabled_start_fails:
  assumes "pe_law dev" and "disabled t"
  obtains r evs where "i2c_start dev addr7 reading t = (r, t @ evs)" "r \<in> start_failures"
    "disabled (t @ evs)" "writes_to I2C1_DR evs = []" "reads_of I2C1_DR evs = []"
proof -
  let ?p1 = "\<lambda>v. v AND I2C_SR2_BUSY = 0" and ?p2 = "\<lambda>v. v AND I2C_SR1_SB \<noteq> 0"
  obtain r1 e1 where w1: "wait_for dev I2C1_SR2 ?p1 I2C_ERR_BUS_BUSY t = (r1, t @ e1)"
    "wait_effect I2C_ERR_BUS_BUSY WAIT_MAX r1 e1"
    using wait_for_effect [of I2C1_SR2 I2C_ERR_BUS_BUSY dev ?p1 t] by auto
  have d1: "disabled (t @ e1)"
    using poll_keeps_disabled [OF assms, of I2C1_SR2 ?p1 I2C_ERR_BUS_BUSY "I2C_TIMEOUT_LOOPS - 1"] w1(1)
    by (simp add: wait_for_def)
  show thesis
  proof (cases "r1 = I2C_OK")
    case False
    then have "i2c_start dev addr7 reading t = (r1, t @ e1)"
      by (simp add: i2c_start_def w1)
    then show thesis
      using False d1 w1(2) by (intro that) (auto simp: wait_effect_def start_failures_def)
  next
    case True
    let ?s = "[Rd I2C1_CR1 (dev (t @ e1) I2C1_CR1), Wr I2C1_CR1 (dev (t @ e1) I2C1_CR1 OR (I2C_CR1_ACK OR I2C_CR1_START))]"
    have s: "reg_set dev I2C1_CR1 (I2C_CR1_ACK OR I2C_CR1_START) (t @ e1) = (t @ e1) @ ?s"
      by (simp add: reg_simps)
    have d2: "disabled ((t @ e1) @ ?s)"
      using disabled_set [OF assms(1) d1 start_stop_bits(2)] unfolding s .
    obtain r2 e2 where w2: "wait_for dev I2C1_SR1 ?p2 I2C_ERR_TIMEOUT_START ((t @ e1) @ ?s) = (r2, ((t @ e1) @ ?s) @ e2)"
      "wait_effect I2C_ERR_TIMEOUT_START WAIT_MAX r2 e2"
      using wait_for_effect [of I2C1_SR1 I2C_ERR_TIMEOUT_START dev ?p2 "(t @ e1) @ ?s"] by auto
    have r2: "r2 \<noteq> I2C_OK"
      using poll_start_fails [OF assms(1) _ d2, of I2C_ERR_TIMEOUT_START "I2C_TIMEOUT_LOOPS - 1"] w2(1)
      by (simp add: wait_for_def)
    have "disabled (((t @ e1) @ ?s) @ e2)"
      using poll_keeps_disabled [OF assms(1) d2, of I2C1_SR1 ?p2 I2C_ERR_TIMEOUT_START "I2C_TIMEOUT_LOOPS - 1"] w2(1)
      by (simp add: wait_for_def)
    then have "disabled (t @ (e1 @ ?s @ e2))"
      by simp
    moreover have "i2c_start dev addr7 reading t = (r2, t @ (e1 @ ?s @ e2))"
      unfolding i2c_start_def w1(1) prod.case s Let_def w2(1) using True r2 by simp
    ultimately show thesis
      using r2 True w1(2) w2(2) by (intro that) (auto simp: wait_effect_def start_failures_def)
  qed
qed

section \<open>Calls after a recovery\<close>

datatype i2c_call = Call_Write u8 "u8 list" u32 | Call_Read u8 "u8 list" u32
  | Call_Write_Read u8 "u8 list" u32 "u8 list" u32

fun call_buffer :: "i2c_call \<Rightarrow> u8 list" where
  "call_buffer (Call_Write adr data n) = []"
| "call_buffer (Call_Read adr buf n) = buf"
| "call_buffer (Call_Write_Read adr tx m buf n) = buf"

fun make_call :: "device \<Rightarrow> i2c_call \<Rightarrow> io_trace \<Rightarrow> (i2c_result \<times> u8 list \<times> io_trace) option" where
  "make_call dev (Call_Write adr data n) t = do { (r, t) \<leftarrow> i2c_write dev adr data n t; Some (r, [], t) }"
| "make_call dev (Call_Read adr buf n) t = i2c_read dev adr buf n t"
| "make_call dev (Call_Write_Read adr tx m buf n) t = i2c_write_read dev adr tx m buf n t"

fun make_calls :: "device \<Rightarrow> i2c_call list \<Rightarrow> io_trace \<Rightarrow> (i2c_result list \<times> u8 list list \<times> io_trace) option" where
  "make_calls dev [] t = Some ([], [], t)"
| "make_calls dev (c # cs) t = do {
     (r, buf, t) \<leftarrow> make_call dev c t;
     (rs, bufs, t) \<leftarrow> make_calls dev cs t;
     Some (r # rs, buf # bufs, t)
   }"

text \<open>How a call ends on a disabled peripheral: a read of no bytes is refused as such.\<close>

fun call_fails :: "i2c_call \<Rightarrow> i2c_result \<Rightarrow> bool" where
  "call_fails (Call_Read adr buf n) r \<longleftrightarrow> (if n = 0 then r = I2C_ERR_PARAM else r \<in> start_failures)"
| "call_fails c r \<longleftrightarrow> r \<in> start_failures"

lemma disabled_call:
  assumes "pe_law dev" and "disabled t"
  shows "\<exists>r evs. make_call dev c t = Some (r, call_buffer c, t @ evs) \<and> call_fails c r \<and>
    disabled (t @ evs) \<and> writes_to I2C1_DR evs = [] \<and> reads_of I2C1_DR evs = []"
proof (cases c)
  case (Call_Write adr data n)
  obtain r evs where s: "i2c_start dev adr False t = (r, t @ evs)" "r \<in> start_failures"
    "disabled (t @ evs)" "writes_to I2C1_DR evs = []" "reads_of I2C1_DR evs = []"
    by (rule disabled_start_fails [OF assms])
  then show ?thesis
    using start_failures_not_ok [OF s(2)] Call_Write by (simp add: i2c_write_def)
next
  case (Call_Read adr buf n)
  obtain r evs where s: "i2c_start dev adr True t = (r, t @ evs)" "r \<in> start_failures"
    "disabled (t @ evs)" "writes_to I2C1_DR evs = []" "reads_of I2C1_DR evs = []"
    by (rule disabled_start_fails [OF assms])
  show ?thesis
  proof (cases "n = 0")
    case True
    then show ?thesis
      using assms(2) Call_Read by (intro exI [of _ I2C_ERR_PARAM] exI [of _ "[]"]) (simp add: i2c_read_def)
  next
    case False
    then show ?thesis
      using s start_failures_not_ok [OF s(2)] Call_Read by (simp add: i2c_read_def)
  qed
next
  case (Call_Write_Read adr tx m buf n)
  obtain r evs where s: "i2c_start dev adr False t = (r, t @ evs)" "r \<in> start_failures"
    "disabled (t @ evs)" "writes_to I2C1_DR evs = []" "reads_of I2C1_DR evs = []"
    by (rule disabled_start_fails [OF assms])
  then show ?thesis
    using start_failures_not_ok [OF s(2)] Call_Write_Read by (simp add: i2c_write_read_def)
qed

lemma disabled_calls:
  assumes "pe_law dev"
  shows "disabled t \<Longrightarrow> \<exists>rs evs. make_calls dev cs t = Some (rs, map call_buffer cs, t @ evs) \<and>
    list_all2 call_fails cs rs \<and> disabled (t @ evs) \<and> writes_to I2C1_DR evs = [] \<and> reads_of I2C1_DR evs = []"
proof (induction cs arbitrary: t)
  case Nil
  then show ?case
    by (intro exI [of _ "[]"]) simp
next
  case (Cons c cs)
  obtain r e1 where c: "make_call dev c t = Some (r, call_buffer c, t @ e1)" "call_fails c r"
    "disabled (t @ e1)" "writes_to I2C1_DR e1 = []" "reads_of I2C1_DR e1 = []"
    using disabled_call [OF assms Cons.prems] by blast
  obtain rs e2 where cs: "make_calls dev cs (t @ e1) = Some (rs, map call_buffer cs, (t @ e1) @ e2)"
    "list_all2 call_fails cs rs" "disabled ((t @ e1) @ e2)" "writes_to I2C1_DR e2 = []" "reads_of I2C1_DR e2 = []"
    using Cons.IH [OF c(3)] by blast
  show ?case
    using c cs by (intro exI [of _ "r # rs"] exI [of _ "e1 @ e2"]) simp
qed

lemma recover_disables: "disabled (i2c_bus_recover dev t)"
  by (simp add: i2c_bus_recover_def Let_def disabled_write)

lemma init_enables:
  assumes "i2c_init dev pclk1_hz scl_hz t = Some t'"
  shows "\<not> disabled t'"
proof -
  obtain t1 where "t' = reg_write I2C1_CR1 I2C_CR1_PE t1"
    using assms by (auto simp: i2c_init_def Let_def split: bind_splits if_splits)
  then show ?thesis
    by (simp add: disabled_write I2C_CR1_PE_def)
qed

lemma init_None: "i2c_init dev pclk1_hz scl_hz t = None \<Longrightarrow> scl_hz = 0"
proof -
  assume "i2c_init dev pclk1_hz scl_hz t = None"
  then have n: "if scl_hz \<le> 100000 then 2 * scl_hz = 0 else 3 * scl_hz = 0"
    by (auto simp: i2c_init_def udiv_def Let_def split: if_splits)
  show "scl_hz = 0"
  proof (cases "scl_hz \<le> 100000")
    case True
    then have "unat (2 * scl_hz) = 2 * unat scl_hz"
      by (intro trans [OF unat_mult_lt]) (simp_all add: word_le_nat_alt)
    then show ?thesis
      using n True by (simp add: unat_eq_zero [symmetric] del: unat_eq_zero)
  next
    case False
    then have "(0xAAAAAAAB * 3) * scl_hz = 0"
      using n by (simp only: mult.assoc if_False mult_zero_right)
    moreover have "(0xAAAAAAAB * 3 :: u32) = 1"
      by simp
    ultimately show ?thesis
      by (simp only: mult_1_left)
  qed
qed

section \<open>Properties\<close>

text \<open>C31. After \<open>i2c_bus_recover\<close> the peripheral stays disabled until \<open>i2c_init\<close> is called again: in any
  sequence of writes, reads and register reads made in between, every call fails before or at its
  start condition (a read of no bytes with \<open>I2C_ERR_PARAM\<close>), no address and no byte is put in the data
  register, none is read from it and the buffers stay as they were, whatever the bus and the other
  side do. \<open>i2c_init\<close> after them enables the peripheral again.\<close>

theorem i2c_recover_needs_init:
  assumes "pe_law dev"
  shows "\<exists>rs evs. make_calls dev cs (i2c_bus_recover dev t) =
      Some (rs, map call_buffer cs, i2c_bus_recover dev t @ evs) \<and>
    list_all2 call_fails cs rs \<and> writes_to I2C1_DR evs = [] \<and> reads_of I2C1_DR evs = [] \<and>
    disabled (i2c_bus_recover dev t @ evs) \<and>
    (case i2c_init dev pclk1_hz scl_hz (i2c_bus_recover dev t @ evs) of
       Some t' \<Rightarrow> \<not> disabled t' | None \<Rightarrow> scl_hz = 0)"
proof -
  obtain rs evs where c: "make_calls dev cs (i2c_bus_recover dev t) =
      Some (rs, map call_buffer cs, i2c_bus_recover dev t @ evs)"
    "list_all2 call_fails cs rs" "disabled (i2c_bus_recover dev t @ evs)"
    "writes_to I2C1_DR evs = []" "reads_of I2C1_DR evs = []"
    using disabled_calls [OF assms recover_disables] by blast
  then show ?thesis
    using init_enables init_None by (intro exI [of _ rs] exI [of _ evs]) (simp split: option.split)
qed

text \<open>A peripheral that is ready at once, when it is enabled.\<close>

definition ready_i2c :: device where
  "ready_i2c t a = (if disabled t then 0 else if a = I2C1_SR2 then 0 else 0xC7)"

theorem i2c_recover_needs_init_witness:
  "\<exists>r1 r2 t. make_calls ready_i2c [Call_Write 0x50 [1] 1, Call_Read 0x50 [0, 0] 2] (i2c_bus_recover ready_i2c []) =
      Some ([r1, r2], [[], [0, 0]], t) \<and> r1 \<in> start_failures \<and> r2 \<in> start_failures"
proof -
  have "pe_law ready_i2c"
    by (simp add: pe_law_def ready_i2c_def)
  from i2c_recover_needs_init [OF this, of "[Call_Write 0x50 [1] 1, Call_Read 0x50 [0, 0] 2]" "[]" 16000000 100000]
  show ?thesis
    by (auto simp: list_all2_Cons1)
qed

end
