(* ===== verification/I2c_Success.thy ===== *)
theory I2c_Success
  imports I2c_Master
begin

unbundle bit_operations_syntax

text \<open>
  When the transfers of \<open>src/code/stm32f4/i2c_master.c\<close> succeed. The accesses of a transfer take the
  controller through the phases of the reference manual; \<open>attentive\<close> is a bus whose targets
  acknowledge and whose flags come, each in its phase, within the driver's timeout. On such a bus
  any sequence of writes and of reads of three bytes or more returns \<open>I2C_OK\<close> every time. Reads of
  one and two bytes are left out: \<open>practice/embedded-c-interview-core.md\<close> says that this peripheral
  needs another order of accesses for them than the one \<open>i2c_read\<close> has.
\<close>

section \<open>The phases of a transfer\<close>

text \<open>\<open>Addressing reading\<close> lasts until ADDR is cleared by the read of SR2; \<open>Sending True\<close> has sent a
  byte; in \<open>Last_Byte\<close> the stop is requested and one byte is still to be read; \<open>Stopping\<close> lasts from
  the stop request of a write, or the last byte of a read, until SR2 shows the bus idle.\<close>

datatype bus_phase = Free | Starting | Addressing bool | Sending bool | Receiving | Last_Byte | Stopping

fun next_phase :: "bus_phase \<Rightarrow> io_event \<Rightarrow> bus_phase" where
  "next_phase p (Wr a v) =
     (if a = I2C1_CR1
      then if v AND I2C_CR1_STOP \<noteq> 0 then (if p = Receiving then Last_Byte else Stopping)
        else if v AND I2C_CR1_START \<noteq> 0 then Starting else p
      else if a = I2C1_DR
      then (case p of Starting \<Rightarrow> Addressing (v AND 1 \<noteq> 0) | Sending _ \<Rightarrow> Sending True | _ \<Rightarrow> p)
      else p)"
| "next_phase p (Rd a v) =
     (if a = I2C1_SR2
      then (case p of Addressing reading \<Rightarrow> if reading then Receiving else Sending False
          | Stopping \<Rightarrow> if v AND I2C_SR2_BUSY = 0 then Free else Stopping | _ \<Rightarrow> p)
      else if a = I2C1_DR \<and> p = Last_Byte then Stopping else p)"
| "next_phase p (Wr8 a v) = p"

definition idle_phase :: "bus_phase \<Rightarrow> bool" where
  "idle_phase p \<longleftrightarrow> p = Free \<or> p = Stopping"

definition phase_after :: "io_trace \<Rightarrow> bus_phase" where
  "phase_after t = foldl next_phase Free t"

lemma phase_after_append: "phase_after (t @ evs) = foldl next_phase (phase_after t) evs"
  by (simp add: phase_after_def)

lemma foldl_kept: "(\<And>e. e \<in> set evs \<Longrightarrow> next_phase p e = p) \<Longrightarrow> foldl next_phase p evs = p"
  by (induction evs) simp_all

text \<open>The history after \<open>k\<close> rounds of a wait, and a condition that comes before its timeout.\<close>

fun i2c_polls :: "device \<Rightarrow> u32 \<Rightarrow> nat \<Rightarrow> io_trace \<Rightarrow> io_trace" where
  "i2c_polls dev reg 0 t = t"
| "i2c_polls dev reg (Suc k) t =
     i2c_polls dev reg k (snd (reg_read dev I2C1_SR1 (snd (reg_read dev reg t))))"

definition in_time :: "device \<Rightarrow> u32 \<Rightarrow> (u32 \<Rightarrow> bool) \<Rightarrow> io_trace \<Rightarrow> bool" where
  "in_time dev reg p t \<longleftrightarrow> (\<exists>k < I2C_TIMEOUT_LOOPS. p (dev (i2c_polls dev reg k t) reg))"

definition flag_comes :: "device \<Rightarrow> u32 \<Rightarrow> io_trace \<Rightarrow> bool" where
  "flag_comes dev m t \<longleftrightarrow> in_time dev I2C1_SR1 (\<lambda>v. v AND m \<noteq> 0) t"

text \<open>What the control register reads: the start bit may read set while a start is under way, and the
  stop bit from the request on until the bus is idle again. In between, the driver writes both back
  (\<open>CR1 |= I2C_CR1_ACK\<close>, line 143); that the stop request so repeated has no further effect is part
  of \<open>next_phase\<close>.\<close>

definition cr1_reads :: "bus_phase \<Rightarrow> u32 \<Rightarrow> bool" where
  "cr1_reads p v \<longleftrightarrow> (v AND I2C_CR1_START \<noteq> 0 \<longrightarrow> p = Starting) \<and>
     (v AND I2C_CR1_STOP \<noteq> 0 \<longrightarrow> p = Last_Byte \<or> p = Stopping)"

definition attentive :: "device \<Rightarrow> bool" where
  "attentive dev \<longleftrightarrow> (\<forall>t. dev t I2C1_SR1 AND I2C_SR1_AF = 0 \<and>
     cr1_reads (phase_after t) (dev t I2C1_CR1) \<and>
     (case phase_after t of
        Free \<Rightarrow> in_time dev I2C1_SR2 (\<lambda>v. v AND I2C_SR2_BUSY = 0) t
      | Starting \<Rightarrow> flag_comes dev I2C_SR1_SB t
      | Addressing reading \<Rightarrow> flag_comes dev I2C_SR1_ADDR t
      | Sending sent \<Rightarrow> flag_comes dev I2C_SR1_TXE t \<and> (sent \<longrightarrow> flag_comes dev I2C_SR1_BTF t)
      | Receiving \<Rightarrow> flag_comes dev I2C_SR1_RXNE t
      | Last_Byte \<Rightarrow> flag_comes dev I2C_SR1_RXNE t
      | Stopping \<Rightarrow> in_time dev I2C1_SR2 (\<lambda>v. v AND I2C_SR2_BUSY = 0) t))"

lemma attentiveD:
  assumes "attentive dev"
  shows "dev t I2C1_SR1 AND I2C_SR1_AF = 0" "cr1_reads (phase_after t) (dev t I2C1_CR1)"
    "idle_phase (phase_after t) \<Longrightarrow> in_time dev I2C1_SR2 (\<lambda>v. v AND I2C_SR2_BUSY = 0) t"
    "phase_after t = Starting \<Longrightarrow> flag_comes dev I2C_SR1_SB t"
    "phase_after t = Addressing reading \<Longrightarrow> flag_comes dev I2C_SR1_ADDR t"
    "phase_after t = Sending sent \<Longrightarrow> flag_comes dev I2C_SR1_TXE t"
    "phase_after t = Sending True \<Longrightarrow> flag_comes dev I2C_SR1_BTF t"
    "phase_after t = Receiving \<or> phase_after t = Last_Byte \<Longrightarrow> flag_comes dev I2C_SR1_RXNE t"
  using assms [unfolded attentive_def, rule_format, of t] by (auto simp: idle_phase_def)

section \<open>Each step in its phase\<close>

lemma bit_test:
  "v AND I2C_CR1_START = 0 \<longleftrightarrow> \<not> bit v 8" "v AND I2C_CR1_STOP = 0 \<longleftrightarrow> \<not> bit v 9" "v AND 1 = 0 \<longleftrightarrow> \<not> bit v 0"
  for v :: u32
  using and_exp_eq_0_iff_not_bit [of v 8] and_exp_eq_0_iff_not_bit [of v 9] and_exp_eq_0_iff_not_bit [of v 0]
  by (simp_all add: I2C_CR1_START_def I2C_CR1_STOP_def push_bit_eq_mult)

lemma cr1_bits:
  "bit I2C_CR1_START n \<longleftrightarrow> n = 8" "bit I2C_CR1_STOP n \<longleftrightarrow> n = 9" "bit I2C_CR1_ACK n \<longleftrightarrow> n = 10"
  unfolding I2C_CR1_START_def I2C_CR1_STOP_def I2C_CR1_ACK_def by (auto simp only: bit_simps) simp_all

text \<open>What the four writes to CR1 do, each in the phase the driver makes it in.\<close>

lemma phase_cr1:
  assumes "attentive dev"
  shows "phase_after t = Free \<Longrightarrow> phase_after (reg_set dev I2C1_CR1 (I2C_CR1_ACK OR I2C_CR1_START) t) = Starting"
    "phase_after (reg_set dev I2C1_CR1 I2C_CR1_STOP t) = (if phase_after t = Receiving then Last_Byte else Stopping)"
    "phase_after t = Receiving \<Longrightarrow> phase_after (reg_clear dev I2C1_CR1 I2C_CR1_ACK t) = Receiving"
    "phase_after t = Stopping \<Longrightarrow> phase_after (reg_set dev I2C1_CR1 I2C_CR1_ACK t) = Stopping"
proof -
  let ?p = "phase_after t"
  have n: "bit (dev t I2C1_CR1) 8 \<longrightarrow> ?p = Starting" "bit (dev t I2C1_CR1) 9 \<longrightarrow> ?p = Last_Byte \<or> ?p = Stopping"
    using attentiveD(2) [OF assms, of t] bit_test [of "dev t I2C1_CR1"] by (auto simp: cr1_reads_def)
  have "I2C1_CR1 \<noteq> I2C1_SR2" "I2C1_CR1 \<noteq> I2C1_DR" "I2C_CR1_STOP \<noteq> 0"
    by (simp_all add: I2C_CR1_STOP_def)
  with n show "?p = Free \<Longrightarrow> phase_after (reg_set dev I2C1_CR1 (I2C_CR1_ACK OR I2C_CR1_START) t) = Starting"
    "phase_after (reg_set dev I2C1_CR1 I2C_CR1_STOP t) = (if ?p = Receiving then Last_Byte else Stopping)"
    "?p = Receiving \<Longrightarrow> phase_after (reg_clear dev I2C1_CR1 I2C_CR1_ACK t) = Receiving"
    "?p = Stopping \<Longrightarrow> phase_after (reg_set dev I2C1_CR1 I2C_CR1_ACK t) = Stopping"
    by (simp_all add: reg_simps phase_after_append bit_test bit_or_iff bit_and_iff bit_not_iff cr1_bits)
qed

lemma addr_byte_bit: "addr_byte addr7 reading AND 1 \<noteq> 0 \<longleftrightarrow> reading"
  by (simp add: bit_test addr_byte_def bit_simps)

lemma i2c_poll_in_time:
  assumes "\<And>t. dev t I2C1_SR1 AND I2C_SR1_AF = 0"
  shows "p (dev (i2c_polls dev reg j t) reg) \<Longrightarrow> j \<le> k \<Longrightarrow>
    \<exists>evs v. i2c_poll dev reg p err k t = (I2C_OK, t @ evs @ [Rd reg v]) \<and> p v \<and>
      (\<forall>e \<in> set evs. \<exists>v. e = Rd reg v \<or> e = Rd I2C1_SR1 v)"
proof (induction j arbitrary: k t)
  case 0
  then show ?case
    by (subst i2c_poll.simps) (auto simp: reg_read_def)
next
  case (Suc j)
  then obtain k' where k: "k = Suc k'" "j \<le> k'"
    by (cases k) simp_all
  show ?case
  proof (cases "p (dev t reg)")
    case True
    then show ?thesis
      by (subst i2c_poll.simps) (auto simp: reg_read_def)
  next
    case False
    let ?e = "[Rd reg (dev t reg), Rd I2C1_SR1 (dev (t @ [Rd reg (dev t reg)]) I2C1_SR1)]"
    have "p (dev (i2c_polls dev reg j (t @ ?e)) reg)"
      using Suc.prems(1) by (simp add: reg_read_def)
    from Suc.IH [OF this k(2)] obtain evs v where evs: "i2c_poll dev reg p err k' (t @ ?e) = (I2C_OK, (t @ ?e) @ evs @ [Rd reg v])"
      "p v" "\<forall>e \<in> set evs. \<exists>v. e = Rd reg v \<or> e = Rd I2C1_SR1 v"
      by blast
    then have "i2c_poll dev reg p err k t = (I2C_OK, t @ (?e @ evs) @ [Rd reg v])"
      using False assms unfolding k(1) by (subst i2c_poll.simps) (simp add: reg_read_def)
    then show ?thesis
      using evs(2,3) by (intro exI [of _ "?e @ evs"] exI [of _ v]) auto
  qed
qed

lemma wait_in_time:
  assumes "attentive dev" and "in_time dev reg p t"
  shows "\<exists>evs v. wait_for dev reg p err t = (I2C_OK, t @ evs @ [Rd reg v]) \<and> p v \<and>
    (\<forall>e \<in> set evs. \<exists>v. e = Rd reg v \<or> e = Rd I2C1_SR1 v)"
proof -
  obtain j where "p (dev (i2c_polls dev reg j t) reg)" "j \<le> I2C_TIMEOUT_LOOPS - 1"
    using assms(2) unfolding in_time_def by fastforce
  then show ?thesis
    using i2c_poll_in_time [where dev = dev and p = p, OF attentiveD(1) [OF assms(1)]] unfolding wait_for_def by blast
qed

lemma wait_flag:
  assumes "attentive dev" and "flag_comes dev m t"
  obtains t' where "wait_for dev I2C1_SR1 (\<lambda>v. v AND m \<noteq> 0) err t = (I2C_OK, t')" "phase_after t' = phase_after t"
proof -
  obtain evs v where w: "wait_for dev I2C1_SR1 (\<lambda>v. v AND m \<noteq> 0) err t = (I2C_OK, t @ evs @ [Rd I2C1_SR1 v])"
    and e: "\<forall>e \<in> set evs. \<exists>v. e = Rd I2C1_SR1 v"
    using wait_in_time [OF assms(1) assms(2) [unfolded flag_comes_def], of err] by auto
  have "foldl next_phase (phase_after t) (evs @ [Rd I2C1_SR1 v]) = phase_after t"
    using e by (intro foldl_kept) (fastforce simp: stm_regs)
  then show ?thesis
    using that [OF w] by (simp only: phase_after_append)
qed

text \<open>The wait for the bus ends in \<open>Free\<close>, also when the stop of the transfer before is not out yet.\<close>

lemma idle_read:
  assumes "idle_phase p"
  shows "idle_phase (next_phase p (Rd I2C1_SR2 v))" "idle_phase (next_phase p (Rd I2C1_SR1 v))"
    "v AND I2C_SR2_BUSY = 0 \<Longrightarrow> next_phase p (Rd I2C1_SR2 v) = Free"
proof -
  have "I2C1_SR1 \<noteq> I2C1_SR2" "I2C1_SR1 \<noteq> I2C1_DR"
    by (simp_all add: stm_regs)
  with assms show "idle_phase (next_phase p (Rd I2C1_SR2 v))" "idle_phase (next_phase p (Rd I2C1_SR1 v))"
    "v AND I2C_SR2_BUSY = 0 \<Longrightarrow> next_phase p (Rd I2C1_SR2 v) = Free"
    unfolding idle_phase_def by (cases "v AND I2C_SR2_BUSY = 0"; elim disjE; simp)+
qed

lemma idle_reads:
  "\<forall>e \<in> set evs. \<exists>v. e = Rd I2C1_SR2 v \<or> e = Rd I2C1_SR1 v \<Longrightarrow> idle_phase p \<Longrightarrow> idle_phase (foldl next_phase p evs)"
proof (induction evs arbitrary: p)
  case (Cons e evs)
  then have "idle_phase (next_phase p e)"
    using idle_read [OF Cons.prems(2)] by (auto simp del: next_phase.simps)
  then show ?case
    using Cons by simp
qed simp

lemma wait_idle:
  assumes "attentive dev" and "idle_phase (phase_after t)"
  obtains t' where "wait_for dev I2C1_SR2 (\<lambda>v. v AND I2C_SR2_BUSY = 0) I2C_ERR_BUS_BUSY t = (I2C_OK, t')" "phase_after t' = Free"
proof -
  obtain evs v where w: "wait_for dev I2C1_SR2 (\<lambda>v. v AND I2C_SR2_BUSY = 0) I2C_ERR_BUS_BUSY t = (I2C_OK, t @ evs @ [Rd I2C1_SR2 v])"
    and v: "v AND I2C_SR2_BUSY = 0" and e: "\<forall>e \<in> set evs. \<exists>v. e = Rd I2C1_SR2 v \<or> e = Rd I2C1_SR1 v"
    using wait_in_time [OF assms(1) attentiveD(3) [OF assms]] by blast
  have "phase_after (t @ evs @ [Rd I2C1_SR2 v]) = Free"
    using idle_read(3) [OF idle_reads [OF e assms(2)] v] by (simp add: phase_after_append del: next_phase.simps)
  then show ?thesis
    by (rule that [OF w])
qed

section \<open>Transfers\<close>

lemma i2c_start_succeeds:
  assumes "attentive dev" and "idle_phase (phase_after t)"
  shows "\<exists>t'. i2c_start dev addr7 reading t = (I2C_OK, t') \<and> phase_after t' = (if reading then Receiving else Sending False)"
proof -
  obtain t1 where w1: "wait_for dev I2C1_SR2 (\<lambda>v. v AND I2C_SR2_BUSY = 0) I2C_ERR_BUS_BUSY t = (I2C_OK, t1)"
    and free: "phase_after t1 = Free"
    using wait_idle [OF assms] by blast
  let ?t2 = "reg_set dev I2C1_CR1 (I2C_CR1_ACK OR I2C_CR1_START) t1"
  have p2: "phase_after ?t2 = Starting"
    by (rule phase_cr1(1) [OF assms(1) free])
  obtain t3 where w3: "wait_for dev I2C1_SR1 (\<lambda>v. v AND I2C_SR1_SB \<noteq> 0) I2C_ERR_TIMEOUT_START ?t2 = (I2C_OK, t3)"
    "phase_after t3 = Starting"
    using wait_flag [OF assms(1) attentiveD(4) [OF assms(1) p2]] p2 by metis
  let ?t4 = "reg_write I2C1_DR (ucast (push_bit 1 addr7) OR (if reading then 1 else 0)) t3"
  have p4: "phase_after ?t4 = Addressing reading"
    using w3(2) addr_byte_bit [of addr7 reading, unfolded addr_byte_def] by (simp add: reg_write_def phase_after_append)
  obtain t5 where w5: "wait_for dev I2C1_SR1 (\<lambda>v. v AND I2C_SR1_ADDR \<noteq> 0) I2C_ERR_NACK ?t4 = (I2C_OK, t5)"
    "phase_after t5 = Addressing reading"
    using wait_flag [OF assms(1) attentiveD(5) [OF assms(1) p4]] p4 by metis
  have "I2C1_SR1 \<noteq> I2C1_SR2"
    by (simp add: stm_regs)
  then have "phase_after (snd (reg_read dev I2C1_SR2 (snd (reg_read dev I2C1_SR1 t5)))) = (if reading then Receiving else Sending False)"
    using w5(2) by (simp add: reg_read_def phase_after_append)
  moreover have "i2c_start dev addr7 reading t = (I2C_OK, snd (reg_read dev I2C1_SR2 (snd (reg_read dev I2C1_SR1 t5))))"
    unfolding i2c_start_def w1 prod.case Let_def w3(1) w5(1) by simp
  ultimately show ?thesis
    by simp
qed

lemma i2c_send_succeeds:
  assumes "attentive dev" and "unat len \<le> length data" and "unat i \<le> unat len" and "phase_after t = Sending sent"
  shows "\<exists>t'. i2c_send dev data i len t = Some (I2C_OK, t') \<and> phase_after t' = Sending (sent \<or> i < len)"
  using assms(3,4)
proof (induction "unat len - unat i" arbitrary: i t sent)
  case 0
  then show ?case
    by (subst i2c_send.simps) (simp add: word_less_nat_alt)
next
  case (Suc m)
  then have i: "i < len" "unat i < length data" "unat (i + 1) = unat i + 1"
    using assms(2) unat_Suc_below [of i len] by (simp_all add: word_less_nat_alt)
  obtain t1 where w: "wait_for dev I2C1_SR1 (\<lambda>v. v AND I2C_SR1_TXE \<noteq> 0) I2C_ERR_TIMEOUT_TX t = (I2C_OK, t1)"
    "phase_after t1 = Sending sent"
    using wait_flag [OF assms(1) attentiveD(6) [OF assms(1) Suc.prems(2)]] Suc.prems(2) by metis
  let ?t2 = "reg_write I2C1_DR (ucast (data ! unat i)) t1"
  have p: "phase_after ?t2 = Sending True"
    using w(2) by (simp add: reg_write_def phase_after_append)
  have n: "m = unat len - unat (i + 1)" "unat (i + 1) \<le> unat len"
    using Suc.hyps(2) i by (simp_all add: word_less_nat_alt)
  obtain t' where "i2c_send dev data (i + 1) len ?t2 = Some (I2C_OK, t')" "phase_after t' = Sending True"
    using Suc.hyps(1) [OF n p] by auto
  then show ?case
    using i w(1) by (subst i2c_send.simps) (simp add: mem)
qed

lemma i2c_write_succeeds:
  assumes "attentive dev" and "idle_phase (phase_after t)" and "unat len \<le> length data" and "0 < len"
  shows "\<exists>t'. i2c_write dev addr7 data len t = Some (I2C_OK, t') \<and> idle_phase (phase_after t')"
proof -
  obtain t1 where s1: "i2c_start dev addr7 False t = (I2C_OK, t1)" "phase_after t1 = Sending False"
    using i2c_start_succeeds [OF assms(1,2), of addr7 False] by auto
  obtain t2 where s2: "i2c_send dev data 0 len t1 = Some (I2C_OK, t2)" "phase_after t2 = Sending True"
    using i2c_send_succeeds [OF assms(1,3) _ s1(2), of 0] assms(4) by auto
  obtain t3 where w: "wait_for dev I2C1_SR1 (\<lambda>v. v AND I2C_SR1_BTF \<noteq> 0) I2C_ERR_TIMEOUT_TX t2 = (I2C_OK, t3)"
    "phase_after t3 = Sending True"
    using wait_flag [OF assms(1) attentiveD(7) [OF assms(1) s2(2)]] s2(2) by metis
  show ?thesis
    using s1(1) s2(1) w phase_cr1(2) [OF assms(1), of t3] by (simp add: i2c_write_def idle_phase_def)
qed

lemma i2c_recv_succeeds:
  assumes "attentive dev" and "unat len \<le> length data" and "unat i < unat len" and "phase_after t = Receiving"
  shows "\<exists>data' t'. i2c_recv dev data i len t = Some (I2C_OK, data', t') \<and> phase_after t' = Stopping"
  using assms(2-4)
proof (induction "unat len - unat i" arbitrary: i t data)
  case (Suc m)
  then have i: "i < len" "unat i < length data" "unat (i + 1) = unat i + 1"
    using unat_Suc_below [of i len] by (simp_all add: word_less_nat_alt)
  have "unat (len - 1) = unat len - 1"
    using Suc.prems(2) by (subst unat_minus_le) (auto simp: word_le_nat_alt)
  then have final: "i = len - 1 \<longleftrightarrow> unat (i + 1) = unat len"
    using i Suc.prems(2) by (auto simp: word_unat_eq_iff)
  let ?t = "if i = len - 1 then reg_set dev I2C1_CR1 I2C_CR1_STOP (reg_clear dev I2C1_CR1 I2C_CR1_ACK t) else t"
  have p: "phase_after ?t = (if i = len - 1 then Last_Byte else Receiving)"
    using Suc.prems(3) phase_cr1(3) [OF assms(1) Suc.prems(3)] by (simp add: phase_cr1(2) [OF assms(1)])
  have "phase_after ?t = Receiving \<or> phase_after ?t = Last_Byte"
    unfolding p by simp
  from wait_flag [OF assms(1) attentiveD(8) [OF assms(1) this]]
  obtain t1 where w: "wait_for dev I2C1_SR1 (\<lambda>v. v AND I2C_SR1_RXNE \<noteq> 0) I2C_ERR_TIMEOUT_RX ?t = (I2C_OK, t1)"
    "phase_after t1 = (if i = len - 1 then Last_Byte else Receiving)"
    unfolding p by blast
  define v where "v = dev t1 I2C1_DR"
  let ?t2 = "t1 @ [Rd I2C1_DR v]" and ?data = "data[unat i := ucast v]"
  have p2: "phase_after ?t2 = (if i = len - 1 then Stopping else Receiving)"
    using w(2) by (simp add: phase_after_append)
  have step: "i2c_recv dev data i len t = i2c_recv dev ?data (i + 1) len ?t2"
    using i(1,2) w(1) by (subst i2c_recv.simps) (simp add: Let_def mem reg_read_def v_def)
  show ?case
  proof (cases "i = len - 1")
    case True
    then have "\<not> i + 1 < len"
      by simp
    then show ?thesis
      using p2 True unfolding step by (subst i2c_recv.simps) simp
  next
    case False
    then have "unat (i + 1) < unat len" "m = unat len - unat (i + 1)" "phase_after ?t2 = Receiving"
      using final i(3) Suc.prems(2) Suc.hyps(2) p2 by simp_all
    from Suc.hyps(1) [OF this(2) _ this(1,3), of ?data] show ?thesis
      using Suc.prems(1) unfolding step by simp
  qed
qed simp

lemma i2c_read_succeeds:
  assumes "attentive dev" and "idle_phase (phase_after t)" and "unat len \<le> length data" and "0 < len"
  shows "\<exists>data' t'. i2c_read dev addr7 data len t = Some (I2C_OK, data', t') \<and> idle_phase (phase_after t')"
proof -
  obtain t1 where s1: "i2c_start dev addr7 True t = (I2C_OK, t1)" "phase_after t1 = Receiving"
    using i2c_start_succeeds [OF assms(1,2), of addr7 True] by auto
  have "unat (0 :: u32) < unat len"
    using assms(4) by (simp add: word_less_nat_alt)
  from i2c_recv_succeeds [OF assms(1,3) this s1(2)]
  obtain data' t2 where s2: "i2c_recv dev data 0 len t1 = Some (I2C_OK, data', t2)" "phase_after t2 = Stopping"
    by blast
  show ?thesis
    using s1(1) s2 assms(4) phase_cr1(4) [OF assms(1) s2(2)] by (simp add: i2c_read_def idle_phase_def)
qed

section \<open>Sequences of transfers\<close>

datatype transfer = Write u8 "u8 list" | Read u8 nat

fun perform :: "device \<Rightarrow> transfer \<Rightarrow> io_trace \<Rightarrow> (i2c_result \<times> u8 list \<times> io_trace) option" where
  "perform dev (Write adr bs) t = do { (r, t) \<leftarrow> i2c_write dev adr bs (of_nat (length bs)) t; Some (r, [], t) }"
| "perform dev (Read adr n) t = i2c_read dev adr (replicate n 0) (of_nat n) t"

fun perform_all :: "device \<Rightarrow> transfer list \<Rightarrow> io_trace \<Rightarrow> (i2c_result list \<times> u8 list list \<times> io_trace) option" where
  "perform_all dev [] t = Some ([], [], t)"
| "perform_all dev (x # xs) t = do {
     (r, bs, t) \<leftarrow> perform dev x t;
     (rs, bss, t) \<leftarrow> perform_all dev xs t;
     Some (r # rs, bs # bss, t)
   }"

fun on_the_wire :: "transfer \<Rightarrow> u32 list" where
  "on_the_wire (Write adr bs) = addr_byte adr False # map ucast bs"
| "on_the_wire (Read adr n) = [addr_byte adr True]"

text \<open>A write of a byte or more, or a read of three or more.\<close>

fun transfer_ok :: "transfer \<Rightarrow> bool" where
  "transfer_ok (Write adr bs) \<longleftrightarrow> bs \<noteq> [] \<and> length bs < 2 ^ 32"
| "transfer_ok (Read adr n) \<longleftrightarrow> 3 \<le> n \<and> n < 2 ^ 32"

lemma unat_of_nat_u32: "n < 2 ^ 32 \<Longrightarrow> unat (of_nat n :: u32) = n"
  by (simp add: unat_of_nat)

lemma perform_succeeds:
  assumes "attentive dev" and "idle_phase (phase_after t)" and "transfer_ok x"
  shows "\<exists>bs evs. perform dev x t = Some (I2C_OK, bs, t @ evs) \<and> idle_phase (phase_after (t @ evs)) \<and>
    writes_to I2C1_DR evs = on_the_wire x \<and> bs = map ucast (reads_of I2C1_DR evs) \<and>
    length bs = (case x of Write _ _ \<Rightarrow> 0 | Read _ n \<Rightarrow> n)"
proof (cases x)
  case (Write adr data)
  let ?len = "of_nat (length data) :: u32"
  have len: "unat ?len = length data" "0 < ?len"
    using assms(3) Write by (simp_all add: unat_of_nat_u32 word_less_nat_alt)
  then have le: "unat ?len \<le> length data"
    by simp
  obtain t' where w: "i2c_write dev adr data ?len t = Some (I2C_OK, t')" "idle_phase (phase_after t')"
    using i2c_write_succeeds [OF assms(1,2) le len(2)] by blast
  obtain r evs n where o: "i2c_out dev adr data ?len t = Some (r, t @ evs)" "reads_of I2C1_DR evs = []"
    "writes_to I2C1_DR evs = take n (addr_byte adr False # map ucast (take (unat ?len) data))"
    "r = I2C_OK \<Longrightarrow> n = Suc (unat ?len)"
    using i2c_out_effect [OF le, of dev adr t] by metis
  have r: "r = I2C_OK"
    using w(1) o(1) by (cases "r = I2C_OK") (simp_all add: i2c_write_out)
  define y where "y = dev (t @ evs) I2C1_CR1"
  let ?e = "evs @ [Rd I2C1_CR1 y, Wr I2C1_CR1 (y OR I2C_CR1_STOP)]"
  have "t' = t @ ?e"
    using w(1) o(1) r by (simp add: i2c_write_out reg_simps y_def)
  moreover have "writes_to I2C1_DR ?e = on_the_wire x" "reads_of I2C1_DR ?e = []"
    using o(2-4) r len(1) Write by simp_all
  ultimately show ?thesis
    using w Write by (intro exI [of _ "[]"] exI [of _ ?e]) simp
next
  case (Read adr n)
  let ?len = "of_nat n :: u32" and ?data = "replicate n (0 :: u8)"
  have len: "unat ?len = n" "0 < ?len"
    using assms(3) Read by (simp_all add: unat_of_nat_u32 word_less_nat_alt)
  then have le: "unat ?len \<le> length ?data" "?len \<noteq> 0"
    by auto
  obtain data' t' where w: "i2c_read dev adr ?data ?len t = Some (I2C_OK, data', t')" "idle_phase (phase_after t')"
    using i2c_read_succeeds [OF assms(1,2) le(1) len(2)] by blast
  obtain r1 e1 r2 bs e2 where s1: "i2c_start dev adr True t = (r1, t @ e1)" "reads_of I2C1_DR e1 = []"
    "r1 = I2C_OK \<longrightarrow> writes_to I2C1_DR e1 = [addr_byte adr True]"
    and s2: "i2c_recv dev ?data 0 ?len (t @ e1) = Some (r2, bs @ drop (length bs) ?data, t @ e1 @ e2)"
      "recv_effect (unat ?len) r2 bs e2"
    by (rule i2c_read_parts [where dev = dev and adr = adr and t = t, OF le]) blast
  define z where "z = dev (t @ e1 @ e2) I2C1_CR1"
  let ?e = "e1 @ e2 @ [Rd I2C1_CR1 z, Wr I2C1_CR1 (z OR I2C_CR1_ACK)]"
  have r1: "r1 = I2C_OK"
    using w(1) s1(1) le(2) by (cases "r1 = I2C_OK") (simp_all add: i2c_read_def)
  have r2: "r2 = I2C_OK"
    using w(1) s1(1) s2(1) r1 le(2) by (cases "r2 = I2C_OK") (simp_all add: i2c_read_def)
  have R: "bs = map ucast (reads_of I2C1_DR e2)" "length bs = n" "writes_to I2C1_DR e2 = []"
    using s2(2) unfolding recv_effect_def len(1) r2 by blast+
  have "data' = bs @ drop (length bs) ?data" "t' = t @ ?e"
    using w(1) s1(1) s2(1) r1 r2 le(2) by (simp_all add: i2c_read_def reg_simps z_def)
  moreover have "drop (length bs) ?data = []"
    by (simp add: R(2))
  ultimately have "data' = bs" "t' = t @ ?e"
    by simp_all
  moreover have "writes_to I2C1_DR ?e = on_the_wire x" "bs = map ucast (reads_of I2C1_DR ?e)"
    using s1(2,3) r1 R(1,3) Read by simp_all
  ultimately show ?thesis
    using w R(2) Read by (intro exI [of _ bs] exI [of _ ?e]) simp
qed


text \<open>A bus that is slow: a flag shows only in a read of SR1 that directly follows another one, so that
  no wait succeeds on its first poll, and BUSY clears a round after the stop. The stop bit reads set
  from the request until the bus is idle, so that line 143 of the driver repeats the request.\<close>

definition late_flags :: "bus_phase \<Rightarrow> u32" where
  "late_flags p = (case p of Free \<Rightarrow> 0 | Starting \<Rightarrow> I2C_SR1_SB | Addressing _ \<Rightarrow> I2C_SR1_ADDR
     | Sending _ \<Rightarrow> I2C_SR1_TXE OR I2C_SR1_BTF | Receiving \<Rightarrow> I2C_SR1_RXNE | Last_Byte \<Rightarrow> I2C_SR1_RXNE | Stopping \<Rightarrow> 0)"

definition after_status :: "io_trace \<Rightarrow> bool" where
  "after_status t \<longleftrightarrow> (case rev t of Rd b v # _ \<Rightarrow> b = I2C1_SR1 | _ \<Rightarrow> False)"

definition late_bus :: device where
  "late_bus t a =
     (if a = I2C1_SR1 then (if after_status t then late_flags (phase_after t) else 0)
      else if a = I2C1_SR2 then (if phase_after t = Free \<or> phase_after t = Stopping \<and> after_status t then 0 else I2C_SR2_BUSY)
      else if a = I2C1_CR1 then (if phase_after t = Last_Byte \<or> phase_after t = Stopping then I2C_CR1_STOP else 0)
      else if a = I2C1_DR then of_nat (length t) else 0)"

lemma late_bus_busy:
  assumes "idle_phase (phase_after t)"
  shows "in_time late_bus I2C1_SR2 (\<lambda>v. v AND I2C_SR2_BUSY = 0) t"
proof (cases "late_bus t I2C1_SR2 AND I2C_SR2_BUSY = 0")
  case True
  then show ?thesis
    by (auto simp: in_time_def I2C_TIMEOUT_LOOPS_def intro!: exI [of _ 0])
next
  case False
  have r: "I2C1_SR1 \<noteq> I2C1_SR2" "I2C1_SR2 \<noteq> I2C1_SR1" "I2C1_SR1 \<noteq> I2C1_DR" "I2C1_SR2 \<noteq> I2C1_DR"
    by (simp_all add: stm_regs)
  define w1 where "w1 = late_bus t I2C1_SR2"
  define w2 where "w2 = late_bus (t @ [Rd I2C1_SR2 w1]) I2C1_SR1"
  have p: "i2c_polls late_bus I2C1_SR2 1 t = t @ [Rd I2C1_SR2 w1, Rd I2C1_SR1 w2]"
    by (simp add: reg_read_def w1_def w2_def)
  have "idle_phase (phase_after (t @ [Rd I2C1_SR2 w1, Rd I2C1_SR1 w2]))"
    using assms unfolding phase_after_append by (intro idle_reads) auto
  then have "late_bus (i2c_polls late_bus I2C1_SR2 1 t) I2C1_SR2 = 0"
    unfolding p using r by (auto simp: late_bus_def after_status_def idle_phase_def)
  then show ?thesis
    by (auto simp: in_time_def I2C_TIMEOUT_LOOPS_def intro!: exI [of _ 1])
qed

lemma late_bus_attentive: "attentive late_bus"
proof -
  have r: "I2C1_SR1 \<noteq> I2C1_SR2" "I2C1_SR1 \<noteq> I2C1_DR" "I2C1_SR1 \<noteq> I2C1_CR1" "I2C1_CR1 \<noteq> I2C1_SR1"
    "I2C1_CR1 \<noteq> I2C1_SR2" "I2C1_CR1 \<noteq> I2C1_DR" "I2C1_SR2 \<noteq> I2C1_SR1"
    by (simp_all add: stm_regs)
  have keep: "phase_after (t @ [Rd I2C1_SR1 v, Rd I2C1_SR1 w]) = phase_after t" for t v w
    using r by (simp add: phase_after_append)
  have comes: "flag_comes late_bus m t" if "late_flags (phase_after t) AND m \<noteq> 0" for m t
  proof -
    have "late_bus (i2c_polls late_bus I2C1_SR1 1 t) I2C1_SR1 = late_flags (phase_after t)"
      using keep by (simp add: reg_read_def late_bus_def [of "_ @ _"] after_status_def)
    then show ?thesis
      using that by (auto simp: flag_comes_def in_time_def I2C_TIMEOUT_LOOPS_def intro!: exI [of _ 1])
  qed
  have af: "late_flags p AND I2C_SR1_AF = 0" for p
    by (simp add: late_flags_def I2C_SR1_AF_def I2C_SR1_SB_def I2C_SR1_ADDR_def I2C_SR1_TXE_def I2C_SR1_BTF_def
        I2C_SR1_RXNE_def split: bus_phase.split)
  have "late_bus t I2C1_SR1 AND I2C_SR1_AF = 0" for t
    using af by (simp add: late_bus_def)
  moreover have "cr1_reads (phase_after t) (late_bus t I2C1_CR1)" for t
    using r by (simp add: late_bus_def cr1_reads_def I2C_CR1_START_def I2C_CR1_STOP_def)
  moreover have "in_time late_bus I2C1_SR2 (\<lambda>v. v AND I2C_SR2_BUSY = 0) t" if "phase_after t = Free \<or> phase_after t = Stopping" for t
    using that by (intro late_bus_busy) (simp add: idle_phase_def)
  moreover have "late_flags Starting AND I2C_SR1_SB \<noteq> 0" "late_flags (Addressing reading) AND I2C_SR1_ADDR \<noteq> 0"
    "late_flags (Sending sent) AND I2C_SR1_TXE \<noteq> 0" "late_flags (Sending sent) AND I2C_SR1_BTF \<noteq> 0"
    "late_flags Receiving AND I2C_SR1_RXNE \<noteq> 0" "late_flags Last_Byte AND I2C_SR1_RXNE \<noteq> 0" for reading sent
    by (simp_all add: late_flags_def I2C_SR1_SB_def I2C_SR1_ADDR_def I2C_SR1_TXE_def I2C_SR1_BTF_def I2C_SR1_RXNE_def)
  ultimately show ?thesis
    unfolding attentive_def by (auto intro: comes split: bus_phase.split)
qed

text \<open>The control register written on the way: line 143 finds the stop bit of \<open>late_bus\<close> set and
  writes it again.\<close>

lemma repeated_stop:
  "phase_after t = Stopping \<Longrightarrow>
   writes_to I2C1_CR1 (reg_set late_bus I2C1_CR1 I2C_CR1_ACK t) = writes_to I2C1_CR1 t @ [I2C_CR1_STOP OR I2C_CR1_ACK]"
  by (simp add: traffic late_bus_def stm_regs)


end
