(* ===== verification/Startup.thy ===== *)
theory Startup
  imports Prelude
begin

unbundle bit_operations_syntax

text \<open>
  The reset path of \<open>src/code/qemu-cortex-m/common/startup.c\<close>: the vector table, and the copy of
  \<open>.data\<close> and the zeroing of \<open>.bss\<close> before \<open>main\<close>. Memory is a map from the addresses of its words
  to their values; the symbols of the linker script are the fields of \<open>linker_symbols\<close>.
\<close>

section \<open>The vector table\<close>

datatype vector = Initial_stack | Reserved | Reset_vector | NMI_Handler | HardFault_Handler | MemManage_Handler |
  BusFault_Handler | UsageFault_Handler | SVC_Handler | DebugMon_Handler | PendSV_Handler |
  SysTick_Handler | GPIOA_Handler | UART0_Handler | TIMER0A_Handler

definition g_vectors :: "vector list" where
  "g_vectors =
     [Initial_stack, Reset_vector, NMI_Handler, HardFault_Handler, MemManage_Handler, BusFault_Handler,
      UsageFault_Handler,
      Reserved, Reserved, Reserved, Reserved,
      SVC_Handler, DebugMon_Handler,
      Reserved,
      PendSV_Handler, SysTick_Handler,
      GPIOA_Handler,
      Reserved, Reserved, Reserved, Reserved,
      UART0_Handler,
      Reserved, Reserved, Reserved, Reserved, Reserved, Reserved, Reserved, Reserved, Reserved,
      Reserved, Reserved, Reserved, Reserved, Reserved,
      Reserved,
      Reserved,
      TIMER0A_Handler]"

text \<open>Exception \<open>n\<close> is taken through entry \<open>n\<close>, and external interrupt \<open>q\<close> is exception \<open>16 + q\<close>. The
  interrupt the examples use is in its place; \<open>TIMER0A_Handler\<close> is at entry 38, interrupt 22.\<close>

lemma g_vectors_entries:
  "g_vectors ! 3 = HardFault_Handler" "g_vectors ! 15 = SysTick_Handler" "g_vectors ! (16 + 5) = UART0_Handler"
  "g_vectors ! (16 + 22) = TIMER0A_Handler" "length g_vectors = 39"
  by (simp_all add: g_vectors_def)

section \<open>Handlers\<close>

text \<open>\<open>Default_Handler\<close> parks the processor. Every other name is a weak alias of it: a program that
  defines a handler of that name replaces it when it is linked. \<open>strong\<close> are the definitions of the
  program.\<close>

partial_function (option) Default_Handler :: "'s \<Rightarrow> 'r option" where
  "Default_Handler s = Default_Handler s"

definition linked_handler :: "(vector \<rightharpoonup> ('s \<Rightarrow> 'r option)) \<Rightarrow> vector \<Rightarrow> 's \<Rightarrow> 'r option" where
  "linked_handler strong v = (case strong v of Some h \<Rightarrow> h | None \<Rightarrow> Default_Handler)"

text \<open>What the core does with exception \<open>n\<close>; an entry of 0 is no code.\<close>

definition take_exception :: "(vector \<rightharpoonup> ('s \<Rightarrow> 'r option)) \<Rightarrow> nat \<Rightarrow> 's \<Rightarrow> 'r option" where
  "take_exception strong n s = do {
     v \<leftarrow> arr_get g_vectors n;
     if v = Reserved then None else linked_handler strong v s
   }"

lemma Default_Handler_parks: "(Default_Handler s :: 'r option) = None"
proof (rule ccontr)
  assume "(Default_Handler s :: 'r option) \<noteq> None"
  then obtain r :: 'r where "Default_Handler s = Some r"
    by blast
  then show False
    by (rule Default_Handler.raw_induct [where P = "\<lambda>_ _. False", rotated]) blast
qed

lemma take_exception_unhandled:
  "n < 39 \<Longrightarrow> strong (g_vectors ! n) = None \<Longrightarrow> take_exception strong n s = None"
  by (simp add: take_exception_def linked_handler_def Default_Handler_parks mem g_vectors_entries)

lemma take_exception_handled:
  "n < 39 \<Longrightarrow> strong (g_vectors ! n) = Some h \<Longrightarrow> g_vectors ! n \<noteq> Reserved \<Longrightarrow> take_exception strong n s = h s"
  by (simp add: take_exception_def linked_handler_def mem g_vectors_entries)

section \<open>The reset handler\<close>

type_synonym ram = "u32 \<Rightarrow> u32"

record linker_symbols =
  sidata :: u32
  sdata :: u32
  edata :: u32
  sbss :: u32
  ebss :: u32

partial_function (option) copy_data :: "u32 \<Rightarrow> u32 \<Rightarrow> u32 \<Rightarrow> ram \<Rightarrow> ram option" where
  "copy_data src dst hi m =
     (if dst < hi then copy_data (src + 4) (dst + 4) hi (m(dst := m src)) else Some m)"

partial_function (option) zero_bss :: "u32 \<Rightarrow> u32 \<Rightarrow> ram \<Rightarrow> ram option" where
  "zero_bss dst hi m = (if dst < hi then zero_bss (dst + 4) hi (m(dst := 0)) else Some m)"

partial_function (option) spin :: "'s \<Rightarrow> 's option" where
  "spin s = spin s"

definition reset_memory :: "'a linker_symbols_scheme \<Rightarrow> ram \<Rightarrow> ram option" where
  "reset_memory L m = do {
     m \<leftarrow> copy_data (sidata L) (sdata L) (edata L) m;
     zero_bss (sbss L) (ebss L) m
   }"

definition Reset_Handler :: "'a linker_symbols_scheme \<Rightarrow> (ram \<Rightarrow> ram option) \<Rightarrow> ram \<Rightarrow> ram option" where
  "Reset_Handler L main m = do { m \<leftarrow> reset_memory L m; m \<leftarrow> main m; spin m }"

section \<open>What it leaves in memory\<close>

text \<open>The words of a section, and the layout the linker script gives: the image of \<open>.data\<close> in flash
  below 0x40000, then \<open>.data\<close> and \<open>.bss\<close> in this order in SRAM, all aligned.\<close>

definition word_in :: "u32 \<Rightarrow> u32 \<Rightarrow> u32 \<Rightarrow> bool" where
  "word_in lo hi a \<longleftrightarrow> lo \<le> a \<and> a < hi \<and> unat (a - lo) mod 4 = 0"

definition linked :: "'a linker_symbols_scheme \<Rightarrow> bool" where
  "linked L \<longleftrightarrow> 0x20000000 \<le> sdata L \<and> sdata L \<le> edata L \<and> edata L \<le> sbss L \<and> sbss L \<le> ebss L \<and>
     ebss L \<le> 0x20010000 \<and> unat (edata L - sdata L) mod 4 = 0 \<and> unat (ebss L - sbss L) mod 4 = 0 \<and>
     unat (sidata L) + unat (edata L - sdata L) \<le> 0x40000"

definition initialised :: "'a linker_symbols_scheme \<Rightarrow> ram \<Rightarrow> ram" where
  "initialised L m = (\<lambda>a.
     if word_in (sdata L) (edata L) a then m (sidata L + (a - sdata L))
     else if word_in (sbss L) (ebss L) a then 0
     else m a)"

lemma word_in_step:
  assumes "unat hi = unat lo + 4 * Suc n"
  shows "word_in lo hi a \<longleftrightarrow> a = lo \<or> word_in (lo + 4) hi a"
proof -
  have l4: "unat (lo + 4) = unat lo + 4"
    using assms unsigned_less [of hi, where ?'a = nat] by (intro trans [OF unat_add_lt]) simp_all
  consider "a < lo" | "lo \<le> a" "a < lo + 4" | "lo \<le> a" "lo + 4 \<le> a"
    by force
  then show ?thesis
  proof cases
    case 1
    then show ?thesis
      using l4 by (auto simp: word_in_def word_le_nat_alt word_less_nat_alt)
  next
    case 2
    then have d: "unat (a - lo) = unat a - unat lo"
      by (intro unat_minus_le)
    have "unat a = unat lo + (unat a - unat lo)" "unat a - unat lo < 4"
      using 2 l4 by (auto simp: word_le_nat_alt word_less_nat_alt)
    then have "(unat a - unat lo) mod 4 = 0 \<longleftrightarrow> a = lo"
      by (auto simp: word_unat_eq_iff)
    then show ?thesis
      using 2 d assms l4 by (auto simp: word_in_def word_le_nat_alt word_less_nat_alt)
  next
    case 3
    then have "unat (a - lo) = unat a - unat lo" "unat (a - (lo + 4)) = unat a - (unat lo + 4)"
      using l4 by (simp_all add: unat_minus_le)
    moreover have "unat lo + 4 \<le> unat a"
      using 3 l4 by (simp add: word_le_nat_alt)
    ultimately have "unat (a - lo) = unat (a - (lo + 4)) + 4"
      by simp
    then show ?thesis
      using 3 assms l4 by (auto simp: word_in_def word_le_nat_alt word_less_nat_alt)
  qed
qed

lemma word_in_empty: "word_in lo lo a = False"
  by (auto simp: word_in_def)

lemma copy_data_spec:
  "unat hi = unat dst + 4 * n \<Longrightarrow> unat src + 4 * n \<le> unat dst \<Longrightarrow>
   copy_data src dst hi m = Some (\<lambda>a. if word_in dst hi a then m (src + (a - dst)) else m a)"
proof (induction n arbitrary: src dst m)
  case 0
  then have "hi = dst"
    by (simp add: word_unat_eq_iff)
  then show ?case
    by (subst copy_data.simps) (simp add: word_in_empty)
next
  case (Suc n)
  have lt: "dst < hi"
    using Suc.prems(1) by (simp add: word_less_nat_alt)
  have d4: "unat (dst + 4) = unat dst + 4"
    using Suc.prems(1) unsigned_less [of hi, where ?'a = nat] by (intro trans [OF unat_add_lt]) simp_all
  have s4: "unat (src + 4) = unat src + 4"
    using Suc.prems unsigned_less [of hi, where ?'a = nat] by (intro trans [OF unat_add_lt]) simp_all
  let ?m = "m(dst := m src)"
  have ih: "copy_data (src + 4) (dst + 4) hi ?m =
      Some (\<lambda>a. if word_in (dst + 4) hi a then ?m (src + 4 + (a - (dst + 4))) else ?m a)"
    using Suc.prems by (intro Suc.IH) (simp_all add: d4 s4)
  have "?m (src + 4 + (a - (dst + 4))) = m (src + (a - dst))" if "word_in (dst + 4) hi a" for a
  proof -
    have a: "unat (a - dst) = unat a - unat dst" "unat a < unat hi" "unat dst + 4 \<le> unat a"
      using that d4 by (auto simp: word_in_def word_le_nat_alt word_less_nat_alt intro!: unat_minus_le)
    have "unat (src + (a - dst)) = unat src + (unat a - unat dst)"
      using a Suc.prems unsigned_less [of hi, where ?'a = nat] by (intro trans [OF unat_add_lt]) simp_all
    then have "unat (src + (a - dst)) < unat dst"
      using a Suc.prems by simp
    then have "src + (a - dst) \<noteq> dst"
      by (metis less_irrefl)
    moreover have "src + 4 + (a - (dst + 4)) = src + (a - dst)"
      by simp
    ultimately show ?thesis
      by (metis fun_upd_other)
  qed
  then show ?case
    using lt ih word_in_step [OF Suc.prems(1)]
    by (subst copy_data.simps) (auto simp: fun_eq_iff word_in_def)
qed

lemma zero_bss_spec:
  "unat hi = unat dst + 4 * n \<Longrightarrow> zero_bss dst hi m = Some (\<lambda>a. if word_in dst hi a then 0 else m a)"
proof (induction n arbitrary: dst m)
  case 0
  then have "hi = dst"
    by (simp add: word_unat_eq_iff)
  then show ?case
    by (subst zero_bss.simps) (simp add: word_in_empty)
next
  case (Suc n)
  have lt: "dst < hi"
    using Suc.prems(1) by (simp add: word_less_nat_alt)
  have "unat (dst + 4) = unat dst + 4"
    using Suc.prems(1) unsigned_less [of hi, where ?'a = nat] by (intro trans [OF unat_add_lt]) simp_all
  then have "zero_bss (dst + 4) hi (m(dst := 0)) = Some (\<lambda>a. if word_in (dst + 4) hi a then 0 else (m(dst := 0)) a)"
    using Suc.prems by (intro Suc.IH) simp
  then show ?case
    using lt word_in_step [OF Suc.prems(1)] by (subst zero_bss.simps) (auto simp: fun_eq_iff)
qed

lemma word_count:
  fixes lo hi :: u32
  assumes "lo \<le> hi" and "unat (hi - lo) mod 4 = 0"
  shows "unat hi = unat lo + 4 * (unat (hi - lo) div 4)" "unat (hi - lo) = unat hi - unat lo"
proof -
  show d: "unat (hi - lo) = unat hi - unat lo"
    using assms(1) by (rule unat_minus_le)
  have "4 * (unat (hi - lo) div 4) = unat (hi - lo)"
    using assms(2) by presburger
  then show "unat hi = unat lo + 4 * (unat (hi - lo) div 4)"
    using assms(1) d by (simp add: word_le_nat_alt)
qed

lemma reset_memory_linked:
  assumes "linked L"
  shows "reset_memory L m = Some (initialised L m)"
proof -
  note l = assms [unfolded linked_def]
  have up: "sdata L \<le> edata L" "unat (edata L - sdata L) mod 4 = 0"
    and up': "sbss L \<le> ebss L" "unat (ebss L - sbss L) mod 4 = 0"
    using l by simp_all
  have "0x20000000 \<le> unat (sdata L)"
    using l unfolding word_le_nat_alt by simp
  then have low: "unat (sidata L) + 4 * (unat (edata L - sdata L) div 4) \<le> unat (sdata L)"
    using l times_div_less_eq_dividend [of 4 "unat (edata L - sdata L)"] by linarith
  have copy: "copy_data (sidata L) (sdata L) (edata L) m =
      Some (\<lambda>a. if word_in (sdata L) (edata L) a then m (sidata L + (a - sdata L)) else m a)"
    by (rule copy_data_spec [OF word_count(1) [OF up] low])
  have dis: "\<not> word_in (sbss L) (ebss L) a" if "word_in (sdata L) (edata L) a" for a
    using that l by (auto simp: word_in_def)
  show ?thesis
    unfolding reset_memory_def copy initialised_def
    using zero_bss_spec [OF word_count(1) [OF up']] dis by (auto simp: fun_eq_iff)
qed

text \<open>C38. With the layout of the linker script both loops of the reset handler end, and leave every
  word of \<open>.data\<close> with its image from flash, every word of \<open>.bss\<close> zero and the rest of memory as it
  was: this is the memory \<open>main\<close> starts in. A \<open>main\<close> that returns is trapped for ever.\<close>

theorem reset_initialises:
  assumes "linked L"
  shows "reset_memory L m = Some (initialised L m) \<and>
    Reset_Handler L main m = main (initialised L m) \<bind> spin"
  using reset_memory_linked [OF assms, of m] by (simp add: Reset_Handler_def)

definition small_image :: linker_symbols where
  "small_image = \<lparr>sidata = 0x400, sdata = 0x20000000, edata = 0x20000008, sbss = 0x20000008, ebss = 0x20000010\<rparr>"

theorem reset_initialises_witness:
  "\<exists>m. reset_memory small_image (\<lambda>a. a) = Some m \<and> m 0x20000004 = 0x404 \<and> m 0x2000000C = 0 \<and> m 0x20000010 = 0x20000010"
proof -
  have "linked small_image"
    by (simp add: linked_def small_image_def)
  then have "reset_memory small_image (\<lambda>a. a) = Some (initialised small_image (\<lambda>a. a))"
    using reset_initialises [of small_image "\<lambda>a. a" Some] by simp
  then show ?thesis
    by (auto simp: initialised_def word_in_def small_image_def)
qed

end
