(* ===== verification/Semihost.thy ===== *)
theory Semihost
  imports Startup
begin

unbundle bit_operations_syntax

text \<open>
  Leaving the program through the host, \<open>src/code/qemu-cortex-m/common/semihost.h\<close>. The host that
  services the breakpoint is a parameter: from the operation, its argument and the target's memory
  it either ends the program with a status or lets it go on. \<open>documented_host\<close> is what the
  header says of the two operations; \<open>sp\<close> is where the compiler puts the block.
\<close>

section \<open>The two calls\<close>

definition SYS_EXIT :: u32 where "SYS_EXIT = 0x18"
definition SYS_EXIT_EXTENDED :: u32 where "SYS_EXIT_EXTENDED = 0x20"
definition ADP_STOPPED_APPEXIT :: u32 where "ADP_STOPPED_APPEXIT = 0x20026"

type_synonym host = "u32 \<Rightarrow> u32 \<Rightarrow> ram \<Rightarrow> u32 option"

text \<open>\<open>Inl status\<close>: the host has ended the program. \<open>Inr m\<close>: it goes on with memory \<open>m\<close>.\<close>

definition semihost_call :: "host \<Rightarrow> u32 \<Rightarrow> u32 \<Rightarrow> ram \<Rightarrow> u32 + ram" where
  "semihost_call host op arg m = (case host op arg m of Some status \<Rightarrow> Inl status | None \<Rightarrow> Inr m)"

definition semihost_exit :: "host \<Rightarrow> u32 \<Rightarrow> int \<Rightarrow> ram \<Rightarrow> u32 option" where
  "semihost_exit host sp code m =
     (let m = m(sp := ADP_STOPPED_APPEXIT, sp + 4 := word_of_int code)
      in case semihost_call host SYS_EXIT_EXTENDED sp m of
           Inl status \<Rightarrow> Some status
         | Inr m \<Rightarrow>
             (case semihost_call host SYS_EXIT ADP_STOPPED_APPEXIT m of
                Inl status \<Rightarrow> Some status
              | Inr m \<Rightarrow> map_option (\<lambda>_. 0) (spin m)))"

section \<open>What a host does\<close>

text \<open>Operation 0x18 takes the reason itself: status 0 for a stopped application, 1 for any other.
  Operation 0x20, where there is one, takes a pointer to the reason and the status.\<close>

definition documented_host :: "bool \<Rightarrow> host \<Rightarrow> bool" where
  "documented_host extended host \<longleftrightarrow>
     (\<forall>arg m. host SYS_EXIT arg m = Some (if arg = ADP_STOPPED_APPEXIT then 0 else 1)) \<and>
     (\<forall>arg m. host SYS_EXIT_EXTENDED arg m =
        (if \<not> extended then None
         else if m arg = ADP_STOPPED_APPEXIT then Some (m (arg + 4)) else Some 1))"

definition qemu_host :: "bool \<Rightarrow> host" where
  "qemu_host extended op arg m =
     (if op = SYS_EXIT then Some (if arg = ADP_STOPPED_APPEXIT then 0 else 1)
      else if op = SYS_EXIT_EXTENDED \<and> extended
      then Some (if m arg = ADP_STOPPED_APPEXIT then m (arg + 4) else 1)
      else None)"

lemma qemu_host_documented: "documented_host extended (qemu_host extended)"
  by (simp add: documented_host_def qemu_host_def SYS_EXIT_def SYS_EXIT_EXTENDED_def)

lemma spin_None: "spin s = None"
proof (rule ccontr)
  assume "spin s \<noteq> None"
  then obtain r where "spin s = Some r"
    by blast
  then show False
    by (rule spin.raw_induct [where P = "\<lambda>_ _. False", rotated]) blast
qed

text \<open>The mistake the header warns of: the pointer form handed to operation 0x18.\<close>

lemma pointer_to_sys_exit:
  assumes "documented_host extended host" and "sp \<noteq> ADP_STOPPED_APPEXIT"
  shows "semihost_call host SYS_EXIT sp m = Inl 1"
  using assms by (simp add: semihost_call_def documented_host_def)

section \<open>Properties\<close>

text \<open>C37. \<open>semihost_exit\<close> always ends the program. On a host with the extended call it ends with the
  status it was given; on a host without it the fallback ends it with status 0 whatever the
  status was, so that a failed self-test is reported as a success. A host that services neither
  call leaves the program in its final loop.\<close>

theorem semihost_exit_status:
  assumes "documented_host extended host"
  shows "semihost_exit host sp code m = Some (if extended then word_of_int code else 0) \<and>
    semihost_exit (\<lambda>op arg m. None) sp code m = None"
proof -
  have "sp \<noteq> sp + 4"
    by simp
  then show ?thesis
    using assms by (simp add: semihost_exit_def semihost_call_def documented_host_def spin_None Let_def)
qed

theorem semihost_exit_status_witness:
  "semihost_exit (qemu_host True) 0x2000FF00 1 (\<lambda>_. 0) = Some 1 \<and> semihost_exit (qemu_host False) 0x2000FF00 1 (\<lambda>_. 0) = Some 0"
  using semihost_exit_status [OF qemu_host_documented] by simp

end
