(* ===== verification/Critical.thy ===== *)
theory Critical
  imports Prelude
begin

unbundle bit_operations_syntax

text \<open>
  Critical sections, \<open>irq_save\<close> and \<open>irq_restore\<close> of \<open>src/code/qemu-cortex-m/common/lm3s6965.h\<close>. The
  core is the value of PRIMASK, whose bit 0 masks the interrupts: the instructions \<open>cpsid i\<close> and
  \<open>cpsie i\<close> set and clear it.
\<close>

section \<open>The operations\<close>

definition cpsid_i :: "u32 \<Rightarrow> u32" where "cpsid_i primask = primask OR 1"
definition cpsie_i :: "u32 \<Rightarrow> u32" where "cpsie_i primask = primask AND NOT 1"

definition irq_save :: "u32 \<Rightarrow> u32 \<times> u32" where
  "irq_save core = (core, cpsid_i core)"

definition irq_restore :: "u32 \<Rightarrow> u32 \<Rightarrow> u32" where
  "irq_restore primask core = (if primask AND 1 = 0 then cpsie_i core else core)"

definition masked :: "u32 \<Rightarrow> bool" where
  "masked core \<longleftrightarrow> bit core 0"

section \<open>Nesting\<close>

text \<open>Code with critical sections in it: an access to shared data, and a section that saves the mask,
  runs its body and restores what it saved.\<close>

datatype 'a code = Access 'a | Section "'a code list"

text \<open>The accesses a piece of code makes, each with the mask under which it is made, and the mask it leaves.\<close>

fun run_code :: "'a code \<Rightarrow> u32 \<Rightarrow> ('a \<times> u32) list \<times> u32"
  and run_codes :: "'a code list \<Rightarrow> u32 \<Rightarrow> ('a \<times> u32) list \<times> u32" where
  "run_code (Access a) core = ([(a, core)], core)"
| "run_code (Section cs) core =
     (let (primask, core) = irq_save core; (as, core) = run_codes cs core in (as, irq_restore primask core))"
| "run_codes [] core = ([], core)"
| "run_codes (c # cs) core =
     (let (as, core) = run_code c core; (bs, core) = run_codes cs core in (as @ bs, core))"

text \<open>The accesses that stand inside some section.\<close>

fun protected :: "bool \<Rightarrow> 'a code \<Rightarrow> bool list"
  and protecteds :: "bool \<Rightarrow> 'a code list \<Rightarrow> bool list" where
  "protected ins (Access a) = [ins]"
| "protected ins (Section cs) = protecteds True cs"
| "protecteds ins [] = []"
| "protecteds ins (c # cs) = protected ins c @ protecteds ins cs"

lemma cps_bits: "masked (cpsid_i core)" "\<not> masked (cpsie_i core)"
  by (auto simp: masked_def cpsid_i_def cpsie_i_def bit_simps)

lemma cps_restore:
  "\<not> masked core \<Longrightarrow> cpsie_i (cpsid_i core) = core" "masked core \<Longrightarrow> cpsid_i core = core"
  unfolding masked_def cpsie_i_def cpsid_i_def by (rule bit_word_eqI; auto simp: bit_simps bit_1_iff intro: ccontr)+

lemma and_1_masked: "core AND 1 = 0 \<longleftrightarrow> \<not> masked core"
  using and_bit_nonzero [of core 0] by (auto simp: masked_def)

lemma irq_restore_save: "irq_restore core (cpsid_i core) = core"
  by (simp add: irq_restore_def and_1_masked cps_restore)

lemma run_code_masks:
  fixes c :: "'a code" and cs :: "'a code list"
  shows "snd (run_code c core) = core \<and> map (masked \<circ> snd) (fst (run_code c core)) = protected (masked core) c"
    and "snd (run_codes cs core) = core \<and> map (masked \<circ> snd) (fst (run_codes cs core)) = protecteds (masked core) cs"
proof (induction c core and cs core rule: run_code_run_codes.induct)
  case (2 cs core)
  then show ?case
    by (simp add: irq_save_def cps_bits irq_restore_save split_beta Let_def)
next
  case (4 c cs core)
  obtain as y where r: "run_code c core = (as, y)"
    by fastforce
  then show ?case
    using "4.IH"(1) "4.IH"(2) [of "run_code c core" as y, OF refl] by (auto simp: split_beta)
qed (auto simp: split_beta Let_def)

section \<open>Properties\<close>

text \<open>Critical sections nest: whatever sections stand inside it, code leaves the interrupt mask as it
  found it, so interrupts are not enabled again before the outermost section ends, every access
  inside a section runs masked, and the accesses outside run with the mask of the caller.\<close>

theorem critical_sections_nest:
  "case run_codes cs core of (accesses, core') \<Rightarrow>
     core' = core \<and> map (\<lambda>(a, primask). bit primask 0) accesses = protecteds (bit core 0) cs"
  using run_code_masks(2) [of cs core] by (auto simp: masked_def case_prod_unfold o_def)

end
