(* ===== verification/Startup_Demo.thy ===== *)
theory Startup_Demo
  imports Startup Uart
begin

unbundle bit_operations_syntax

text \<open>
  The tour of the memory map, \<open>src/code/qemu-cortex-m/01-startup-and-memory-map/main.c\<close>, run on
  the memory the reset handler leaves. The addresses the linker gives its objects are the
  fields of \<open>tour_symbols\<close>.
\<close>

section \<open>The example\<close>

record tour_symbols = linker_symbols +
  estack :: u32
  sheap :: u32
  at_banner :: u32
  at_initialised :: u32
  at_zeroed :: u32
  at_big_buffer :: u32
  at_counter :: u32
  at_stack_local :: u32

definition print_region :: "device \<Rightarrow> string \<Rightarrow> u32 \<Rightarrow> u32 \<Rightarrow> io_trace \<Rightarrow> io_trace option" where
  "print_region dev name start stop t = do {
     t \<leftarrow> uart_puts dev (cstr name) t;
     t \<leftarrow> uart_puts dev (cstr '' '') t;
     t \<leftarrow> uart_put_hex32 dev start t;
     t \<leftarrow> uart_puts dev (cstr '' .. '') t;
     t \<leftarrow> uart_put_hex32 dev stop t;
     t \<leftarrow> uart_puts dev (cstr ''  size='') t;
     t \<leftarrow> uart_put_u32 dev (stop - start) t;
     uart_puts dev (cline '' bytes'') t
   }"

definition print_address :: "device \<Rightarrow> string \<Rightarrow> u32 \<Rightarrow> io_trace \<Rightarrow> io_trace option" where
  "print_address dev name a t = do {
     t \<leftarrow> uart_puts dev (cstr name) t;
     t \<leftarrow> uart_put_hex32 dev a t;
     uart_puts dev (cline '''') t
   }"

definition check_sections :: "device \<Rightarrow> tour_symbols \<Rightarrow> ram \<Rightarrow> io_trace \<Rightarrow> io_trace option" where
  "check_sections dev L m t = do {
     t \<leftarrow> uart_puts dev (cstr ''.data  g_initialised = '') t;
     t \<leftarrow> uart_put_hex32 dev (m (at_initialised L)) t;
     t \<leftarrow> uart_puts dev (cline (if m (at_initialised L) = 0xDEADBEEF then ''   (copied OK)''
          else ''   *** COPY LOOP BROKEN ***'')) t;
     t \<leftarrow> uart_puts dev (cstr ''.bss   g_zeroed      = '') t;
     t \<leftarrow> uart_put_hex32 dev (m (at_zeroed L)) t;
     uart_puts dev (cline (if m (at_zeroed L) = 0 then ''   (zeroed OK)''
          else ''   *** ZERO LOOP BROKEN ***'')) t
   }"

definition example01 :: "device \<Rightarrow> tour_symbols \<Rightarrow> ram \<Rightarrow> io_trace \<Rightarrow> (int \<times> io_trace) option" where
  "example01 dev L m t = do {
     t \<leftarrow> uart_init dev 115200 t;
     t \<leftarrow> uart_puts dev (cstr (CHR 0x0A # ''=== '')) t;
     t \<leftarrow> uart_puts dev (cline ''startup + memory map'') t;
     t \<leftarrow> uart_puts dev (cline (''==='' @ [CHR 0x0A])) t;
     t \<leftarrow> check_sections dev L m t;
     t \<leftarrow> uart_puts dev (cline (CHR 0x0A # ''-- linker symbols --'')) t;
     t \<leftarrow> print_region dev ''.data (RAM) '' (sdata L) (edata L) t;
     t \<leftarrow> print_address dev ''.data image in flash at '' (sidata L) t;
     t \<leftarrow> print_region dev ''.bss  (RAM) '' (sbss L) (ebss L) t;
     t \<leftarrow> uart_puts dev (cline (CHR 0x0A # ''-- where things actually are --'')) t;
     t \<leftarrow> print_address dev ''g_banner   (.rodata, flash) '' (at_banner L) t;
     t \<leftarrow> print_address dev ''g_initialised (.data, SRAM) '' (at_initialised L) t;
     t \<leftarrow> print_address dev ''g_big_buffer  (.bss,  SRAM) '' (at_big_buffer L) t;
     t \<leftarrow> print_address dev ''counter       (.bss,  SRAM) '' (at_counter L) t;
     t \<leftarrow> print_address dev ''stack_local   (stack, SRAM) '' (at_stack_local L) t;
     t \<leftarrow> print_address dev ''_estack       (top of SRAM) '' (estack L) t;
     t \<leftarrow> uart_puts dev (cstr (CHR 0x0A # ''Stack has grown down '')) t;
     t \<leftarrow> uart_put_u32 dev (estack L - at_stack_local L) t;
     t \<leftarrow> uart_puts dev (cline '' bytes from the top.'') t;
     t \<leftarrow> uart_puts dev (cstr ''Heap would start at '') t;
     t \<leftarrow> uart_put_hex32 dev (sheap L) t;
     t \<leftarrow> uart_puts dev (cline '' and grow up toward it.'') t;
     t \<leftarrow> uart_puts dev (cline (CHR 0x0A # ''Run `make size` and compare: text = flash, data = both,'' @ [CHR 0x0A] @
        ''bss = RAM only. That is the whole story.'')) t;
     Some (0, t)
   }"

section \<open>What it prints\<close>

lemma prints_cong: "prints dev f a \<Longrightarrow> a = b \<Longrightarrow> prints dev f b"
  by simp

lemma region_returns:
  assumes "uart_ready dev" and "CHR 0x00 \<notin> set name" and "\<And>t. \<exists>r. g t = Some r \<and> P r"
  shows "\<exists>r. print_region dev name a b t \<bind> g = Some r \<and> P r"
  unfolding print_region_def bind_assoc
  by (intro print_steps assms) simp_all

lemma address_returns:
  assumes "uart_ready dev" and "CHR 0x00 \<notin> set name" and "\<And>t. \<exists>r. g t = Some r \<and> P r"
  shows "\<exists>r. print_address dev name a t \<bind> g = Some r \<and> P r"
  unfolding print_address_def bind_assoc
  by (intro print_steps assms) simp_all

definition sections_text :: "u32 \<Rightarrow> u32 \<Rightarrow> u8 list" where
  "sections_text d b =
     wire ''.data  g_initialised = '' @ [48, 120] @ map hex_char (nibbles 8 (unat d)) @
     wire (if d = 0xDEADBEEF then ''   (copied OK)'' else ''   *** COPY LOOP BROKEN ***'') @ [13, 10] @
     wire ''.bss   g_zeroed      = '' @ [48, 120] @ map hex_char (nibbles 8 (unat b)) @
     wire (if b = 0 then ''   (zeroed OK)'' else ''   *** ZERO LOOP BROKEN ***'') @ [13, 10]"

lemma prints_sections:
  assumes "uart_ready dev"
  shows "prints dev (check_sections dev L m) (sections_text (m (at_initialised L)) (m (at_zeroed L)))"
proof -
  have n: "CHR 0x00 \<notin> set (if c then ''   (copied OK)'' else ''   *** COPY LOOP BROKEN ***'')"
    "CHR 0x00 \<notin> set (if c then ''   (zeroed OK)'' else ''   *** ZERO LOOP BROKEN ***'')" for c
    by simp_all
  show ?thesis
    unfolding check_sections_def [abs_def]
    by (rule prints_cong, (rule prints_bind prints_cstr prints_hex32 prints_cline assms n | (rule notI, simp; fail))+)
      (simp add: sections_text_def)
qed

section \<open>Properties\<close>

text \<open>Started by the reset handler with the layout of the linker script, the example finds its
  initialised variable copied and its zeroed one zero: the check prints the two lines that say so,
  and the program exits with status 0, whatever was in SRAM at reset.\<close>

theorem example01_copied_and_zeroed:
  fixes L :: tour_symbols
  assumes "uart_ready dev" and "linked L"
    and "word_in (sdata L) (edata L) (at_initialised L)" and "word_in (sbss L) (ebss L) (at_zeroed L)"
    and "m (sidata L + (at_initialised L - sdata L)) = 0xDEADBEEF"
  shows "\<exists>m' evs t'. reset_memory L m = Some m' \<and>
    check_sections dev L m' t = Some (t @ evs) \<and> writes_to UART0_DR evs = map ucast (sections_text 0xDEADBEEF 0) \<and>
    example01 dev L m' t = Some (0, t')"
proof -
  let ?m = "initialised L m"
  have apart: "\<not> word_in (sdata L) (edata L) (at_zeroed L)"
    using assms(2,4) by (auto simp: linked_def word_in_def)
  have v: "?m (at_initialised L) = 0xDEADBEEF" "?m (at_zeroed L) = 0"
    using assms(3-5) apart by (simp_all add: initialised_def)
  have check: "prints dev (check_sections dev L ?m) (sections_text 0xDEADBEEF 0)"
    using prints_sections [OF assms(1), of L ?m] unfolding v .
  then obtain evs where e: "check_sections dev L ?m t = Some (t @ evs)"
    "writes_to UART0_DR evs = map ucast (sections_text 0xDEADBEEF 0)"
    using prints_runs by blast
  obtain t1 where init: "uart_init dev 115200 t = Some t1"
    by (rule uart_init_115200)
  note steps = print_steps [OF assms(1)] prints_then [OF check]
    region_returns [OF assms(1)] address_returns [OF assms(1)]
  have "\<exists>r. example01 dev L ?m t = Some r \<and> fst r = 0"
    unfolding example01_def init bind.bind_lunit by (rule steps | simp; fail)+
  then obtain t' where "example01 dev L ?m t = Some (0, t')"
    by auto
  then show ?thesis
    using e reset_memory_linked [OF assms(2)] by blast
qed

definition tour_image :: tour_symbols where
  "tour_image = \<lparr>sidata = 0x400, sdata = 0x20000000, edata = 0x20000004, sbss = 0x20000004, ebss = 0x2000100C,
     estack = 0x20010000, sheap = 0x20001010, at_banner = 0x300, at_initialised = 0x20000000, at_zeroed = 0x20000004,
     at_big_buffer = 0x20000008, at_counter = 0x20001008, at_stack_local = 0x2000FFE0\<rparr>"

theorem example01_copied_and_zeroed_witness:
  "\<exists>m t. reset_memory tour_image (\<lambda>_. 0xDEADBEEF) = Some m \<and> example01 uart_idle tour_image m [] = Some (0, t)"
proof -
  have "linked tour_image" "word_in (sdata tour_image) (edata tour_image) (at_initialised tour_image)"
    "word_in (sbss tour_image) (ebss tour_image) (at_zeroed tour_image)"
    by (simp_all add: linked_def word_in_def tour_image_def)
  then show ?thesis
    using example01_copied_and_zeroed [OF uart_idle_ready, of tour_image "\<lambda>_. 0xDEADBEEF" "[]"] by blast
qed

end
