(* ===== verification/Systick.thy ===== *)
theory Systick
  imports Uart
begin

unbundle bit_operations_syntax

text \<open>
  The timebase of \<open>src/code/qemu-cortex-m/02-systick-timebase/main.c\<close>. The tick counter is
  written by the interrupt and read by \<open>main\<close>: \<open>ticks k\<close> is the value its read number \<open>k\<close> sees, and the
  functions that read it count their reads. A program ends in \<open>semihost_exit\<close>, with the status
  it hands to the host (\<open>Inl\<close>).
\<close>

section \<open>The example\<close>

type_synonym 'a run = "((int \<times> io_trace) + 'a) option"

definition exit_with :: "int \<Rightarrow> io_trace \<Rightarrow> 'a run" where
  "exit_with code t = Some (Inl (code, t))"

definition systick_isr :: "u32 \<Rightarrow> u32" where
  "systick_isr g_ticks = g_ticks + 1"

definition systick_init :: "device \<Rightarrow> u32 \<Rightarrow> io_trace \<Rightarrow> io_trace run" where
  "systick_init dev hz t = do {
     q \<leftarrow> udiv SYSTEM_CLOCK_HZ hz;
     let reload = q - 1;
     if reload > 0x00FFFFFF
     then do {
       t \<leftarrow> uart_puts dev (cline ''reload exceeds 24 bits - pick a faster tick'') t;
       exit_with 1 t
     }
     else
       let t = reg_write SYSTICK_LOAD reload t;
           t = reg_write SYSTICK_VAL 0 t
       in Some (Inr (reg_write SYSTICK_CTRL
            (SYSTICK_CTRL_CLKSOURCE OR SYSTICK_CTRL_TICKINT OR SYSTICK_CTRL_ENABLE) t))
   }"

text \<open>The loop of \<open>delay_ticks\<close>, whose result is the number of the next read.\<close>

partial_function (option) delay_loop :: "(nat \<Rightarrow> u32) \<Rightarrow> u32 \<Rightarrow> u32 \<Rightarrow> nat \<Rightarrow> nat option" where
  "delay_loop ticks start n k =
     (if ticks k - start < n then delay_loop ticks start n (k + 1) else Some (k + 1))"

definition delay_ticks :: "(nat \<Rightarrow> u32) \<Rightarrow> u32 \<Rightarrow> nat \<Rightarrow> nat option" where
  "delay_ticks ticks n k = delay_loop ticks (ticks k) n (k + 1)"

function tick_report :: "device \<Rightarrow> (nat \<Rightarrow> u32) \<Rightarrow> u32 \<Rightarrow> nat \<Rightarrow> io_trace \<Rightarrow> io_trace option" where
  "tick_report dev ticks i k t =
     (if i \<le> 5
      then do {
        k \<leftarrow> delay_ticks ticks 100 k;
        t \<leftarrow> uart_puts dev (cstr ''t = '') t;
        t \<leftarrow> uart_put_u32 dev (ticks k) t;
        t \<leftarrow> uart_puts dev (cstr '' ms   iteration '') t;
        t \<leftarrow> uart_put_u32 dev i t;
        t \<leftarrow> uart_puts dev (cline '''') t;
        tick_report dev ticks (i + 1) (k + 1) t
      }
      else Some t)"
  by auto
termination
  by (relation "measure (\<lambda>(dev, ticks, i, k, t). 6 - unat i)")
    (auto simp: word_le_nat_alt unat_Suc_lt)

declare tick_report.simps [simp del]

definition example02 :: "device \<Rightarrow> (nat \<Rightarrow> u32) \<Rightarrow> io_trace \<Rightarrow> (int \<times> io_trace) option" where
  "example02 dev ticks t = do {
     t \<leftarrow> uart_init dev 115200 t;
     t \<leftarrow> uart_puts dev (cline (CHR 0x0A # ''=== SysTick timebase ==='')) t;
     r \<leftarrow> systick_init dev 1000 t;
     case r of
       Inl e \<Rightarrow> Some e
     | Inr t \<Rightarrow> do {
         t \<leftarrow> uart_puts dev (cstr ''RELOAD = '') t;
         let (v, t) = reg_read dev SYSTICK_LOAD t;
         t \<leftarrow> uart_put_u32 dev v t;
         t \<leftarrow> uart_puts dev (cstr ''  ('') t;
         t \<leftarrow> uart_put_u32 dev (SYSTEM_CLOCK_HZ div 1000) t;
         t \<leftarrow> uart_puts dev (cline ('' core cycles per tick)'' @ [CHR 0x0A])) t;
         t \<leftarrow> tick_report dev ticks 1 0 t;
         let (c1, t) = reg_read dev SYSTICK_CTRL t;
         let (c2, t) = reg_read dev SYSTICK_CTRL t;
         t \<leftarrow> uart_puts dev (cstr (CHR 0x0A # ''COUNTFLAG (bit 16) read twice: '')) t;
         t \<leftarrow> uart_put_hex32 dev c1 t;
         t \<leftarrow> uart_puts dev (cstr '' then '') t;
         t \<leftarrow> uart_put_hex32 dev c2 t;
         t \<leftarrow> uart_puts dev (cline '''') t;
         t \<leftarrow> (if c1 AND push_bit 16 1 \<noteq> 0 \<and> c2 AND push_bit 16 1 \<noteq> 0
              then uart_puts dev (cline (''Both reads show COUNTFLAG set -> this host does NOT model'' @ [CHR 0x0A] @
                ''read-to-clear. On real silicon the second read would be 0.'')) t
              else if c1 AND push_bit 16 1 \<noteq> 0
              then uart_puts dev (cline ''Cleared on read, as the hardware spec requires.'') t
              else Some t);
         t \<leftarrow> uart_puts dev (cline (''Either way the rule stands: never poll COUNTFLAG from two'' @ [CHR 0x0A] @
            ''places, because the first reader consumes the flag.'')) t;
         Some (0, t)
       }
   }"

section \<open>Properties\<close>

text \<open>The counter as the interrupt moves it: \<open>f k\<close> interrupts have happened at read \<open>k\<close>. Between two
  reads it may move by any amount short of \<open>2 ^ 32 - n\<close>.\<close>

definition tick_source :: "(nat \<Rightarrow> u32) \<Rightarrow> (nat \<Rightarrow> nat) \<Rightarrow> nat \<Rightarrow> bool" where
  "tick_source ticks f n \<longleftrightarrow> (\<forall>k. ticks k = of_nat (f k) \<and> f k \<le> f (Suc k) \<and> f (Suc k) + n < f k + 2 ^ 32) \<and>
     (\<forall>m. \<exists>k. m \<le> f k)"

lemma tick_source_mono: "tick_source ticks f n \<Longrightarrow> i \<le> j \<Longrightarrow> f i \<le> f j"
  unfolding tick_source_def by (blast intro: lift_Suc_mono_le)

lemma tick_diff:
  assumes "tick_source ticks f n" and "k \<le> i" and "f i - f k < 2 ^ 32"
  shows "unat (ticks i - ticks k) = f i - f k"
proof -
  have "f k \<le> f i"
    using assms(1,2) by (rule tick_source_mono)
  then have "ticks i - ticks k = of_nat (f i - f k)"
    using assms(1) by (simp add: tick_source_def of_nat_diff)
  then show ?thesis
    using assms(3) by (simp add: unat_of_nat)
qed

lemma delay_loop_ends:
  assumes "k < j" and "k < i" and "i \<le> j" and "\<And>l. i \<le> l \<Longrightarrow> l < j \<Longrightarrow> ticks l - ticks k < n" and "\<not> ticks j - ticks k < n"
  shows "delay_loop ticks (ticks k) n i = Some (j + 1)"
  using assms(2-4)
proof (induction "j - i" arbitrary: i)
  case 0
  then show ?case
    using assms(5) by (subst delay_loop.simps) simp
next
  case (Suc m)
  then have "delay_loop ticks (ticks k) n (i + 1) = Some (j + 1)"
    by (intro Suc.hyps(1)) auto
  then show ?case
    using Suc by (subst delay_loop.simps) simp
qed

lemma delay_ticks_ends:
  assumes "tick_source ticks f (unat n)"
  shows "\<exists>j. delay_ticks ticks n k = Some (j + 1) \<and> k < j \<and> f k + unat n \<le> f j \<and>
    (\<forall>i. k < i \<longrightarrow> i < j \<longrightarrow> f i < f k + unat n)"
proof -
  let ?P = "\<lambda>j. k < j \<and> f k + unat n \<le> f j"
  obtain j0 where "f k + unat n \<le> f j0"
    using assms unfolding tick_source_def by blast
  then have "?P (max j0 (Suc k))"
    using tick_source_mono [OF assms, of j0 "max j0 (Suc k)"] by simp
  then obtain j where j: "?P j" "\<And>i. i < j \<Longrightarrow> \<not> ?P i"
    using exists_least_iff [of ?P] by blast
  have before: "f i < f k + unat n" if "k < i" "i < j" for i
    using j(2) [OF that(2)] that(1) by simp
  have "f (j - 1) \<le> f k + unat n"
    using before [of "j - 1"] j(1) by (cases "j = Suc k") force+
  moreover have "f j + unat n < f (j - 1) + 2 ^ 32"
    using assms j(1) unfolding tick_source_def by (metis Suc_diff_1 gr_implies_not0 not_gr_zero)
  ultimately have dj: "f j - f k < 2 ^ 32"
    by simp
  have "ticks i - ticks k < n" if "Suc k \<le> i" "i < j" for i
  proof -
    have "f i - f k < unat n"
      using before [of i] that tick_source_mono [OF assms, of k i] by simp
    then show ?thesis
      using tick_diff [OF assms, of k i] that unsigned_less [of n, where ?'a = nat] by (simp add: word_less_nat_alt)
  qed
  moreover have "\<not> ticks j - ticks k < n"
    using tick_diff [OF assms, of k j] dj j(1) unfolding word_less_nat_alt by linarith
  ultimately have "delay_ticks ticks n k = Some (j + 1)"
    unfolding delay_ticks_def using j(1) by (intro delay_loop_ends) auto
  then show ?thesis
    using j(1) before by blast
qed

text \<open>A delay ends, whatever the value of the 32-bit counter at its start: it returns at the first
  read of the counter at which at least \<open>n\<close> interrupts have happened since its start, also when
  the counter wraps in between.\<close>

theorem delay_ticks_exact:
  assumes "tick_source ticks f (unat n)"
  shows "\<exists>j. delay_ticks ticks n k = Some (j + 1) \<and> k < j \<and> f k + unat n \<le> f j \<and>
    (\<forall>i. k < i \<longrightarrow> i < j \<longrightarrow> f i < f k + unat n)"
  using assms by (rule delay_ticks_ends)

text \<open>A counter that starts two ticks before it wraps and moves by one between reads.\<close>

theorem delay_ticks_exact_witness:
  "\<exists>j. delay_ticks (\<lambda>k. of_nat (4294967294 + k)) 5 0 = Some (j + 1) \<and> 4294967294 + 5 \<le> 4294967294 + j"
proof -
  have "tick_source (\<lambda>k. of_nat (4294967294 + k)) (\<lambda>k. 4294967294 + k) (unat (5 :: u32))"
    unfolding tick_source_def by (auto intro: trans_le_add2)
  then show ?thesis
    using delay_ticks_exact [of "\<lambda>k. of_nat (4294967294 + k)" "\<lambda>k. 4294967294 + k" 5 0] by auto
qed

text \<open>\<open>systick_init\<close> rejects a rate, printing that the tick is too slow and exiting with status 1,
  exactly when it is above the clock, that is when the tick is too fast; every other rate above
  0 gets the reload value for its period, which always fits the 24 bits of the register.\<close>

theorem systick_init_rejects:
  assumes "uart_ready dev" and "hz \<noteq> 0"
  shows "\<exists>r. systick_init dev hz t = Some r \<and> (isl r \<longleftrightarrow> SYSTEM_CLOCK_HZ < hz) \<and>
    (case r of Inl (code, _) \<Rightarrow> code = 1
     | Inr t' \<Rightarrow> \<exists>v. writes_to SYSTICK_LOAD t' = writes_to SYSTICK_LOAD t @ [v] \<and>
        unat v + 1 = 12000000 div unat hz \<and> unat v < 2 ^ 24)"
proof -
  have clk: "unat SYSTEM_CLOCK_HZ = 12000000"
    by (simp add: SYSTEM_CLOCK_HZ_def)
  have q: "udiv SYSTEM_CLOCK_HZ hz = Some (SYSTEM_CLOCK_HZ div hz)" "unat (SYSTEM_CLOCK_HZ div hz) = 12000000 div unat hz"
    using assms(2) by (simp_all add: udiv_def unat_div clk)
  show ?thesis
  proof (cases "SYSTEM_CLOCK_HZ < hz")
    case True
    then have "12000000 div unat hz = 0"
      by (simp add: word_less_nat_alt clk)
    then have "SYSTEM_CLOCK_HZ div hz = 0"
      using q(2) by (simp add: unat_eq_zero)
    moreover obtain evs where "uart_puts dev (cline ''reload exceeds 24 bits - pick a faster tick'') t = Some (t @ evs)"
      using prints_runs [OF prints_puts [OF assms(1), of "map of_char ''reload exceeds 24 bits - pick a faster tick'' @ [10]" "[]"]]
      by (auto simp: cline_def)
    ultimately show ?thesis
      using True q(1) by (simp add: systick_init_def exit_with_def)
  next
    case False
    then have "1 \<le> 12000000 div unat hz"
      using assms(2) by (simp add: word_less_nat_alt clk div_greater_zero_iff Suc_le_eq unat_gt_0)
    then have v: "unat (SYSTEM_CLOCK_HZ div hz - 1) = 12000000 div unat hz - 1"
      using q(2) by (subst unat_minus_le) (auto simp: word_le_nat_alt)
    have "d - 1 < 2 ^ 24" if "d \<le> 12000000" for d :: nat
      using that by simp
    then have fits: "unat (SYSTEM_CLOCK_HZ div hz - 1) < 2 ^ 24"
      unfolding v by (metis div_le_dividend)
    then have small: "\<not> SYSTEM_CLOCK_HZ div hz - 1 > 0x00FFFFFF"
      unfolding word_less_nat_alt by simp
    have ne: "SYSTICK_VAL \<noteq> SYSTICK_LOAD" "SYSTICK_CTRL \<noteq> SYSTICK_LOAD"
      by (simp_all add: core_regs)
    show ?thesis
      using False small fits v \<open>1 \<le> 12000000 div unat hz\<close> q(1) ne by (simp add: systick_init_def traffic Let_def)
  qed
qed

theorem systick_init_rejects_witness:
  "(\<exists>e. systick_init uart_idle 12000001 [] = Some (Inl (1, e))) \<and>
   (\<exists>t. systick_init uart_idle 1000 [] = Some (Inr t) \<and> writes_to SYSTICK_LOAD t = [11999])"
proof
  obtain r where "systick_init uart_idle 12000001 [] = Some r" "isl r \<longleftrightarrow> SYSTEM_CLOCK_HZ < 12000001"
    "case r of Inl (code, _) \<Rightarrow> code = 1
     | Inr t' \<Rightarrow> \<exists>v. writes_to SYSTICK_LOAD t' = writes_to SYSTICK_LOAD [] @ [v] \<and>
        unat v + 1 = 12000000 div unat (12000001 :: u32) \<and> unat v < 2 ^ 24"
    using systick_init_rejects [OF uart_idle_ready, of 12000001 "[]"] by auto
  then show "\<exists>e. systick_init uart_idle 12000001 [] = Some (Inl (1, e))"
    by (cases r) (auto simp: SYSTEM_CLOCK_HZ_def)
  obtain r where "systick_init uart_idle 1000 [] = Some r" "isl r \<longleftrightarrow> SYSTEM_CLOCK_HZ < 1000"
    "case r of Inl (code, _) \<Rightarrow> code = 1
     | Inr t' \<Rightarrow> \<exists>v. writes_to SYSTICK_LOAD t' = writes_to SYSTICK_LOAD [] @ [v] \<and>
        unat v + 1 = 12000000 div unat (1000 :: u32) \<and> unat v < 2 ^ 24"
    using systick_init_rejects [OF uart_idle_ready, of 1000 "[]"] by auto
  then obtain t v where "systick_init uart_idle 1000 [] = Some (Inr t)" "writes_to SYSTICK_LOAD t = [v]" "unat v + 1 = 12000"
    by (cases r) (auto simp: SYSTEM_CLOCK_HZ_def)
  moreover from this have "v = 11999"
    by (simp add: word_unat_eq_iff)
  ultimately show "\<exists>t. systick_init uart_idle 1000 [] = Some (Inr t) \<and> writes_to SYSTICK_LOAD t = [11999]"
    by blast
qed

text \<open>The whole example. Printing returns, every delay ends, and so the program exits with status 0.\<close>

lemma tick_report_returns:
  assumes "uart_ready dev" and "tick_source ticks f 100"
  shows "\<exists>t'. tick_report dev ticks i k t = Some t'"
proof (induction "6 - unat i" arbitrary: i k t)
  case 0
  then have "\<not> i \<le> 5"
    by (simp add: word_le_nat_alt)
  then show ?case
    by (subst tick_report.simps) simp
next
  case (Suc m)
  have "unat i + 1 < 2 ^ 32"
    using Suc.hyps(2) by simp
  then have i: "unat (i + 1) = unat i + 1" "i \<le> 5"
    using Suc.hyps(2) by (auto simp: unat_Suc_lt word_le_nat_alt)
  have "tick_source ticks f (unat (100 :: u32))"
    using assms(2) by simp
  from delay_ticks_ends [OF this, of k] obtain j where "delay_ticks ticks 100 k = Some (j + 1)"
    by blast
  then have step: "tick_report dev ticks i k t =
      uart_puts dev (cstr ''t = '') t \<bind> (\<lambda>t. uart_put_u32 dev (ticks (j + 1)) t \<bind> (\<lambda>t.
      uart_puts dev (cstr '' ms   iteration '') t \<bind> (\<lambda>t. uart_put_u32 dev i t \<bind> (\<lambda>t.
      uart_puts dev (cline '''') t \<bind> tick_report dev ticks (i + 1) (j + 1 + 1)))))"
    using i(2) by (subst tick_report.simps) simp
  have ih: "\<exists>t'. tick_report dev ticks (i + 1) (j + 1 + 1) t = Some t' \<and> True" for t
    using Suc.hyps(1) [of "i + 1"] Suc.hyps(2) i(1) by simp
  have "\<exists>t'. tick_report dev ticks i k t = Some t' \<and> True"
    unfolding step
    by (intro print_steps ih assms(1)) simp_all
  then show ?case
    by simp
qed

lemma systick_init_1000: "\<exists>r. systick_init dev 1000 t = Some (Inr r)"
  by (simp add: systick_init_def udiv_def SYSTEM_CLOCK_HZ_def Let_def)

theorem example02_exits:
  assumes "uart_ready dev" and "tick_source ticks f 100"
  shows "\<exists>t'. example02 dev ticks t = Some (0, t')"
proof -
  obtain t1 where init: "uart_init dev 115200 t = Some t1"
    by (rule uart_init_115200)
  have tick: "\<exists>r. systick_init dev 1000 t \<bind> g = Some r \<and> P r"
    if "\<And>t. \<exists>r. g (Inr t) = Some r \<and> P r" for g t and P :: "int \<times> io_trace \<Rightarrow> bool"
    using systick_init_1000 [of dev t] that by (metis bind.bind_lunit)
  have report: "\<exists>r. tick_report dev ticks 1 0 t \<bind> g = Some r \<and> P r"
    if "\<And>t. \<exists>r. g t = Some r \<and> P r" for g t and P :: "int \<times> io_trace \<Rightarrow> bool"
    using tick_report_returns [OF assms, of 1 0 t] that by (metis bind.bind_lunit)
  have note_flag: "prints dev (\<lambda>t. if c then uart_puts dev (cline a) t else if d then uart_puts dev (cline b) t else Some t)
      (if c then wire a @ [13, 10] else if d then wire b @ [13, 10] else [])"
    if "CHR 0x00 \<notin> set a" "CHR 0x00 \<notin> set b" for a b c d
    using that prints_cline [OF assms(1)] prints_none by (simp split: if_split)
  note steps = print_steps [OF assms(1)] prints_then [OF note_flag]
  have "\<exists>r. example02 dev ticks t = Some r \<and> fst r = 0"
    unfolding example02_def init bind.bind_lunit
    by (rule steps tick report | simp only: reg_read_def Let_def prod.case sum.case | simp; fail)+
  then show ?thesis
    by auto
qed

end
