(* ===== verification/Nvic.thy ===== *)
theory Nvic
  imports Uart
begin

unbundle bit_operations_syntax

text \<open>
  The interrupt priorities of \<open>src/code/qemu-cortex-m/03-nvic-priority-and-preemption/main.c\<close>:
  the probe of the implemented priority bits, and the two handlers, of which SysTick may
  preempt the serial one.
\<close>

section \<open>The priority probe\<close>

definition nvic_read :: "device \<Rightarrow> u32 \<Rightarrow> io_trace \<Rightarrow> u8 \<times> io_trace" where
  "nvic_read dev a t = (case reg_read dev a t of (v, t) \<Rightarrow> (ucast v, t))"

definition nvic_write :: "u32 \<Rightarrow> u8 \<Rightarrow> io_trace \<Rightarrow> io_trace" where
  "nvic_write a v t = t @ [Wr8 a v]"

function leading_ones :: "u8 \<Rightarrow> u32 \<Rightarrow> u32" where
  "leading_ones readback bits =
     (if readback AND 0x80 \<noteq> 0 then leading_ones (push_bit 1 readback) (bits + 1) else bits)"
  by auto

lemma shift_out_smaller: "unat (push_bit 1 r) < unat r" if "r AND 0x80 \<noteq> 0" for r :: u8
proof -
  have "bit r 7"
    using that and_bit_nonzero [of r 7] by (simp add: push_bit_eq_mult)
  then have "bit (unat r) 7"
    by (simp add: bit_unsigned_iff)
  then have "odd (unat r div 128)"
    by (simp add: bit_iff_odd)
  then have "\<not> unat r < 128"
    by auto
  moreover have "unat r < 256"
    using unsigned_less [of r, where ?'a = nat] by simp
  moreover have "unat (push_bit 1 r) = (2 * unat r) mod 256"
    by (simp add: push_bit_eq_mult unat_word_ariths mult.commute)
  moreover have "2 * u mod 256 < u" if "\<not> u < 128" "u < 256" for u :: nat
  proof -
    have "2 * u mod 256 = 2 * u - 256"
      using that by (simp add: le_mod_geq)
    then show ?thesis
      using that by linarith
  qed
  ultimately show ?thesis
    by simp
qed

termination leading_ones
  by (relation "measure (\<lambda>(r, bits). unat r)") (auto intro: shift_out_smaller simp del: push_bit_of_1 One_nat_def)

declare leading_ones.simps [simp del]

definition nvic_priority_bits :: "device \<Rightarrow> io_trace \<Rightarrow> u32 \<times> io_trace" where
  "nvic_priority_bits dev t =
     (case nvic_read dev (NVIC_IPR IRQ_UART0) t of (saved, t) \<Rightarrow>
      let t = nvic_write (NVIC_IPR IRQ_UART0) 0xFF t in
      case nvic_read dev (NVIC_IPR IRQ_UART0) t of (readback, t) \<Rightarrow>
      let t = nvic_write (NVIC_IPR IRQ_UART0) saved t
      in (leading_ones readback 0, t))"

section \<open>The handlers\<close>

record prio_state =
  g_systick_count :: u32
  g_low_prio_entered :: u32
  g_preempted_at :: u32
  g_in_low_prio :: bool

definition prio_tick :: "prio_state \<Rightarrow> prio_state" where
  "prio_tick s =
     (let s = s\<lparr>g_systick_count := g_systick_count s + 1\<rparr>
      in if g_in_low_prio s \<and> g_preempted_at s = 0 then s\<lparr>g_preempted_at := g_systick_count s\<rparr> else s)"

text \<open>The serial handler. SysTick preempts it \<open>k1\<close> times before it reads the counter, \<open>k2\<close> times
  during its busy loop and \<open>k3\<close> times before it clears its flag.\<close>

definition low_prio_isr :: "device \<Rightarrow> nat \<Rightarrow> nat \<Rightarrow> nat \<Rightarrow> prio_state \<Rightarrow> io_trace \<Rightarrow> (prio_state \<times> io_trace) option" where
  "low_prio_isr dev k1 k2 k3 s t =
     (let t = reg_write UART0_ICR 0xFFFF t;
          s = s\<lparr>g_low_prio_entered := g_low_prio_entered s + 1\<rparr>;
          s = s\<lparr>g_in_low_prio := True\<rparr>;
          s = (prio_tick ^^ k1) s;
          before = g_systick_count s;
          s = (prio_tick ^^ k2) s;
          after = g_systick_count s;
          s = (prio_tick ^^ k3) s;
          s = s\<lparr>g_in_low_prio := False\<rparr>
      in do {
        t \<leftarrow> uart_puts dev (cstr ''  [UART0 ISR] ran while SysTick advanced '') t;
        t \<leftarrow> uart_put_u32 dev (after - before) t;
        t \<leftarrow> uart_puts dev (cline '' ticks -> it preempted me'') t;
        Some (s, t)
      })"

section \<open>Properties\<close>

text \<open>The priority register of a core that implements the top \<open>n\<close> bits: a read gives the last byte
  written to it, the other bits zero.\<close>

fun last_written :: "u32 \<Rightarrow> io_trace \<Rightarrow> u8 option" where
  "last_written a [] = None"
| "last_written a (Wr8 b v # t) = (case last_written a t of None \<Rightarrow> if b = a then Some v else None | Some w \<Rightarrow> Some w)"
| "last_written a (e # t) = last_written a t"

lemma last_written_append:
  "last_written a (s @ t) = (case last_written a t of None \<Rightarrow> last_written a s | Some v \<Rightarrow> Some v)"
  by (induction a s rule: last_written.induct) (auto split: option.splits)

definition priority_register :: "device \<Rightarrow> u32 \<Rightarrow> nat \<Rightarrow> bool" where
  "priority_register dev a n \<longleftrightarrow>
     n \<le> 8 \<and> (\<forall>t v. last_written a t = Some v \<longrightarrow> ucast (dev t a) = v AND NOT (mask (8 - n)))"

lemma leading_ones_step:
  "r AND 0x80 \<noteq> 0 \<Longrightarrow> leading_ones r b = leading_ones (push_bit 1 r) (b + 1)"
  "r AND 0x80 = 0 \<Longrightarrow> leading_ones r b = b"
  by (simp_all add: leading_ones.simps)

lemma leading_ones_mask: "n \<le> 8 \<Longrightarrow> leading_ones (0xFF AND NOT (mask (8 - n))) 0 = of_nat n"
proof -
  assume "n \<le> 8"
  then have "n \<in> {0, 1, 2, 3, 4, 5, 6, 7, 8}"
    by auto
  then show ?thesis
    by (elim insertE emptyE) (simp_all add: leading_ones_step mask_eq_exp_minus_1 push_bit_eq_mult)
qed

text \<open>The probe finds the number of priority bits the core implements, whatever it is, and puts
  back the priority it found: its last access writes the byte its first access read.\<close>

theorem nvic_priority_bits_exact:
  assumes "priority_register dev (NVIC_IPR IRQ_UART0) n"
  shows "\<exists>x y. nvic_priority_bits dev t = (of_nat n,
    t @ [Rd (NVIC_IPR IRQ_UART0) x, Wr8 (NVIC_IPR IRQ_UART0) 0xFF, Rd (NVIC_IPR IRQ_UART0) y,
         Wr8 (NVIC_IPR IRQ_UART0) (ucast x)])"
proof -
  let ?a = "NVIC_IPR IRQ_UART0"
  let ?t = "t @ [Rd ?a (dev t ?a), Wr8 ?a 0xFF]"
  have "last_written ?a ?t = Some 0xFF"
    by (simp add: last_written_append)
  then have r: "ucast (dev ?t ?a) = 0xFF AND NOT (mask (8 - n) :: u8)" "n \<le> 8"
    using assms by (simp_all only: priority_register_def)
  have "nvic_priority_bits dev t = (leading_ones (ucast (dev ?t ?a)) 0,
      t @ [Rd ?a (dev t ?a), Wr8 ?a 0xFF, Rd ?a (dev ?t ?a), Wr8 ?a (ucast (dev t ?a))])"
    by (simp add: nvic_priority_bits_def nvic_read_def nvic_write_def reg_read_def Let_def)
  then show ?thesis
    unfolding r(1) leading_ones_mask [OF r(2)] by blast
qed

text \<open>Three of eight bits, as on the part the example is written for.\<close>

definition three_bits :: device where
  "three_bits t a = (case last_written a t of None \<Rightarrow> 0 | Some v \<Rightarrow> ucast (v AND 0xE0))"

theorem nvic_priority_bits_exact_witness:
  "\<exists>t. nvic_priority_bits three_bits [] = (3, t)"
proof -
  have "NOT (mask (8 - 3)) = (0xE0 :: u8)"
    by (simp add: mask_eq_exp_minus_1)
  moreover have "(ucast (ucast w :: u32) :: u8) = w" for w :: u8
    by (rule bit_word_eqI) (auto simp: bit_simps)
  ultimately have "priority_register three_bits (NVIC_IPR IRQ_UART0) 3"
    by (simp add: priority_register_def three_bits_def)
  then show ?thesis
    using nvic_priority_bits_exact [of three_bits 3 "[]"] by auto
qed

text \<open>What the serial handler prints and records. The number it prints is the number of ticks that
  preempted its busy loop, and the first preempting tick is remembered.\<close>

lemma prio_ticks:
  "g_systick_count ((prio_tick ^^ k) s) = g_systick_count s + of_nat k"
  "g_in_low_prio ((prio_tick ^^ k) s) = g_in_low_prio s"
  "g_low_prio_entered ((prio_tick ^^ k) s) = g_low_prio_entered s"
  by (induction k) (simp_all add: prio_tick_def Let_def)

lemma prio_ticks_first:
  assumes "g_in_low_prio s" and "g_preempted_at s = 0" and "unat (g_systick_count s) + 1 < 2 ^ 32"
  shows "g_preempted_at ((prio_tick ^^ k) s) = (if k = 0 then 0 else g_systick_count s + 1)"
proof (induction k)
  case (Suc k)
  have "unat (g_systick_count s + 1) = unat (g_systick_count s) + 1"
    using assms(3) by (intro unat_Suc_lt) simp
  then have "g_systick_count s + 1 \<noteq> 0"
    by (metis Suc_eq_plus1 nat.distinct(1) unsigned_0)
  then show ?case
    using Suc.IH assms prio_ticks [of k s] by (auto simp: prio_tick_def Let_def)
qed (simp add: assms)

lemma low_prio_isr_counts:
  assumes "uart_ready dev" and "g_preempted_at s = 0" and "unat (g_systick_count s) + 1 < 2 ^ 32"
  shows "\<exists>s' t'. low_prio_isr dev k1 k2 k3 s t = Some (s', t') \<and> \<not> g_in_low_prio s' \<and>
    g_low_prio_entered s' = g_low_prio_entered s + 1 \<and> g_systick_count s' = g_systick_count s + of_nat (k1 + k2 + k3) \<and>
    g_preempted_at s' = (if k1 + k2 + k3 = 0 then 0 else g_systick_count s + 1) \<and>
    writes_to UART0_DR t' = writes_to UART0_DR t @ map ucast
      (wire ''  [UART0 ISR] ran while SysTick advanced '' @ map digit_char (decimal (unat (of_nat k2 :: u32))) @
       wire '' ticks -> it preempted me'' @ [13, 10])"
proof -
  let ?s1 = "s\<lparr>g_low_prio_entered := g_low_prio_entered s + 1, g_in_low_prio := True\<rparr>"
  let ?s4 = "(prio_tick ^^ k3) ((prio_tick ^^ k2) ((prio_tick ^^ k1) ?s1))"
  have "?s4 = (prio_tick ^^ (k3 + (k2 + k1))) ?s1"
    by (simp only: funpow_add o_apply)
  then have all: "?s4 = (prio_tick ^^ (k1 + k2 + k3)) ?s1"
    by (simp only: add.commute add.left_commute)
  have diff: "g_systick_count ((prio_tick ^^ k2) ((prio_tick ^^ k1) ?s1)) - g_systick_count ((prio_tick ^^ k1) ?s1) = of_nat k2"
    by (simp add: prio_ticks)
  define out where "out = wire ''  [UART0 ISR] ran while SysTick advanced '' @ map digit_char (decimal (unat (of_nat k2 :: u32))) @
       wire '' ticks -> it preempted me'' @ [13, 10]"
  let ?body = "\<lambda>t. uart_puts dev (cstr ''  [UART0 ISR] ran while SysTick advanced '') t \<bind> (\<lambda>t.
      uart_put_u32 dev (of_nat k2) t \<bind> uart_puts dev (cline '' ticks -> it preempted me''))"
  have "prints dev ?body out"
    unfolding out_def by (intro prints_bind prints_cstr prints_u32 prints_cline assms(1)) simp_all
  then obtain evs where e: "?body (reg_write UART0_ICR 0xFFFF t) = Some (reg_write UART0_ICR 0xFFFF t @ evs)"
    "writes_to UART0_DR evs = map ucast out"
    using prints_runs by blast
  have "low_prio_isr dev k1 k2 k3 s t = ?body (reg_write UART0_ICR 0xFFFF t) \<bind> (\<lambda>t. Some (?s4\<lparr>g_in_low_prio := False\<rparr>, t))"
    by (simp add: low_prio_isr_def Let_def diff)
  moreover have "UART0_ICR \<noteq> UART0_DR"
    by (simp add: uart_regs)
  moreover have "g_preempted_at ?s4 = (if k1 + k2 + k3 = 0 then 0 else g_systick_count s + 1)"
    unfolding all using prio_ticks_first [of ?s1 "k1 + k2 + k3"] assms(2,3) by simp
  moreover have "g_systick_count ?s4 = g_systick_count s + of_nat (k1 + k2 + k3)" "g_low_prio_entered ?s4 = g_low_prio_entered s + 1"
    unfolding all by (simp_all add: prio_ticks del: of_nat_add)
  ultimately show ?thesis
    using e unfolding out_def [symmetric]
    by (intro exI [of _ "?s4\<lparr>g_in_low_prio := False\<rparr>"] exI [of _ "reg_write UART0_ICR 0xFFFF t @ evs"])
      (simp add: traffic)
qed

end
