(* ===== verification/Interrupts.thy ===== *)
theory Interrupts
  imports Mmio
begin

text \<open>
  Programs under interrupts. A schedule \<open>ints\<close> gives the interrupts that come before each access of
  \<open>main\<close> to what it shares with the handlers; the state of \<open>main\<close> is the shared variables, the history
  of register accesses and the number of its next access. \<open>sleep\<close> is the \<open>wait_for_interrupt\<close> of
  \<open>src/code/qemu-cortex-m/common/lm3s6965.h\<close>: it ends with the next interrupt after it has begun, so
  one that comes before it, and after the check that led to it, does not wake it.
\<close>

section \<open>Serving interrupts\<close>

fun serve :: "('i \<Rightarrow> 's \<Rightarrow> 's option) \<Rightarrow> 'i list \<Rightarrow> 's \<Rightarrow> 's option" where
  "serve handler [] s = Some s"
| "serve handler (i # is) s = handler i s \<bind> serve handler is"

type_synonym 's main = "'s \<times> io_trace \<times> nat"

fun preempted :: "('i \<Rightarrow> 's \<times> io_trace \<Rightarrow> ('s \<times> io_trace) option) \<Rightarrow> (nat \<Rightarrow> 'i list) \<Rightarrow> 's main \<Rightarrow> 's main option" where
  "preempted handler ints (s, t, k) = map_option (\<lambda>(s, t). (s, t, k + 1)) (serve handler (ints k) (s, t))"

partial_function (option) wait_for_interrupt :: "(nat \<Rightarrow> 'i list) \<Rightarrow> nat \<Rightarrow> nat option" where
  "wait_for_interrupt ints k = (if ints k \<noteq> [] then Some k else wait_for_interrupt ints (k + 1))"

definition sleep :: "('i \<Rightarrow> 's \<times> io_trace \<Rightarrow> ('s \<times> io_trace) option) \<Rightarrow> (nat \<Rightarrow> 'i list) \<Rightarrow> 's main \<Rightarrow> 's main option" where
  "sleep handler ints c = do {
     (s, t, k) \<leftarrow> preempted handler ints c;
     k \<leftarrow> wait_for_interrupt ints k;
     Some (s, t, k)
   }"

text \<open>A sleep ends exactly at the next interrupt, if there is one.\<close>

lemma wait_ends_at_next:
  assumes "ints m \<noteq> []" and "k \<le> m"
  obtains j where "wait_for_interrupt ints k = Some j" "k \<le> j" "j \<le> m" "ints j \<noteq> []" "\<forall>i. k \<le> i \<longrightarrow> i < j \<longrightarrow> ints i = []"
proof -
  have "\<exists>j. wait_for_interrupt ints k = Some j \<and> k \<le> j \<and> j \<le> m \<and> ints j \<noteq> [] \<and> (\<forall>i. k \<le> i \<longrightarrow> i < j \<longrightarrow> ints i = [])"
    using assms(2)
  proof (induction "m - k" arbitrary: k)
    case 0
    then show ?case
      using assms(1) by (subst wait_for_interrupt.simps) auto
  next
    case (Suc n)
    show ?case
    proof (cases "ints k = []")
      case True
      have le: "n = m - (k + 1)" "k + 1 \<le> m"
        using Suc.hyps(2) by simp_all
      obtain j where j: "wait_for_interrupt ints (k + 1) = Some j" "k + 1 \<le> j" "j \<le> m" "ints j \<noteq> []"
          "\<forall>i. k + 1 \<le> i \<longrightarrow> i < j \<longrightarrow> ints i = []"
        using Suc.hyps(1) [OF le] by blast
      have "ints i = []" if "k \<le> i" "i < j" for i
        using that j(5) True by (cases "i = k") auto
      then show ?thesis
        using True j by (subst wait_for_interrupt.simps) auto
    next
      case False
      then show ?thesis
        using Suc.prems by (subst wait_for_interrupt.simps) auto
    qed
  qed
  then show ?thesis
    using that by blast
qed

lemma wait_forever: "(\<And>j. k \<le> j \<Longrightarrow> ints j = []) \<Longrightarrow> wait_for_interrupt ints k = None"
proof (rule ccontr)
  assume quiet: "\<And>j. k \<le> j \<Longrightarrow> ints j = []" and "wait_for_interrupt ints k \<noteq> None"
  then obtain r where "wait_for_interrupt ints k = Some r"
    by blast
  then have "\<exists>j \<ge> k. ints j \<noteq> []"
  proof (rule wait_for_interrupt.raw_induct [where P = "\<lambda>ints k _. \<exists>j \<ge> k. ints j \<noteq> []", rotated])
    fix wait :: "(nat \<Rightarrow> 'b list) \<Rightarrow> nat \<Rightarrow> nat option" and ints k r
    assume IH: "\<And>ints k r. wait ints k = Some r \<Longrightarrow> \<exists>j \<ge> k. ints j \<noteq> []"
      and r: "(if ints k \<noteq> [] then Some k else wait ints (k + 1)) = Some r"
    show "\<exists>j \<ge> k. ints j \<noteq> []"
    proof (cases "ints k = []")
      case True
      then obtain j where "k + 1 \<le> j" "ints j \<noteq> []"
        using r IH [of ints "k + 1" r] by auto
      then show ?thesis
        by (intro exI [of _ j]) simp
    qed auto
  qed
  then show False
    using quiet by auto
qed

section \<open>Handlers that keep what \<open>main\<close> relies on\<close>

text \<open>\<open>handler_law\<close>: every interrupt of a kind that may occur is served, and takes the shared variables from
  one state to another that \<open>keeps\<close> relates to it.\<close>

locale handler_law =
  fixes handler :: "'i \<Rightarrow> 's \<times> io_trace \<Rightarrow> ('s \<times> io_trace) option"
    and allowed :: "'i \<Rightarrow> bool"
    and inv :: "'s \<Rightarrow> bool"
    and keeps :: "'s \<Rightarrow> 's \<Rightarrow> bool"
  assumes served: "allowed i \<Longrightarrow> inv s \<Longrightarrow> \<exists>s' t'. handler i (s, t) = Some (s', t') \<and> inv s' \<and> keeps s s'"
    and keeps_refl: "keeps s s"
    and keeps_trans: "keeps s s' \<Longrightarrow> keeps s' s'' \<Longrightarrow> keeps s s''"
begin

lemma serves_all:
  assumes "list_all allowed is" and "inv s"
  shows "\<exists>s' t'. serve handler is (s, t) = Some (s', t') \<and> inv s' \<and> keeps s s'"
  using assms
proof (induction "is" arbitrary: s t)
  case Nil
  then show ?case
    by (simp add: keeps_refl)
next
  case (Cons i "is")
  obtain s1 t1 where s1: "handler i (s, t) = Some (s1, t1)" "inv s1" "keeps s s1"
    using served Cons.prems by fastforce
  obtain s2 t2 where "serve handler is (s1, t1) = Some (s2, t2)" "inv s2" "keeps s1 s2"
    using Cons.IH [OF _ s1(2)] Cons.prems(1) by fastforce
  then show ?case
    using s1 keeps_trans by auto
qed

lemma preempted_returns:
  assumes "list_all allowed (ints k)" and "inv s"
  obtains s' t' where "preempted handler ints (s, t, k) = Some (s', t', k + 1)" "inv s'" "keeps s s'"
  using serves_all [OF assms, of t] by auto

text \<open>What follows an access may assume the handlers' law of the state it finds.\<close>

lemma preempted_then:
  assumes "list_all allowed (ints k)" and "inv s"
    and "\<And>s' t'. inv s' \<Longrightarrow> keeps s s' \<Longrightarrow> \<exists>r. g (s', t', k + 1) = Some r \<and> P r"
  shows "\<exists>r. preempted handler ints (s, t, k) \<bind> g = Some r \<and> P r"
proof -
  obtain s' t' where "preempted handler ints (s, t, k) = Some (s', t', k + 1)" "inv s'" "keeps s s'"
    using preempted_returns [where ints = ints and k = k, OF assms(1,2)] .
  then show ?thesis
    using assms(3) by simp
qed

lemma sleep_returns:
  assumes "list_all allowed (ints k)" and "inv s" and "ints m \<noteq> []" and "k < m"
  obtains s' t' j where "sleep handler ints (s, t, k) = Some (s', t', j)" "inv s'" "keeps s s'" "k < j" "j \<le> m"
    "ints j \<noteq> []" "\<forall>i. k < i \<longrightarrow> i < j \<longrightarrow> ints i = []"
proof -
  obtain s' t' where p: "preempted handler ints (s, t, k) = Some (s', t', k + 1)" "inv s'" "keeps s s'"
    using preempted_returns [where ints = ints and k = k, OF assms(1,2)] .
  have "k + 1 \<le> m"
    using assms(4) by simp
  with assms(3) obtain j where j: "wait_for_interrupt ints (k + 1) = Some j" "k + 1 \<le> j" "j \<le> m" "ints j \<noteq> []"
      "\<forall>i. k + 1 \<le> i \<longrightarrow> i < j \<longrightarrow> ints i = []"
    by (rule wait_ends_at_next)
  show thesis
    by (rule that [of s' t' j]) (use p j in \<open>auto simp: sleep_def\<close>)
qed

end

section \<open>Schedules that do not stop\<close>

text \<open>Induction along a schedule that does not stop: a step may assume the claim for states of a smaller
  measure, and for states of the same measure if no interrupt came in between.\<close>

lemma fair_induct:
  fixes ints :: "nat \<Rightarrow> 'i list" and \<mu> :: "'x \<Rightarrow> nat"
  assumes "\<forall>m. \<exists>k \<ge> m. ints k \<noteq> []"
    and step: "\<And>x k. (\<And>y j. \<mu> y < \<mu> x \<or> \<mu> y = \<mu> x \<and> k < j \<and> (\<forall>i. k \<le> i \<longrightarrow> i < j \<longrightarrow> ints i = []) \<Longrightarrow> P y j) \<Longrightarrow> P x k"
  shows "P v k"
proof (induction "\<mu> v" arbitrary: v k rule: less_induct)
  case (less v k)
  obtain m where m: "k \<le> m" "ints m \<noteq> []"
    using assms(1) by blast
  have "\<mu> y = \<mu> v \<Longrightarrow> k \<le> m \<Longrightarrow> P y k" for y
  proof (induction "m - k" arbitrary: y k rule: less_induct)
    case inner: less
    show ?case
    proof (rule step)
      fix z j
      assume z: "\<mu> z < \<mu> y \<or> \<mu> z = \<mu> y \<and> k < j \<and> (\<forall>i. k \<le> i \<longrightarrow> i < j \<longrightarrow> ints i = [])"
      then show "P z j"
      proof
        assume "\<mu> z < \<mu> y"
        then show ?thesis
          using less inner.prems(1) by simp
      next
        assume A: "\<mu> z = \<mu> y \<and> k < j \<and> (\<forall>i. k \<le> i \<longrightarrow> i < j \<longrightarrow> ints i = [])"
        then have "j \<le> m"
          using m(2) inner.prems(2) by (metis not_le)
        moreover from this A have "m - j < m - k"
          by linarith
        ultimately show ?thesis
          using A inner.hyps [of j z] inner.prems by simp
      qed
    qed
  qed
  then show ?case
    using m(1) by simp
qed

end
