(* ===== verification/Nvic_Main.thy ===== *)
theory Nvic_Main
  imports Nvic Interrupts
begin

unbundle bit_operations_syntax

text \<open>
  The program of \<open>src/code/qemu-cortex-m/03-nvic-priority-and-preemption/main.c\<close> under a schedule
  (theory \<open>Interrupts\<close>). A serial interrupt comes with the ticks that preempt it, and what its
  handler prints comes between the lines of \<open>main\<close>.
\<close>

section \<open>The program\<close>

datatype prio_irq = Tick_prio | Serial_prio nat nat nat

type_synonym prio_main = "prio_state main"

fun prio_handler :: "device \<Rightarrow> prio_irq \<Rightarrow> prio_state \<times> io_trace \<Rightarrow> (prio_state \<times> io_trace) option" where
  "prio_handler dev Tick_prio (s, t) = Some (prio_tick s, t)"
| "prio_handler dev (Serial_prio k1 k2 k3) (s, t) = low_prio_isr dev k1 k2 k3 s t"

abbreviation prio_preempt :: "device \<Rightarrow> (nat \<Rightarrow> prio_irq list) \<Rightarrow> prio_main \<Rightarrow> prio_main option" where
  "prio_preempt dev \<equiv> preempted (prio_handler dev)"

partial_function (option) prio_wait :: "device \<Rightarrow> (nat \<Rightarrow> prio_irq list) \<Rightarrow> prio_main \<Rightarrow> prio_main option" where
  "prio_wait dev ints c = do {
     c \<leftarrow> prio_preempt dev ints c;
     if g_low_prio_entered (fst c) = 0 then sleep (prio_handler dev) ints c \<bind> prio_wait dev ints else Some c
   }"

partial_function (option) prio_leave :: "device \<Rightarrow> (nat \<Rightarrow> prio_irq list) \<Rightarrow> prio_main \<Rightarrow> prio_main option" where
  "prio_leave dev ints c = do {
     c \<leftarrow> prio_preempt dev ints c;
     if g_in_low_prio (fst c) then prio_leave dev ints c else Some c
   }"

definition print_levels :: "device \<Rightarrow> io_trace \<Rightarrow> io_trace option" where
  "print_levels dev t = do {
     let (bits, t) = nvic_priority_bits dev t;
     t \<leftarrow> uart_puts dev (cstr ''Implemented priority bits on this core: '') t;
     t \<leftarrow> uart_put_u32 dev bits t;
     t \<leftarrow> uart_puts dev (cstr ''  -> '') t;
     t \<leftarrow> uart_put_u32 dev (push_bit (unat bits) 1) t;
     t \<leftarrow> uart_puts dev (cline '' distinct levels'') t;
     t \<leftarrow> (if bits < 8
       then do {
         t \<leftarrow> uart_puts dev (cstr ''So priority values 0x00 and '') t;
         t \<leftarrow> uart_put_hex32 dev (push_bit (unat (8 - bits)) 1 - 1) t;
         uart_puts dev (cline '' collapse to the SAME level.'') t
       }
       else Some t);
     uart_puts dev (cline (''NOTE: real LM3S6965 silicon implements 3 bits (8 levels).'' @ [CHR 0x0A] @
       ''QEMU 8.x reports 8 bits here. Treat the count as a runtime'' @ [CHR 0x0A] @
       ''probe you should re-run on the actual part, not as a fact'' @ [CHR 0x0A] @
       ''you can carry between an emulator and hardware.'' @ [CHR 0x0A])) t
   }"

definition NVIC_ISPR0 :: u32 where "NVIC_ISPR0 = 0xE000E200"

definition prio_config :: "device \<Rightarrow> io_trace \<Rightarrow> io_trace option" where
  "prio_config dev t = do {
     let (v, t) = reg_read dev SCB_SHPR3 t;
     let t = reg_write SCB_SHPR3 ((v AND 0x00FFFFFF) OR push_bit 24 0) t;
     let t = nvic_write (NVIC_IPR IRQ_UART0) 0xE0 t;
     let t = reg_write SYSTICK_LOAD (SYSTEM_CLOCK_HZ div 1000 - 1) t;
     let t = reg_write SYSTICK_VAL 0 t;
     let t = reg_write SYSTICK_CTRL (SYSTICK_CTRL_CLKSOURCE OR SYSTICK_CTRL_TICKINT OR SYSTICK_CTRL_ENABLE) t;
     let t = reg_write UART0_IM (UART_IM_RXIM OR UART_IM_RTIM) t;
     let t = reg_write NVIC_ISER0 (push_bit IRQ_UART0 1) t;
     t \<leftarrow> uart_puts dev (cline ''SysTick priority 0 (high), UART0 priority 0xE0 (low).'') t;
     t \<leftarrow> uart_puts dev (cline ''Type a character to fire the low-priority UART ISR;'') t;
     t \<leftarrow> uart_puts dev (cline (''SysTick will preempt it mid-flight.'' @ [CHR 0x0A])) t;
     Some (reg_write NVIC_ISPR0 (push_bit IRQ_UART0 1) t)
   }"

fun prio_result :: "device \<Rightarrow> (nat \<Rightarrow> prio_irq list) \<Rightarrow> prio_main \<Rightarrow> (int \<times> prio_state \<times> io_trace) option" where
  "prio_result dev ints (s, t, k) = do {
     t \<leftarrow> uart_puts dev (cstr (CHR 0x0A # ''Result: the low-priority handler was entered '')) t;
     (s, t, k) \<leftarrow> prio_preempt dev ints (s, t, k);
     t \<leftarrow> uart_put_u32 dev (g_low_prio_entered s) t;
     t \<leftarrow> uart_puts dev (cline '' time(s)'') t;
     (s, t, k) \<leftarrow> prio_preempt dev ints (s, t, k);
     (s, t, k) \<leftarrow> (if g_preempted_at s \<noteq> 0
       then do {
         t \<leftarrow> uart_puts dev (cstr ''and SysTick preempted it at tick '') t;
         (s, t, k) \<leftarrow> prio_preempt dev ints (s, t, k);
         t \<leftarrow> uart_put_u32 dev (g_preempted_at s) t;
         t \<leftarrow> uart_puts dev (cline '' - nested exceptions confirmed.'') t;
         Some (s, t, k)
       }
       else Some (s, t, k));
     t \<leftarrow> uart_puts dev (cline (CHR 0x0A # ''Things to take away:'')) t;
     t \<leftarrow> uart_puts dev (cline ''  * clear the peripheral flag at the TOP of the ISR'') t;
     t \<leftarrow> uart_puts dev (cline ''  * core exceptions use SHPR, external IRQs use NVIC_IPR'') t;
     t \<leftarrow> uart_puts dev (cline ''  * always measure the implemented priority bits'') t;
     Some (0, s, t)
   }"

definition example03 :: "device \<Rightarrow> (nat \<Rightarrow> prio_irq list) \<Rightarrow> io_trace \<Rightarrow> (int \<times> prio_state \<times> io_trace) option" where
  "example03 dev ints t = do {
     t \<leftarrow> uart_init dev 115200 t;
     t \<leftarrow> uart_puts dev (cline (CHR 0x0A # ''=== NVIC priority and preemption ==='' @ [CHR 0x0A])) t;
     t \<leftarrow> print_levels dev t;
     t \<leftarrow> prio_config dev t;
     c \<leftarrow> prio_wait dev ints
       (\<lparr>g_systick_count = 0, g_low_prio_entered = 0, g_preempted_at = 0, g_in_low_prio = False\<rparr>, t, 0);
     c \<leftarrow> prio_leave dev ints c;
     prio_result dev ints c
   }"

section \<open>It ends\<close>

fun serials :: "prio_irq list \<Rightarrow> nat" where
  "serials [] = 0"
| "serials (Tick_prio # is) = serials is"
| "serials (Serial_prio k1 k2 k3 # is) = Suc (serials is)"

text \<open>The interrupt that \<open>main\<close> pends is served before some access, not \<open>2 ^ 31\<close> times before one, and the
  timer does not stop.\<close>

definition served :: "(nat \<Rightarrow> prio_irq list) \<Rightarrow> bool" where
  "served ints \<longleftrightarrow> (\<exists>k. serials (ints k) \<noteq> 0) \<and> (\<forall>k. serials (ints k) < 2 ^ 31) \<and> (\<forall>m. \<exists>k \<ge> m. ints k \<noteq> [])"

lemma low_prio_isr_returns:
  assumes "uart_ready dev"
  shows "\<exists>r. low_prio_isr dev k1 k2 k3 s t = Some r \<and> \<not> g_in_low_prio (fst r) \<and>
    g_low_prio_entered (fst r) = g_low_prio_entered s + 1"
proof -
  note steps = print_steps [OF assms]
  show ?thesis
    unfolding low_prio_isr_def Let_def by (rule steps | simp add: prio_ticks; fail)+
qed

lemma prio_irqs_returns:
  assumes "uart_ready dev"
  shows "\<not> g_in_low_prio s \<Longrightarrow> \<exists>s' t'. serve (prio_handler dev) is (s, t) = Some (s', t') \<and> \<not> g_in_low_prio s' \<and>
    g_low_prio_entered s' = g_low_prio_entered s + of_nat (serials is)"
proof (induction "is" arbitrary: s t rule: serials.induct)
  case (2 "is")
  have "\<not> g_in_low_prio (prio_tick s)" "g_low_prio_entered (prio_tick s) = g_low_prio_entered s"
    using "2.prems" prio_ticks [of 1 s] by simp_all
  then show ?case
    using "2.IH" [of "prio_tick s" t] by simp
next
  case (3 k1 k2 k3 "is")
  obtain s1 t1 where s1: "low_prio_isr dev k1 k2 k3 s t = Some (s1, t1)" "\<not> g_in_low_prio s1"
    "g_low_prio_entered s1 = g_low_prio_entered s + 1"
    using low_prio_isr_returns [OF assms, of k1 k2 k3 s t] by auto
  then show ?case
    using "3.IH" [OF s1(2), of t1] by (auto simp: algebra_simps)
qed simp

interpretation prio: handler_law "prio_handler dev" "\<lambda>i. uart_ready dev" "\<lambda>s. \<not> g_in_low_prio s" "\<lambda>_ _. True" for dev
proof
  fix i t and s :: prio_state
  assume "uart_ready dev" "\<not> g_in_low_prio s"
  then show "\<exists>s' t'. prio_handler dev i (s, t) = Some (s', t') \<and> \<not> g_in_low_prio s' \<and> True"
    using prio_irqs_returns [of dev s "[i]" t] by (auto split: bind_splits)
qed simp_all

lemma ready_allowed: "uart_ready dev \<Longrightarrow> list_all (\<lambda>i. uart_ready dev) is"
  by (simp add: list_all_iff)

lemmas prio_preempt_then = prio.preempted_then [where ints = ints and k = k and dev = dev, OF ready_allowed [of dev "ints k"]]
  for dev ints k

lemma serials_word: "n < 2 ^ 32 \<Longrightarrow> (of_nat n :: u32) = 0 \<longleftrightarrow> n = 0"
  by (auto simp: word_of_nat_eq_0_iff dest: nat_dvd_not_less)

lemma prio_wait_ends:
  assumes "uart_ready dev" and few: "\<And>k. serials (ints k) < 2 ^ 31" and m: "serials (ints m) \<noteq> 0"
    and more: "\<And>m. \<exists>k \<ge> m. ints k \<noteq> []"
  shows "k \<le> m \<Longrightarrow> \<not> g_in_low_prio s \<Longrightarrow> g_low_prio_entered s = 0 \<Longrightarrow>
    \<exists>s' t' k'. prio_wait dev ints (s, t, k) = Some (s', t', k') \<and> \<not> g_in_low_prio s' \<and> g_low_prio_entered s' \<noteq> 0"
proof (induction "m - k" arbitrary: k s t rule: less_induct)
  case (less k s t)
  have ne: "ints m \<noteq> []"
    using m by auto
  obtain s1 t1 where s1: "prio_preempt dev ints (s, t, k) = Some (s1, t1, k + 1)" "\<not> g_in_low_prio s1"
      "g_low_prio_entered s1 = of_nat (serials (ints k))"
    using prio_irqs_returns [OF assms(1) less.prems(2), of "ints k" t] less.prems(3) by auto
  obtain s2 t2 where s2: "prio_preempt dev ints (s1, t1, k + 1) = Some (s2, t2, k + 2)" "\<not> g_in_low_prio s2"
      "g_low_prio_entered s2 = g_low_prio_entered s1 + of_nat (serials (ints (k + 1)))"
    using prio_irqs_returns [OF assms(1) s1(2), of "ints (k + 1)" t1] by auto
  have small: "serials (ints i) + serials (ints j) < 2 ^ 32" for i j
    using few [of i] few [of j] by simp
  show ?case
  proof (cases "g_low_prio_entered s1 = 0")
    case False
    then show ?thesis
      using s1 by (subst prio_wait.simps) (simp del: preempted.simps)
  next
    case asleep: True
    then have "serials (ints k) = 0"
      using s1(3) serials_word small [of k k] by simp
    then have k1: "k \<noteq> m" "k + 1 \<le> m"
      using m less.prems(1) by (cases "k = m"; simp)+
    have step: "prio_wait dev ints (s, t, k) = prio_wait dev ints (s2, t2, j)" if "wait_for_interrupt ints (k + 2) = Some j" for j
      using that asleep s1(1) s2(1) by (subst prio_wait.simps) (simp add: sleep_def del: preempted.simps)
    show ?thesis
    proof (cases "serials (ints (k + 1)) = 0")
      case True
      then have "k + 2 \<le> m"
        using k1(2) m by (cases "k + 1 = m") auto
      with ne obtain j where j: "wait_for_interrupt ints (k + 2) = Some j" "k + 2 \<le> j" "j \<le> m"
        by (rule wait_ends_at_next)
      then show ?thesis
        using less.hyps [of j s2 t2] s2(2,3) asleep True unfolding step [OF j(1)] by simp
    next
      case False
      obtain n where "ints n \<noteq> []" "k + 2 \<le> n"
        using more by blast
      then obtain j where j: "wait_for_interrupt ints (k + 2) = Some j"
        by (rule wait_ends_at_next)
      obtain s3 t3 where s3: "prio_preempt dev ints (s2, t2, j) = Some (s3, t3, j + 1)" "\<not> g_in_low_prio s3"
          "g_low_prio_entered s3 = of_nat (serials (ints (k + 1)) + serials (ints j))"
        using prio_irqs_returns [OF assms(1) s2(2), of "ints j" t2] s2(3) asleep by auto
      then have "g_low_prio_entered s3 \<noteq> 0"
        using serials_word [OF small] False by simp
      then show ?thesis
        using s3 unfolding step [OF j] by (subst prio_wait.simps) (simp del: preempted.simps)
    qed
  qed
qed

text \<open>Without the timer the loop can miss its wake-up: an interrupt that comes after the check and before
  the sleep is served, and the sleep then waits for another one that never comes.\<close>

lemma prio_wait_misses:
  assumes "uart_ready dev" and "\<not> g_in_low_prio s" and "g_low_prio_entered s = 0"
    and "ints k = []" and "\<And>j. k + 2 \<le> j \<Longrightarrow> ints j = []"
  shows "prio_wait dev ints (s, t, k) = None"
proof -
  obtain s2 t2 where "prio_preempt dev ints (s, t, k + 1) = Some (s2, t2, k + 2)"
    using prio_irqs_returns [OF assms(1,2), of "ints (k + 1)" t] by auto
  moreover have "wait_for_interrupt ints (k + 2) = None"
    using assms(5) by (rule wait_forever)
  ultimately show ?thesis
    using assms(3,4) by (subst prio_wait.simps) (simp add: sleep_def)
qed

lemma prio_leave_ends:
  assumes "uart_ready dev" and "\<not> g_in_low_prio s"
  shows "\<exists>s' t'. prio_leave dev ints (s, t, k) = Some (s', t', k + 1) \<and> \<not> g_in_low_prio s'"
  using prio_irqs_returns [OF assms, of "ints k" t] by (subst prio_leave.simps) auto

lemma prio_result_returns:
  assumes "uart_ready dev" and "\<not> g_in_low_prio s"
  shows "\<exists>r. prio_result dev ints (s, t, k) = Some r \<and> fst r = 0"
proof -
  note steps = print_steps [OF assms(1)]
  note preempted = prio_preempt_then [OF assms(1)]
  show ?thesis
    unfolding prio_result.simps
    by (rule steps preempted, (assumption | rule assms(2))? | simp only: prod.case | rule if_returns
      | simp only: bind_assoc bind.bind_lunit | simp; fail)+
qed

lemma print_levels_then:
  assumes "uart_ready dev" and "\<And>t. \<exists>r. g t = Some r \<and> P r"
  shows "\<exists>r. print_levels dev t \<bind> g = Some r \<and> P r"
proof -
  obtain bits t1 where b: "nvic_priority_bits dev t = (bits, t1)"
    by fastforce
  note steps = print_steps [OF assms(1)]
  show ?thesis
    unfolding print_levels_def b prod.case
    by (rule steps assms(2) | simp only: Let_def prod.case | rule if_returns | simp only: bind_assoc bind.bind_lunit | simp; fail)+
qed

lemma prio_config_then:
  assumes "uart_ready dev" and "\<And>t. \<exists>r. g t = Some r \<and> P r"
  shows "\<exists>r. prio_config dev t \<bind> g = Some r \<and> P r"
proof -
  note steps = prints_then [OF prints_cline [OF assms(1)]]
  show ?thesis
    unfolding prio_config_def
    by (rule steps assms(2) | simp only: reg_read_def Let_def prod.case bind_assoc bind.bind_lunit | simp; fail)+
qed

text \<open>The whole example: when the serial interrupt it pends is served, both waiting loops end and the
  program exits with status 0.\<close>

theorem example03_exits:
  assumes "uart_ready dev" and "served ints"
  shows "\<exists>s t'. example03 dev ints t = Some (0, s, t')"
proof -
  obtain t1 where init: "uart_init dev 115200 t = Some t1"
    by (rule uart_init_115200)
  obtain m where m: "serials (ints m) \<noteq> 0" and few: "\<And>k. serials (ints k) < 2 ^ 31" and more: "\<And>m. \<exists>k \<ge> m. ints k \<noteq> []"
    using assms(2) by (auto simp: served_def)
  let ?s0 = "\<lparr>g_systick_count = 0, g_low_prio_entered = 0, g_preempted_at = 0, g_in_low_prio = False\<rparr>"
  have run: "\<exists>r. (prio_wait dev ints (?s0, t, 0) \<bind> (\<lambda>c. prio_leave dev ints c \<bind> prio_result dev ints)) = Some r \<and> fst r = 0" for t
  proof -
    obtain s1 t1 k1 where "prio_wait dev ints (?s0, t, 0) = Some (s1, t1, k1)" "\<not> g_in_low_prio s1"
      using prio_wait_ends [where ints = ints and m = m and k = 0 and s = ?s0 and t = t, OF assms(1) few m more] by auto
    moreover obtain s2 t2 where "prio_leave dev ints (s1, t1, k1) = Some (s2, t2, k1 + 1)" "\<not> g_in_low_prio s2"
      using prio_leave_ends [OF assms(1) calculation(2), of ints t1 k1] by blast
    ultimately show ?thesis
      using prio_result_returns [OF assms(1), of s2 ints t2 "k1 + 1"] by simp
  qed
  note steps = prints_then [OF prints_cline [OF assms(1)]] print_levels_then [OF assms(1)] prio_config_then [OF assms(1)]
  have "\<exists>r. example03 dev ints t = Some r \<and> fst r = 0"
    unfolding example03_def init bind.bind_lunit by (rule steps run | simp; fail)+
  then show ?thesis
    by auto
qed

end
