(* ===== verification/Spsc_Demo.thy ===== *)
theory Spsc_Demo
  imports Uart Ringbuf
begin

unbundle bit_operations_syntax

text \<open>
  The ring driven by an interrupt, \<open>src/code/qemu-cortex-m/04-spsc-ring-buffer/main.c\<close>: the
  SysTick interrupt produces a repeating alphabet, the loop of \<open>main\<close> consumes and checks it, and
  the serial interrupt puts typed characters in the same ring. Interrupts may come between the
  two steps of the loop; that they may also come inside \<open>rb_put\<close> and \<open>rb_get\<close> is the matter of
  theory \<open>Ringbuf\<close>. The whole program, with what it prints, is in theory \<open>Spsc_Main\<close>.
\<close>

section \<open>The example\<close>

record spsc_demo =
  g_rx :: ringbuf
  g_produced :: u32
  g_dropped :: u32
  g_ticks :: u32
  m_consumed :: u32
  m_errors :: u32
  m_expected :: u8
  m_high_water :: u32

definition demo_tick :: "spsc_demo \<Rightarrow> spsc_demo option" where
  "demo_tick s =
     (let s = s\<lparr>g_ticks := g_ticks s + 1\<rparr>;
          byte = ucast (65 + g_produced s mod 26)
      in do {
        (rx, ok) \<leftarrow> rb_put (g_rx s) byte;
        Some (if ok then s\<lparr>g_rx := rx, g_produced := g_produced s + 1\<rparr>
              else s\<lparr>g_rx := rx, g_dropped := g_dropped s + 1\<rparr>)
      })"

text \<open>One character of the serial interrupt's loop, and the loop.\<close>

definition demo_typed :: "u8 \<Rightarrow> spsc_demo \<Rightarrow> spsc_demo option" where
  "demo_typed b s = do {
     (rx, ok) \<leftarrow> rb_put (g_rx s) b;
     Some (if \<not> ok then s\<lparr>g_rx := rx, g_dropped := g_dropped s + 1\<rparr> else s\<lparr>g_rx := rx\<rparr>)
   }"

partial_function (option) demo_drain :: "device \<Rightarrow> spsc_demo \<times> io_trace \<Rightarrow> (spsc_demo \<times> io_trace) option" where
  "demo_drain dev st =
     (case st of (s, t) \<Rightarrow>
      case reg_read dev UART0_FR t of (v, t) \<Rightarrow>
      if v AND UART_FR_RXFE = 0
      then case reg_read dev UART0_DR t of (v, t) \<Rightarrow>
        do { s \<leftarrow> demo_typed (ucast (v AND 0xFF)) s; demo_drain dev (s, t) }
      else Some (s, t))"

definition demo_uart_isr :: "device \<Rightarrow> spsc_demo \<times> io_trace \<Rightarrow> (spsc_demo \<times> io_trace) option" where
  "demo_uart_isr dev st = demo_drain dev (fst st, reg_write UART0_ICR 0xFFFF (snd st))"

text \<open>The loop of \<open>main\<close>: \<open>At_count\<close> is its head, \<open>At_get\<close> comes after \<open>rb_count\<close>, with the depth it
  read. A failed \<open>rb_get\<close> sleeps until the next interrupt.\<close>

datatype main_pc = At_count | At_get u32

definition demo_count :: "spsc_demo \<Rightarrow> u32 \<times> spsc_demo" where
  "demo_count s =
     (let depth = rb_count (g_rx s)
      in (depth, if depth > m_high_water s then s\<lparr>m_high_water := depth\<rparr> else s))"

definition demo_take :: "spsc_demo \<Rightarrow> (spsc_demo \<times> bool) option" where
  "demo_take s = do {
     (rx, b, ok) \<leftarrow> rb_get (g_rx s) 0;
     Some (if ok
       then (s\<lparr>g_rx := rx,
               m_errors := (if b \<noteq> m_expected s then m_errors s + 1 else m_errors s),
               m_expected := ucast (65 + (m_consumed s + 1) mod 26),
               m_consumed := m_consumed s + 1\<rparr>, True)
       else (s, False))
   }"

definition demo_get :: "spsc_demo \<Rightarrow> spsc_demo option" where
  "demo_get s = map_option fst (demo_take s)"

definition demo_start :: "ringbuf \<Rightarrow> spsc_demo" where
  "demo_start rx = \<lparr>g_rx = rb_init rx, g_produced = 0, g_dropped = 0, g_ticks = 0,
     m_consumed = 0, m_errors = 0, m_expected = 65, m_high_water = 0\<rparr>"

text \<open>Every order of interrupts and steps of the loop, with the characters \<open>keys\<close> that may be typed.\<close>

inductive demo_step :: "u8 set \<Rightarrow> main_pc \<times> spsc_demo \<Rightarrow> main_pc \<times> spsc_demo \<Rightarrow> bool" for keys where
  tick: "demo_tick s = Some s' \<Longrightarrow> demo_step keys (pc, s) (pc, s')"
| typed: "b \<in> keys \<Longrightarrow> demo_typed b s = Some s' \<Longrightarrow> demo_step keys (pc, s) (pc, s')"
| count: "m_consumed s < 260 \<Longrightarrow> demo_count s = (depth, s') \<Longrightarrow> demo_step keys (At_count, s) (At_get depth, s')"
| get: "demo_get s = Some s' \<Longrightarrow> demo_step keys (At_get depth, s) (At_count, s')"

inductive demo_reach :: "u8 set \<Rightarrow> ringbuf \<Rightarrow> main_pc \<times> spsc_demo \<Rightarrow> bool" for keys rx where
  start: "demo_reach keys rx (At_count, demo_start rx)"
| step: "demo_reach keys rx c \<Longrightarrow> demo_step keys c c' \<Longrightarrow> demo_reach keys rx c'"

section \<open>The invariant\<close>

definition pattern :: "nat \<Rightarrow> u8" where
  "pattern n = 65 + of_nat (n mod 26)"

lemma pattern_word: "ucast (65 + v mod 26) = pattern (unat v)" for v :: u32
proof -
  have m: "unat (v mod 26) = unat v mod 26" "unat v mod 26 < 26"
    by (simp_all add: unat_mod)
  have "unat (65 + v mod 26) = 65 + unat v mod 26"
    using m by (subst unat_add_lt) simp_all
  moreover have "unat (pattern (unat v)) = 65 + unat v mod 26"
    using m(2) unfolding pattern_def by (subst unat_add_lt) (simp_all add: unat_of_nat)
  ultimately show ?thesis
    using m(2) by (simp add: word_unat_eq_iff [where ?'a = 8] unsigned_ucast_eq unsigned_take_bit_eq take_bit_nat_eq_self
        del: word_unat_eq_iff)
qed

text \<open>What is stored is the alphabet from the next byte to consume to the next to produce, and the
  consumer expects exactly the first of it.\<close>

definition demo_inv :: "main_pc \<times> spsc_demo \<Rightarrow> bool" where
  "demo_inv c \<longleftrightarrow> (case c of (pc, s) \<Rightarrow>
     rb_inv (g_rx s) \<and>
     rb_contents (g_rx s) = map pattern [unat (m_consumed s)..<unat (g_produced s)] \<and>
     unat (m_consumed s) \<le> unat (g_produced s) \<and>
     m_expected s = pattern (unat (m_consumed s)) \<and> m_errors s = 0 \<and>
     g_produced s + g_dropped s = g_ticks s \<and> m_high_water s \<le> RB_CAPACITY \<and>
     (case pc of At_count \<Rightarrow> m_consumed s \<le> 260 | At_get _ \<Rightarrow> m_consumed s < 260))"

lemma demo_inv_produced:
  assumes "demo_inv (pc, s)"
  shows "unat (m_consumed s) \<le> 260" "unat (g_produced s) = unat (m_consumed s) + length (rb_contents (g_rx s))"
    "length (rb_contents (g_rx s)) \<le> 64"
proof -
  show "unat (m_consumed s) \<le> 260"
    using assms by (cases pc) (auto simp: demo_inv_def word_le_nat_alt word_less_nat_alt)
  show "unat (g_produced s) = unat (m_consumed s) + length (rb_contents (g_rx s))"
    using assms by (simp add: demo_inv_def del: length_rb_contents)
  show "length (rb_contents (g_rx s)) \<le> 64"
    using assms by (intro rb.bounded) (simp add: demo_inv_def)
qed

lemma demo_tick_inv:
  assumes "demo_inv (pc, s)"
  shows "\<exists>s'. demo_tick s = Some s' \<and> demo_inv (pc, s') \<and> m_consumed s' = m_consumed s \<and>
    g_ticks s' = g_ticks s + 1 \<and>
    (if length (rb_contents (g_rx s)) < 64
     then length (rb_contents (g_rx s')) = length (rb_contents (g_rx s)) + 1 \<and> g_dropped s' = g_dropped s
     else length (rb_contents (g_rx s')) = 64 \<and> g_dropped s' = g_dropped s + 1)"
proof -
  note p = demo_inv_produced [OF assms]
  have i: "rb_inv (g_rx s)"
    using assms by (simp add: demo_inv_def)
  from i show ?thesis
  proof (cases rule: rb.put_cases [where x = "pattern (unat (g_produced s))"])
    case (1 rx)
    have u: "unat (g_produced s + 1) = unat (g_produced s) + 1"
      using p by (intro unat_Suc_lt) simp
    show ?thesis
      using 1 assms u by (cases pc) (auto simp: demo_tick_def demo_inv_def pattern_word Let_def simp del: length_rb_contents)
  next
    case 2
    then show ?thesis
      using assms by (cases pc) (auto simp: demo_tick_def demo_inv_def pattern_word Let_def simp del: length_rb_contents)
  qed
qed

lemma demo_take_inv:
  assumes "demo_inv (At_get depth, s)"
  shows "\<exists>s' ok. demo_take s = Some (s', ok) \<and> demo_inv (At_count, s') \<and>
    (if ok then m_consumed s' = m_consumed s + 1 else s' = s \<and> rb_contents (g_rx s) = [])"
proof -
  note p = demo_inv_produced [OF assms]
  have i: "rb_inv (g_rx s)" and lt: "m_consumed s < 260"
    using assms by (simp_all add: demo_inv_def)
  from i show ?thesis
  proof (cases rule: rb.get_cases [where out = 0])
    case (1 rx y)
    have u: "unat (m_consumed s + 1) = unat (m_consumed s) + 1"
      using p(1) by (intro unat_Suc_lt) simp
    have "unat (m_consumed s) < unat (g_produced s)"
      using p(2) 1(3) by simp
    then have "y = pattern (unat (m_consumed s))"
      "rb_contents rx = map pattern [unat (m_consumed s + 1)..<unat (g_produced s)]"
      using 1(3) assms by (simp_all add: demo_inv_def u upt_conv_Cons)
    moreover have y: "y = m_expected s"
      using assms calculation(1) by (simp add: demo_inv_def)
    define s' where "s' = s\<lparr>g_rx := rx, m_expected := pattern (unat (m_consumed s + 1)), m_consumed := m_consumed s + 1\<rparr>"
    have s': "demo_take s = Some (s', True)"
      using 1(1) pattern_word [of "m_consumed s + 1"] y by (simp add: demo_take_def s'_def)
    ultimately have "demo_inv (At_count, s')"
      using 1(2) assms u lt \<open>unat (m_consumed s) < _\<close>
      by (auto simp: s'_def demo_inv_def word_le_nat_alt word_less_nat_alt simp del: length_rb_contents)
    then show ?thesis
      using s' by (intro exI [of _ s'] exI [of _ True]) (simp add: s'_def)
  next
    case 2
    then have "demo_take s = Some (s, False)"
      by (simp add: demo_take_def)
    moreover have "demo_inv (At_count, s)"
      using assms lt by (simp add: demo_inv_def)
    ultimately show ?thesis
      using 2 by (intro exI [of _ s] exI [of _ False]) simp
  qed
qed

lemma demo_get_inv:
  assumes "demo_inv (At_get depth, s)"
  shows "\<exists>s'. demo_get s = Some s' \<and> demo_inv (At_count, s')"
  using demo_take_inv [OF assms] by (auto simp: demo_get_def)

lemma demo_step_inv:
  assumes "demo_step {} c c'" and "demo_inv c"
  shows "demo_inv c'"
  using assms(1)
proof (cases rule: demo_step.cases)
  case (tick s s' pc)
  then show ?thesis
    using demo_tick_inv [of pc s] assms(2) by auto
next
  case (count s depth s')
  have "rb_count (g_rx s) \<le> RB_CAPACITY"
    using demo_inv_produced(3) [of "fst c" s] assms(2) count by (simp add: word_le_nat_alt RB_CAPACITY_def)
  then show ?thesis
    using count assms(2) by (auto simp: demo_count_def demo_inv_def Let_def split: if_splits)
next
  case (get s s' depth)
  then show ?thesis
    using demo_get_inv [of depth s] assms(2) by auto
qed simp

lemma demo_start_inv:
  assumes "length (rb_buf rx) = 64"
  shows "demo_inv (At_count, demo_start rx)"
  using assms by (auto simp: demo_inv_def demo_start_def rb_init_def rb_inv_def rb_contents_def rb_count_def
      pattern_def RB_CAPACITY_def)

lemma demo_reach_inv:
  assumes "demo_reach {} rx c" and "length (rb_buf rx) = 64"
  shows "demo_inv c"
  using assms(1)
proof induction
  case start
  show ?case
    using assms(2) by (rule demo_start_inv)
next
  case (step c c')
  then show ?case
    by (blast intro: demo_step_inv)
qed

text \<open>A stalled consumer: only the interrupt runs.\<close>

fun demo_ticks :: "nat \<Rightarrow> spsc_demo \<Rightarrow> spsc_demo option" where
  "demo_ticks 0 s = Some s"
| "demo_ticks (Suc n) s = demo_tick s \<bind> demo_ticks n"

lemma demo_ticks_inv:
  "demo_inv (pc, s) \<Longrightarrow> \<exists>s'. demo_ticks n s = Some s' \<and> demo_inv (pc, s') \<and> m_consumed s' = m_consumed s \<and>
    g_ticks s' = g_ticks s + of_nat n \<and>
    length (rb_contents (g_rx s')) = min 64 (length (rb_contents (g_rx s)) + n) \<and>
    g_dropped s' = g_dropped s + of_nat (n - (64 - length (rb_contents (g_rx s))))"
proof (induction n arbitrary: s)
  case 0
  then show ?case
    using demo_inv_produced(3) [OF 0] by (simp del: length_rb_contents)
next
  case (Suc n)
  let ?c = "length (rb_contents (g_rx s))"
  obtain s1 where s1: "demo_tick s = Some s1" "demo_inv (pc, s1)" "m_consumed s1 = m_consumed s" "g_ticks s1 = g_ticks s + 1"
    "if ?c < 64 then length (rb_contents (g_rx s1)) = ?c + 1 \<and> g_dropped s1 = g_dropped s
     else length (rb_contents (g_rx s1)) = 64 \<and> g_dropped s1 = g_dropped s + 1"
    using demo_tick_inv [OF Suc.prems] by blast
  obtain s' where s': "demo_ticks n s1 = Some s'" "demo_inv (pc, s')" "m_consumed s' = m_consumed s1"
    "g_ticks s' = g_ticks s1 + of_nat n"
    "length (rb_contents (g_rx s')) = min 64 (length (rb_contents (g_rx s1)) + n)"
    "g_dropped s' = g_dropped s1 + of_nat (n - (64 - length (rb_contents (g_rx s1))))"
    using Suc.IH [OF s1(2)] by blast
  show ?case
  proof (cases "?c < 64")
    case True
    then have "n - (64 - length (rb_contents (g_rx s1))) = Suc n - (64 - ?c)"
      using s1(5) by (simp del: length_rb_contents)
    then show ?thesis
      using True s1 s' by (simp add: algebra_simps del: length_rb_contents)
  next
    case False
    then show ?thesis
      using demo_inv_produced(3) [OF Suc.prems] s1 s' by (simp add: algebra_simps del: length_rb_contents)
  qed
qed

section \<open>Properties\<close>

text \<open>As long as nothing is typed, the consumer sees the alphabet in order wherever the
  interrupts come between the steps of its loop: in every reachable state there are no ordering errors, the ring holds exactly
  the bytes produced and not yet consumed, every tick was either produced or counted as
  dropped, and the high-water mark is at most the capacity. No step is an out-of-bounds access.\<close>

theorem demo_in_order:
  assumes "demo_reach {} rx (pc, s)" and "length (rb_buf rx) = 64"
  shows "m_errors s = 0 \<and> rb_contents (g_rx s) = map pattern [unat (m_consumed s)..<unat (g_produced s)] \<and>
    unat (m_consumed s) \<le> 260 \<and> g_produced s + g_dropped s = g_ticks s \<and> unat (m_high_water s) \<le> 64 \<and>
    demo_tick s \<noteq> None \<and> (case pc of At_count \<Rightarrow> True | At_get _ \<Rightarrow> demo_get s \<noteq> None)"
proof -
  have i: "demo_inv (pc, s)"
    using demo_reach_inv [OF assms] .
  have "demo_tick s \<noteq> None" "case pc of At_count \<Rightarrow> True | At_get _ \<Rightarrow> demo_get s \<noteq> None"
    using demo_tick_inv [OF i] demo_get_inv i by (auto split: main_pc.split)
  then show ?thesis
    using i demo_inv_produced(1) [OF i] by (simp add: demo_inv_def word_le_nat_alt RB_CAPACITY_def)
qed

theorem demo_in_order_witness:
  "\<exists>s. demo_reach {} (ring_at 7) (At_get 1, s) \<and> m_errors s = 0 \<and> rb_contents (g_rx s) = [65]"
proof -
  let ?r = "ring_at 7"
  have l: "length (rb_buf ?r) = 64"
    by (simp add: ring_at_def)
  have c0: "rb_contents (g_rx (demo_start ?r)) = []"
    by (simp add: demo_start_def rb_init_def rb_contents_def rb_count_def)
  obtain s1 where s1: "demo_tick (demo_start ?r) = Some s1" "demo_inv (At_count, s1)" "m_consumed s1 = 0"
    "length (rb_contents (g_rx s1)) = 1"
    using demo_tick_inv [OF demo_start_inv [OF l]] unfolding c0 by (auto simp: demo_start_def simp del: length_rb_contents)
  then have n: "unat (g_produced s1) = 1" "rb_count (g_rx s1) = 1"
    using demo_inv_produced(2) [OF s1(2)] by (simp_all add: word_unat_eq_iff)
  have r1: "demo_reach {} ?r (At_count, s1)"
    using s1(1) by (blast intro: demo_reach.intros demo_step.intros)
  define s2 where "s2 = snd (demo_count s1)"
  have "demo_count s1 = (1, s2)" "m_consumed s2 = 0" "g_produced s2 = g_produced s1"
    using n s1(3) by (simp_all add: s2_def demo_count_def Let_def)
  moreover have "m_consumed s1 < 260"
    using s1(3) by simp
  ultimately have r: "demo_reach {} ?r (At_get 1, s2)"
    using r1 by (blast intro: demo_reach.step demo_step.count)
  from demo_in_order [OF r l] r \<open>m_consumed s2 = 0\<close> \<open>g_produced s2 = g_produced s1\<close> n(1) show ?thesis
    by (auto simp: pattern_def)
qed

text \<open>Stalling the consumer overruns the ring without losing count: after \<open>n\<close> more ticks the ring
  holds what fits of them, and exactly the others were counted as dropped.\<close>

theorem demo_stall_counts_drops:
  assumes "demo_reach {} rx (pc, s)" and "length (rb_buf rx) = 64"
  shows "\<exists>s'. demo_ticks n s = Some s' \<and> demo_reach {} rx (pc, s') \<and>
    unat (rb_count (g_rx s')) = min 64 (unat (rb_count (g_rx s)) + n) \<and>
    g_dropped s' = g_dropped s + of_nat (n - (64 - unat (rb_count (g_rx s))))"
proof -
  have "demo_reach {} rx (pc, s')" if "demo_ticks n s = Some s'" "demo_reach {} rx (pc, s)" for n s s'
    using that
  proof (induction n arbitrary: s)
    case (Suc n)
    then obtain s1 where "demo_tick s = Some s1" "demo_ticks n s1 = Some s'"
      by (auto split: bind_splits)
    then show ?case
      using Suc.IH Suc.prems(2) by (blast intro: demo_reach.step demo_step.tick)
  qed simp
  then show ?thesis
    using demo_ticks_inv [OF demo_reach_inv [OF assms], of n] assms(1) by auto
qed

theorem demo_stall_counts_drops_witness:
  "\<exists>s. demo_ticks 200 (demo_start (ring_at 0)) = Some s \<and> unat (rb_count (g_rx s)) = 64 \<and> g_dropped s = 136"
  using demo_stall_counts_drops [OF demo_reach.start, of "ring_at 0" 200]
  by (auto simp: ring_at_def demo_start_def rb_init_def rb_count_def)

text \<open>A typed character is a second producer: the consumer compares it with the alphabet, and from
  then on every byte is one place off. One key and one tick give two ordering errors, although
  the ring delivered every byte in order.\<close>

lemma demo_typed_breaks_order:
  "\<exists>s. demo_reach {120} (ring_at 0) (At_count, s) \<and> m_consumed s = 2 \<and> m_errors s = 2"
proof -
  let ?R = "demo_reach {120} (ring_at 0)"
  have get: "\<exists>s'. ?R (At_count, s') \<and> rb_inv (g_rx s') \<and> rb_contents (g_rx s') = ys \<and> m_consumed s' = m_consumed s + 1 \<and>
      m_errors s' = (if y \<noteq> m_expected s then m_errors s + 1 else m_errors s) \<and>
      m_expected s' = pattern (unat (m_consumed s + 1)) \<and> g_produced s' = g_produced s"
    if "?R (At_count, s)" "m_consumed s < 260" "rb_inv (g_rx s)" "rb_contents (g_rx s) = y # ys" for s y ys
  proof -
    note A = that
    obtain depth s1 where c: "demo_count s = (depth, s1)"
      by (cases "demo_count s")
    then have f: "g_rx s1 = g_rx s" "m_consumed s1 = m_consumed s" "m_errors s1 = m_errors s"
      "m_expected s1 = m_expected s" "g_produced s1 = g_produced s"
      by (auto simp: demo_count_def Let_def)
    obtain rx where g: "rb_get (g_rx s) 0 = Some (rx, y, True)" "rb_inv rx" "rb_contents rx = ys"
      using rb.get_some [OF A(3,4)] by blast
    obtain s2 where s2: "demo_get s1 = Some s2" "g_rx s2 = rx" "m_consumed s2 = m_consumed s + 1"
      "m_errors s2 = (if y \<noteq> m_expected s then m_errors s + 1 else m_errors s)"
      "m_expected s2 = pattern (unat (m_consumed s + 1))" "g_produced s2 = g_produced s"
      using g(1) f by (simp add: demo_get_def demo_take_def pattern_word)
    have "?R (At_count, s2)"
      using A(1,2) c s2(1) by (blast intro: demo_reach.step demo_step.count demo_step.get)
    then show ?thesis
      using s2 g by auto
  qed
  let ?s0 = "demo_start (ring_at 0)"
  have i0: "rb_inv (g_rx ?s0)" "rb_contents (g_rx ?s0) = []"
    by (simp_all add: demo_start_def rb_init_def rb_contents_def rb_count_def rb_inv_def ring_at_def)
  obtain rx where rx: "rb_put (g_rx ?s0) 120 = Some (rx, True)" "rb_inv rx" "rb_contents rx = [120]"
    using rb.put_room [OF i0(1), of 120] i0(2) by auto
  obtain s1 where s1: "demo_typed 120 ?s0 = Some s1" "g_rx s1 = rx" "m_consumed s1 = 0" "m_errors s1 = 0" "m_expected s1 = 65"
    "g_produced s1 = 0"
    using rx(1) by (simp add: demo_typed_def demo_start_def)
  have "?R (At_count, s1)"
    using s1(1) by (blast intro: demo_reach.intros demo_step.intros)
  then obtain s2 where s2: "?R (At_count, s2)" "rb_inv (g_rx s2)" "rb_contents (g_rx s2) = []" "m_consumed s2 = 1"
    "m_errors s2 = 1" "m_expected s2 = 66" "g_produced s2 = 0"
    using get [of s1 120 "[]"] s1 rx by (auto simp: pattern_def)
  obtain rx' where rx': "rb_put (g_rx s2) 65 = Some (rx', True)" "rb_inv rx'" "rb_contents rx' = [65]"
    using rb.put_room [OF s2(2), of 65] s2(3) by auto
  obtain s3 where s3: "demo_tick s2 = Some s3" "g_rx s3 = rx'" "m_consumed s3 = 1" "m_errors s3 = 1" "m_expected s3 = 66"
    using rx'(1) s2 by (simp add: demo_tick_def Let_def)
  have "?R (At_count, s3)"
    using s2(1) s3(1) by (blast intro: demo_reach.step demo_step.tick)
  then obtain s4 where "?R (At_count, s4)" "m_consumed s4 = 2" "m_errors s4 = 2"
    using get [of s3 65 "[]"] s3 rx' by auto
  then show ?thesis
    by blast
qed

end
