(* ===== verification/Spsc_Main.thy ===== *)
theory Spsc_Main
  imports Spsc_Demo Interrupts
begin

unbundle bit_operations_syntax

text \<open>
  The program of \<open>src/code/qemu-cortex-m/04-spsc-ring-buffer/main.c\<close> from its first line to its exit.
  A schedule (theory \<open>Interrupts\<close>) gives the interrupts that come before each access of \<open>main\<close> to
  what it shares with the handlers: \<open>ints k\<close> are those before access number \<open>k\<close>. The calls of \<open>rb_count\<close>
  and \<open>rb_get\<close> are one such access each here; theory \<open>Spsc_Access\<close> takes them apart.
\<close>

section \<open>Interrupts\<close>

datatype irq = Tick_irq | Serial_irq

type_synonym main_state = "spsc_demo main"

fun demo_irq :: "device \<Rightarrow> irq \<Rightarrow> spsc_demo \<times> io_trace \<Rightarrow> (spsc_demo \<times> io_trace) option" where
  "demo_irq dev Tick_irq (s, t) = map_option (\<lambda>s. (s, t)) (demo_tick s)"
| "demo_irq dev Serial_irq (s, t) = demo_uart_isr dev (s, t)"

abbreviation preempt :: "device \<Rightarrow> (nat \<Rightarrow> irq list) \<Rightarrow> main_state \<Rightarrow> main_state option" where
  "preempt dev \<equiv> preempted (demo_irq dev)"

section \<open>The program\<close>

fun print_progress :: "device \<Rightarrow> (nat \<Rightarrow> irq list) \<Rightarrow> u32 \<Rightarrow> main_state \<Rightarrow> main_state option" where
  "print_progress dev ints depth (s, t, k) = do {
     t \<leftarrow> uart_puts dev (cstr ''consumed '') t;
     t \<leftarrow> uart_put_u32 dev (m_consumed s) t;
     t \<leftarrow> uart_puts dev (cstr ''  depth='') t;
     t \<leftarrow> uart_put_u32 dev depth t;
     t \<leftarrow> uart_puts dev (cstr ''  dropped='') t;
     (s, t, k) \<leftarrow> preempt dev ints (s, t, k);
     t \<leftarrow> uart_put_u32 dev (g_dropped s) t;
     t \<leftarrow> uart_puts dev (cline '''') t;
     Some (s, t, k)
   }"

fun consume_step :: "device \<Rightarrow> (nat \<Rightarrow> irq list) \<Rightarrow> main_state \<Rightarrow> main_state option" where
  "consume_step dev ints c = do {
     (s, t, k) \<leftarrow> preempt dev ints c;
     let (depth, s) = demo_count s;
     (s, t, k) \<leftarrow> preempt dev ints (s, t, k);
     (s, ok) \<leftarrow> demo_take s;
     if ok
     then (if m_consumed s mod 26 = 0 then print_progress dev ints depth (s, t, k) else Some (s, t, k))
     else sleep (demo_irq dev) ints (s, t, k)
   }"

partial_function (option) consume_loop :: "device \<Rightarrow> (nat \<Rightarrow> irq list) \<Rightarrow> main_state \<Rightarrow> main_state option" where
  "consume_loop dev ints c =
     (if m_consumed (fst c) < 260 then consume_step dev ints c \<bind> consume_loop dev ints else Some c)"

partial_function (option) stall_loop :: "device \<Rightarrow> (nat \<Rightarrow> irq list) \<Rightarrow> u32 \<Rightarrow> main_state \<Rightarrow> main_state option" where
  "stall_loop dev ints t0 c = do {
     c \<leftarrow> preempt dev ints c;
     if g_ticks (fst c) - t0 < 200 then stall_loop dev ints t0 c else Some c
   }"

definition print_value :: "device \<Rightarrow> string \<Rightarrow> u32 \<Rightarrow> io_trace \<Rightarrow> io_trace option" where
  "print_value dev label v t = do {
     t \<leftarrow> uart_puts dev (cstr label) t;
     t \<leftarrow> uart_put_u32 dev v t;
     uart_puts dev (cline '''') t
   }"

definition demo_config :: "device \<Rightarrow> io_trace \<Rightarrow> io_trace option" where
  "demo_config dev t = do {
     t \<leftarrow> uart_init dev 115200 t;
     t \<leftarrow> uart_puts dev (cline (CHR 0x0A # ''=== lock-free SPSC ring buffer ==='' @ [CHR 0x0A])) t;
     t \<leftarrow> uart_puts dev (cstr ''capacity = '') t;
     t \<leftarrow> uart_put_u32 dev RB_CAPACITY t;
     t \<leftarrow> uart_puts dev (cline ('' bytes, indices are free-running and masked on access'' @ [CHR 0x0A])) t;
     let t = reg_write UART0_IM (UART_IM_RXIM OR UART_IM_RTIM) t;
     let t = reg_write NVIC_ISER0 (push_bit IRQ_UART0 1) t;
     let t = reg_write SYSTICK_LOAD (SYSTEM_CLOCK_HZ div 2000 - 1) t;
     let t = reg_write SYSTICK_VAL 0 t;
     Some (reg_write SYSTICK_CTRL (SYSTICK_CTRL_CLKSOURCE OR SYSTICK_CTRL_TICKINT OR SYSTICK_CTRL_ENABLE) t)
   }"

text \<open>Stopping the timer is an access too: interrupts come before it, and right after it those that were
  left pending, of which at most one is a tick.\<close>

fun one_tick :: "irq list \<Rightarrow> irq list" where
  "one_tick [] = []"
| "one_tick (Serial_irq # is) = Serial_irq # one_tick is"
| "one_tick (Tick_irq # is) = Tick_irq # filter (\<lambda>i. i = Serial_irq) is"

definition stop_timer :: "device \<Rightarrow> (nat \<Rightarrow> irq list) \<Rightarrow> main_state \<Rightarrow> main_state option" where
  "stop_timer dev ints c = do {
     (s, t, k) \<leftarrow> preempt dev ints c;
     preempt dev (\<lambda>k. one_tick (ints k)) (s, reg_write SYSTICK_CTRL 0 t, k)
   }"

fun stall_phase :: "device \<Rightarrow> (nat \<Rightarrow> irq list) \<Rightarrow> main_state \<Rightarrow> main_state option" where
  "stall_phase dev ints (s, t, k) = do {
     t \<leftarrow> uart_puts dev (cline (CHR 0x0A # ''--- phase 2: stalling the consumer to force overrun ---'')) t;
     (s, t, k) \<leftarrow> preempt dev ints (s, t, k);
     let drops_before = g_dropped s;
     (s, t, k) \<leftarrow> preempt dev ints (s, t, k);
     let t0 = g_ticks s;
     (s, t, k) \<leftarrow> stall_loop dev ints t0 (s, t, k);
     t \<leftarrow> uart_puts dev (cstr ''after stalling: depth='') t;
     (s, t, k) \<leftarrow> preempt dev ints (s, t, k);
     t \<leftarrow> uart_put_u32 dev (rb_count (g_rx s)) t;
     t \<leftarrow> uart_puts dev (cstr '' dropped='') t;
     (s, t, k) \<leftarrow> preempt dev ints (s, t, k);
     t \<leftarrow> uart_put_u32 dev (g_dropped s - drops_before) t;
     t \<leftarrow> uart_puts dev (cline '''') t;
     stop_timer dev ints (s, t, k)
   }"

text \<open>With the timer off only the serial interrupt is left.\<close>

definition serial_only :: "(nat \<Rightarrow> irq list) \<Rightarrow> nat \<Rightarrow> irq list" where
  "serial_only ints k = filter (\<lambda>i. i = Serial_irq) (ints k)"

fun result_phase :: "device \<Rightarrow> (nat \<Rightarrow> irq list) \<Rightarrow> main_state \<Rightarrow> (int \<times> spsc_demo \<times> io_trace) option" where
  "result_phase dev ints (s, t, k) = do {
     t \<leftarrow> uart_puts dev (cline (CHR 0x0A # ''--- result ---'')) t;
     (s, t, k) \<leftarrow> preempt dev ints (s, t, k);
     t \<leftarrow> print_value dev ''produced   = '' (g_produced s) t;
     t \<leftarrow> print_value dev ''consumed   = '' (m_consumed s) t;
     (s, t, k) \<leftarrow> preempt dev ints (s, t, k);
     t \<leftarrow> print_value dev ''dropped    = '' (g_dropped s) t;
     t \<leftarrow> uart_puts dev (cstr ''high water = '') t;
     t \<leftarrow> uart_put_u32 dev (m_high_water s) t;
     t \<leftarrow> print_value dev '' of '' RB_CAPACITY t;
     t \<leftarrow> uart_puts dev (cstr ''ordering errors = '') t;
     t \<leftarrow> uart_put_u32 dev (m_errors s) t;
     t \<leftarrow> uart_puts dev (cline (if m_errors s = 0 then ''  (sequence intact)'' else ''  *** CORRUPTION ***'')) t;
     t \<leftarrow> uart_puts dev (cline (CHR 0x0A # ''Why no critical section was needed:'')) t;
     t \<leftarrow> uart_puts dev (cline ''  * exactly one writer per index'') t;
     t \<leftarrow> uart_puts dev (cline ''  * 32-bit aligned loads/stores are atomic on Cortex-M'') t;
     t \<leftarrow> uart_puts dev (cline ''  * capacity is a power of two, so masking replaces modulo'') t;
     t \<leftarrow> uart_puts dev (cline ''Add a second producer and every line above stops being true.'') t;
     Some (if m_errors s = 0 then 0 else 1, s, t)
   }"

definition example04 :: "device \<Rightarrow> (nat \<Rightarrow> irq list) \<Rightarrow> ringbuf \<Rightarrow> io_trace \<Rightarrow> (int \<times> spsc_demo \<times> io_trace) option" where
  "example04 dev ints rx t = do {
     t \<leftarrow> demo_config dev t;
     c \<leftarrow> consume_loop dev ints (demo_start rx, t, 0);
     c \<leftarrow> stall_phase dev ints c;
     result_phase dev (serial_only ints) c
   }"

section \<open>What the program does when nothing is typed\<close>

text \<open>A schedule of timer interrupts only, which do not stop coming. Between two accesses the timer may
  interrupt any number of times short of \<open>2 ^ 32 - 200\<close>.\<close>

definition ticking :: "(nat \<Rightarrow> irq list) \<Rightarrow> bool" where
  "ticking ints \<longleftrightarrow> (\<forall>k. set (ints k) \<subseteq> {Tick_irq} \<and> length (ints k) + 200 < 2 ^ 32) \<and>
     (\<forall>m. \<exists>k \<ge> m. ints k \<noteq> [])"

text \<open>A schedule without typing, as after the timer has been stopped.\<close>

definition unserved :: "(nat \<Rightarrow> irq list) \<Rightarrow> bool" where
  "unserved ints \<longleftrightarrow> (\<forall>k. set (ints k) \<subseteq> {Tick_irq})"

lemma ticking_unserved: "ticking ints \<Longrightarrow> unserved ints"
  by (simp add: ticking_def unserved_def)

lemma serial_only_silent: "unserved ints \<Longrightarrow> serial_only ints k = []"
  by (auto simp: serial_only_def unserved_def filter_empty_conv)

lemma ticks_only:
  "set is \<subseteq> {Tick_irq} \<Longrightarrow> serve (demo_irq dev) is (s, t) = map_option (\<lambda>s. (s, t)) (demo_ticks (length is) s)"
proof (induction "is" arbitrary: s)
  case (Cons i "is")
  then show ?case
    by (cases "demo_tick s") auto
qed simp

lemma preempt_ticks:
  assumes "unserved ints" and "demo_inv (pc, s)"
  shows "\<exists>s'. preempt dev ints (s, t, k) = Some (s', t, k + 1) \<and> demo_inv (pc, s') \<and> m_consumed s' = m_consumed s \<and>
    g_ticks s' = g_ticks s + of_nat (length (ints k)) \<and>
    length (rb_contents (g_rx s')) = min 64 (length (rb_contents (g_rx s)) + length (ints k))"
  using demo_ticks_inv [OF assms(2), of "length (ints k)"] ticks_only [of "ints k" dev s t] assms(1)
  by (auto simp: unserved_def simp del: length_rb_contents)

interpretation ticks: handler_law "demo_irq dev" "\<lambda>i. i = Tick_irq" "\<lambda>s. demo_inv (pc, s)"
  "\<lambda>s s'. m_consumed s' = m_consumed s" for dev pc
proof
  fix i s t
  assume "i = Tick_irq" "demo_inv (pc, s)"
  then show "\<exists>s' t'. demo_irq dev i (s, t) = Some (s', t') \<and> demo_inv (pc, s') \<and> m_consumed s' = m_consumed s"
    using demo_tick_inv [of pc s] by auto
qed simp_all

lemma unserved_allowed: "unserved ints \<Longrightarrow> list_all (\<lambda>i. i = Tick_irq) (ints k)"
  by (auto simp: unserved_def list_all_iff)

lemmas preempt_then = ticks.preempted_then [where ints = ints and k = k, OF unserved_allowed [of ints k]] for ints k

lemma print_value_then:
  assumes "uart_ready dev" and "CHR 0x00 \<notin> set label" and "\<And>t. \<exists>r. g t = Some r \<and> P r"
  shows "\<exists>r. print_value dev label v t \<bind> g = Some r \<and> P r"
  unfolding print_value_def bind_assoc
  by (intro print_steps assms) simp_all

lemma print_progress_returns:
  assumes "uart_ready dev" and "unserved ints" and "demo_inv (pc, s)"
  shows "\<exists>r. print_progress dev ints depth (s, t, k) = Some r \<and>
    demo_inv (pc, fst r) \<and> m_consumed (fst r) = m_consumed s"
proof -
  note steps = print_steps [OF assms(1)] preempt_then [OF assms(2,3)]
  show ?thesis
    unfolding print_progress.simps by (rule steps | simp only: prod.case | simp; fail)+
qed

lemma demo_count_inv:
  assumes "demo_inv (At_count, s)" and "m_consumed s < 260"
  shows "demo_inv (At_get depth, snd (demo_count s))" "m_consumed (snd (demo_count s)) = m_consumed s"
    "g_rx (snd (demo_count s)) = g_rx s"
proof -
  have "rb_count (g_rx s) \<le> RB_CAPACITY"
    using demo_inv_produced(3) [OF assms(1)] by (simp add: word_le_nat_alt RB_CAPACITY_def)
  then show "demo_inv (At_get depth, snd (demo_count s))"
    using assms by (auto simp: demo_count_def demo_inv_def Let_def)
qed (simp_all add: demo_count_def Let_def)

text \<open>What is left to do: the bytes to consume, and a half step while the ring is empty. An iteration
  reduces it, unless the ring was empty and no interrupt came up to the end of its sleep.\<close>

definition todo :: "spsc_demo \<Rightarrow> nat" where
  "todo s = 2 * (260 - unat (m_consumed s)) + (if rb_contents (g_rx s) = [] then 1 else 0)"

lemma sleep_ticks:
  assumes "ticking ints" and "demo_inv (At_count, s)" and "rb_contents (g_rx s) = []"
  shows "\<exists>s' j. sleep (demo_irq dev) ints (s, t, k) = Some (s', t, j) \<and> demo_inv (At_count, s') \<and> k < j \<and>
    (todo s' < todo s \<or> todo s' = todo s \<and> (\<forall>i. k \<le> i \<longrightarrow> i < j \<longrightarrow> ints i = []))"
proof -
  obtain s' where p: "preempt dev ints (s, t, k) = Some (s', t, k + 1)" "demo_inv (At_count, s')" "m_consumed s' = m_consumed s"
      "length (rb_contents (g_rx s')) = min 64 (length (ints k))"
    using preempt_ticks [OF ticking_unserved [OF assms(1)] assms(2), of dev t k] assms(3) by auto
  obtain m where "ints m \<noteq> []" "k + 1 \<le> m"
    using assms(1) unfolding ticking_def by blast
  then obtain j where j: "wait_for_interrupt ints (k + 1) = Some j" "k + 1 \<le> j"
      "\<forall>i. k + 1 \<le> i \<longrightarrow> i < j \<longrightarrow> ints i = []"
    by (rule wait_ends_at_next)
  have "sleep (demo_irq dev) ints (s, t, k) = Some (s', t, j)"
    using p(1) j(1) by (simp add: sleep_def del: preempted.simps)
  moreover have "rb_contents (g_rx s') = [] \<longleftrightarrow> ints k = []"
    using p(4) by (cases "ints k"; cases "rb_contents (g_rx s')") (simp_all del: length_rb_contents)
  moreover have "ints i = []" if "ints k = []" "k \<le> i" "i < j" for i
    using that j(3) by (cases "i = k") auto
  ultimately show ?thesis
    using p(2,3) j(2) assms(3) by (auto simp: todo_def)
qed

lemma consume_step_progress:
  assumes "uart_ready dev" and "ticking ints" and "demo_inv (At_count, s)" and "m_consumed s < 260"
  shows "\<exists>s' t' k'. consume_step dev ints (s, t, k) = Some (s', t', k') \<and> demo_inv (At_count, s') \<and>
    (todo s' < todo s \<or> todo s' = todo s \<and> k < k' \<and> (\<forall>i. k \<le> i \<longrightarrow> i < k' \<longrightarrow> ints i = []))"
proof -
  note idle = ticking_unserved [OF assms(2)]
  obtain s1 where s1: "preempt dev ints (s, t, k) = Some (s1, t, k + 1)" "demo_inv (At_count, s1)" "m_consumed s1 = m_consumed s"
    "length (rb_contents (g_rx s1)) = min 64 (length (rb_contents (g_rx s)) + length (ints k))"
    using preempt_ticks [OF idle assms(3)] by blast
  obtain depth s2 where s2: "demo_count s1 = (depth, s2)"
    by fastforce
  have "m_consumed s1 < 260"
    using s1(3) assms(4) by simp
  note c = demo_count_inv [OF s1(2) this, unfolded s2 snd_conv]
  obtain s3 where s3: "preempt dev ints (s2, t, k + 1) = Some (s3, t, k + 2)" "demo_inv (At_get depth, s3)"
    "m_consumed s3 = m_consumed s2" "length (rb_contents (g_rx s3)) = min 64 (length (rb_contents (g_rx s2)) + length (ints (k + 1)))"
    using preempt_ticks [OF idle c(1) [of depth], of dev t "k + 1"] by auto
  obtain s4 ok where s4: "demo_take s3 = Some (s4, ok)" "demo_inv (At_count, s4)"
    "if ok then m_consumed s4 = m_consumed s3 + 1 else s4 = s3 \<and> rb_contents (g_rx s3) = []"
    using demo_take_inv [OF s3(2)] by blast
  have step: "consume_step dev ints (s, t, k) =
      (if ok then (if m_consumed s4 mod 26 = 0 then print_progress dev ints depth (s4, t, k + 2) else Some (s4, t, k + 2))
       else sleep (demo_irq dev) ints (s4, t, k + 2))"
    using s1(1) s2 s3(1) s4(1) by (simp del: preempted.simps print_progress.simps)
  show ?thesis
  proof (cases ok)
    case True
    have "unat (m_consumed s + 1) = unat (m_consumed s) + 1"
      using demo_inv_produced(1) [OF assms(3)] by (intro unat_Suc_lt) simp
    then have "unat (m_consumed s4) = unat (m_consumed s) + 1" "unat (m_consumed s) < 260"
      using True s1(3) s3(3) s4(3) c(2) assms(4) by (simp_all add: word_less_nat_alt)
    then have less: "todo s' < todo s" if "m_consumed s' = m_consumed s4" for s'
      using that by (simp add: todo_def; linarith)
    obtain r where "print_progress dev ints depth (s4, t, k + 2) = Some r" "demo_inv (At_count, fst r)" "m_consumed (fst r) = m_consumed s4"
      using print_progress_returns [OF assms(1) idle s4(2)] by blast
    then show ?thesis
      using True s4(2) less unfolding step by (cases r) auto
  next
    case False
    then have e: "m_consumed s4 = m_consumed s" "rb_contents (g_rx s4) = []" "ints k = []" "ints (k + 1) = []" "rb_contents (g_rx s) = []"
      using s1(3,4) s3(3,4) s4(3) c(2,3) by (auto simp del: length_rb_contents simp: min_def split: if_splits)
    then have "todo s4 = todo s"
      by (simp add: todo_def)
    moreover obtain s' j where j: "sleep (demo_irq dev) ints (s4, t, k + 2) = Some (s', t, j)" "demo_inv (At_count, s')" "k + 2 < j"
        "todo s' < todo s4 \<or> todo s' = todo s4 \<and> (\<forall>i. k + 2 \<le> i \<longrightarrow> i < j \<longrightarrow> ints i = [])"
      using sleep_ticks [OF assms(2) s4(2) e(2)] by blast
    moreover have "ints i = []" if "\<forall>i. k + 2 \<le> i \<longrightarrow> i < j \<longrightarrow> ints i = []" "k \<le> i" "i < j" for i
      using that e(3,4) by (cases "i = k \<or> i = k + 1") auto
    ultimately show ?thesis
      using False unfolding step by auto
  qed
qed

lemma ticking_fair: "ticking ints \<Longrightarrow> \<forall>m. \<exists>k \<ge> m. ints k \<noteq> []"
  by (simp add: ticking_def)

lemma consume_loop_ends:
  assumes "uart_ready dev" and "ticking ints"
  shows "demo_inv (At_count, s) \<Longrightarrow> \<exists>s' t' k'. consume_loop dev ints (s, t, k) = Some (s', t', k') \<and>
    demo_inv (At_count, s') \<and> m_consumed s' = 260"
proof (induction "(s, t)" k arbitrary: s t rule: fair_induct [OF ticking_fair [OF assms(2)], where \<mu> = "\<lambda>(s, t). todo s"])
  case (1 k s t)
  note IH = this(1)
  have le: "unat (m_consumed s) \<le> 260"
    using demo_inv_produced(1) [OF 1(2)] .
  show ?case
  proof (cases "m_consumed s < 260")
    case True
    obtain s' t' k' where s': "consume_step dev ints (s, t, k) = Some (s', t', k')" "demo_inv (At_count, s')"
      "todo s' < todo s \<or> todo s' = todo s \<and> k < k' \<and> (\<forall>i. k \<le> i \<longrightarrow> i < k' \<longrightarrow> ints i = [])"
      using consume_step_progress [OF assms(1,2) 1(2) True] by blast
    then have "\<exists>s'' t'' k''. consume_loop dev ints (s', t', k') = Some (s'', t'', k'') \<and>
        demo_inv (At_count, s'') \<and> m_consumed s'' = 260"
      using IH [of s' t' k'] by simp
    then show ?thesis
      using True s'(1) by (subst consume_loop.simps) simp
  next
    case False
    then have "m_consumed s = 260"
      using le by (simp add: word_less_nat_alt word_unat_eq_iff)
    then show ?thesis
      using 1(2) by (subst consume_loop.simps) simp
  qed
qed

lemma stall_loop_ends:
  assumes "ticking ints"
  shows "demo_inv (At_count, s) \<Longrightarrow> g_ticks s = t0 + of_nat d \<Longrightarrow> d < 200 \<Longrightarrow> min 64 d \<le> length (rb_contents (g_rx s)) \<Longrightarrow>
    \<exists>s' k'. stall_loop dev ints t0 (s, t, k) = Some (s', t, k') \<and> demo_inv (At_count, s') \<and>
      m_consumed s' = m_consumed s \<and> length (rb_contents (g_rx s')) = 64"
proof (induction "(s, d)" k arbitrary: s d rule: fair_induct [OF ticking_fair [OF assms], where \<mu> = "\<lambda>(s, d). 200 - d"])
  case (1 k s d)
  note IH = this(1)
  let ?n = "length (ints k)"
  obtain s1 where s1: "preempt dev ints (s, t, k) = Some (s1, t, k + 1)" "demo_inv (At_count, s1)" "m_consumed s1 = m_consumed s"
    "g_ticks s1 = g_ticks s + of_nat ?n" "length (rb_contents (g_rx s1)) = min 64 (length (rb_contents (g_rx s)) + ?n)"
    using preempt_ticks [OF ticking_unserved [OF assms] 1(2)] by blast
  have t: "g_ticks s1 = t0 + of_nat (d + ?n)"
    using 1(3) s1(4) by simp
  have "?n + 200 < 2 ^ 32"
    using assms by (simp only: ticking_def)
  then have "unat (of_nat (d + ?n) :: u32) = d + ?n"
    using 1(4) by (simp add: unat_of_nat take_bit_nat_eq_self del: of_nat_add)
  then have below: "g_ticks s1 - t0 < 200 \<longleftrightarrow> d + ?n < 200"
    unfolding t by (simp add: word_less_nat_alt del: of_nat_add)
  show ?case
  proof (cases "d + ?n < 200")
    case True
    have "200 - (d + ?n) < 200 - d \<or> 200 - (d + ?n) = 200 - d \<and> (\<forall>i. k \<le> i \<longrightarrow> i < k + 1 \<longrightarrow> ints i = [])"
    proof (cases "ints k = []")
      case empty: True
      have "ints i = []" if "k \<le> i" "i < k + 1" for i
        using that empty by (cases "i = k") simp_all
      then show ?thesis
        using empty by simp
    next
      case False
      then have "0 < ?n"
        by simp
      then show ?thesis
        using \<open>d < 200\<close> by linarith
    qed
    then have "\<exists>s' k'. stall_loop dev ints t0 (s1, t, k + 1) = Some (s', t, k') \<and> demo_inv (At_count, s') \<and>
        m_consumed s' = m_consumed s1 \<and> length (rb_contents (g_rx s')) = 64"
      using IH [of s1 "d + ?n" "k + 1"] s1(2,5) t True 1(5) by (simp del: length_rb_contents)
    then show ?thesis
      using s1(1,3) True below by (subst stall_loop.simps) simp
  next
    case False
    then have "length (rb_contents (g_rx s1)) = 64"
      using 1(5) s1(5) by (simp add: min_def del: length_rb_contents split: if_splits)
    then show ?thesis
      using s1(1,2,3) False below by (subst stall_loop.simps) (simp del: length_rb_contents)
  qed
qed

text \<open>After the stall the ring is full, and stays so: whatever the timer adds is dropped.\<close>

definition stalled :: "spsc_demo \<Rightarrow> bool" where
  "stalled s \<longleftrightarrow> demo_inv (At_count, s) \<and> m_consumed s = 260 \<and> length (rb_contents (g_rx s)) = 64"

interpretation stall: handler_law "demo_irq dev" "\<lambda>i. i = Tick_irq" stalled "\<lambda>_ _. True" for dev
proof
  fix i s t
  assume i: "i = Tick_irq" and "stalled s"
  then have "demo_inv (At_count, s)" "m_consumed s = 260" "length (rb_contents (g_rx s)) = 64"
    by (simp_all add: stalled_def)
  then obtain s' where "demo_tick s = Some s'" "stalled s'"
    using demo_tick_inv [of At_count s] by (auto simp: stalled_def simp del: length_rb_contents)
  then show "\<exists>s' t'. demo_irq dev i (s, t) = Some (s', t') \<and> stalled s' \<and> True"
    using i by auto
qed simp_all

lemmas stalled_then = stall.preempted_then [where ints = ints and k = k, OF unserved_allowed [of ints k]] for ints k

lemma one_tick_unserved: "unserved ints \<Longrightarrow> unserved (\<lambda>k. one_tick (ints k))"
proof -
  have "set (one_tick is) \<subseteq> {Tick_irq}" if "set is \<subseteq> {Tick_irq}" for "is"
    using that by (induction "is" rule: one_tick.induct) auto
  then show "unserved ints \<Longrightarrow> unserved (\<lambda>k. one_tick (ints k))"
    by (simp add: unserved_def)
qed

lemma stop_timer_returns:
  assumes "unserved ints" and "stalled s"
  shows "\<exists>r. stop_timer dev ints (s, t, k) = Some r \<and> stalled (fst r)"
proof -
  obtain s1 t1 where p1: "preempt dev ints (s, t, k) = Some (s1, t1, k + 1)" "stalled s1"
    using stall.preempted_returns [where ints = ints and k = k, OF unserved_allowed [OF assms(1)] assms(2)] by blast
  obtain s2 t2 where "preempt dev (\<lambda>k. one_tick (ints k)) (s1, reg_write SYSTICK_CTRL 0 t1, k + 1) = Some (s2, t2, k + 1 + 1)"
      "stalled s2"
    using stall.preempted_returns [where ints = "\<lambda>k. one_tick (ints k)" and k = "k + 1",
        OF unserved_allowed [OF one_tick_unserved [OF assms(1)]] p1(2)] by blast
  then show ?thesis
    using p1 by (simp add: stop_timer_def del: preempted.simps)
qed

lemma stall_phase_returns:
  assumes "uart_ready dev" and "ticking ints" and "demo_inv (At_count, s)" and "m_consumed s = 260"
  shows "\<exists>r. stall_phase dev ints (s, t, k) = Some r \<and> stalled (fst r)"
proof -
  have stall: "\<exists>r. stall_loop dev ints (g_ticks s) (s, t, k) \<bind> g = Some r \<and> P r"
    if "demo_inv (At_count, s)" "m_consumed s = 260" "\<And>s' k'. stalled s' \<Longrightarrow> \<exists>r. g (s', t, k') = Some r \<and> P r" for s t k g P
    using stall_loop_ends [OF assms(2) that(1), of "g_ticks s" 0 dev t k] that(2,3)
    by (auto simp: stalled_def simp del: length_rb_contents)
  note prints_steps = print_steps [OF assms(1)]
  note stalled = stalled_then [OF ticking_unserved [OF assms(2)]]
  note preempted = preempt_then [OF ticking_unserved [OF assms(2)]]
  note stop = stop_timer_returns [OF ticking_unserved [OF assms(2)]]
  show ?thesis
    unfolding stall_phase.simps
    by (rule prints_steps stall stalled preempted stop, (assumption | rule assms)?
      | simp only: prod.case Let_def fst_conv assms | simp; fail)+
qed

lemma result_phase_returns:
  assumes "uart_ready dev" and "\<And>k. ints k = []" and "m_errors s = 0"
  shows "\<exists>r. result_phase dev ints (s, t, k) = Some r \<and> fst r = 0 \<and> fst (snd r) = s"
proof -
  have quiet: "preempt dev ints (s, t, k) = Some (s, t, k + 1)" for s t k
    by (simp add: assms(2))
  note steps = print_steps [OF assms(1)] print_value_then [OF assms(1)]
  show ?thesis
    unfolding result_phase.simps
    by (rule steps | simp only: quiet bind.bind_lunit prod.case assms(3) | simp add: assms(3); fail)+
qed

lemma demo_config_returns:
  assumes "uart_ready dev"
  shows "\<exists>r. demo_config dev t = Some r \<and> True"
proof -
  obtain t1 where init: "uart_init dev 115200 t = Some t1"
    by (rule uart_init_115200)
  note steps = print_steps [OF assms]
  show ?thesis
    unfolding demo_config_def init bind.bind_lunit by (rule steps | simp; fail)+
qed

section \<open>Properties\<close>

text \<open>C39. The whole program passes its own test: whatever the ring held, and however the timer
  interrupts fall between its accesses to what it shares with the handlers (\<open>rb_count\<close> and \<open>rb_get\<close>
  counting as one access each) up to the one that stops the timer, with a tick left pending there or
  not, as long as they keep coming and nothing is typed, both
  waiting loops end and it exits with status 0, with 260 bytes consumed and none out of order,
  the ring full of the next 64, every other tick counted as dropped, and the high-water mark
  within the capacity.\<close>

theorem example04_passes:
  assumes "uart_ready dev" and "ticking ints" and "length (rb_buf rx) = 64"
  shows "\<exists>s t'. example04 dev ints rx t = Some (0, s, t') \<and> m_errors s = 0 \<and> m_consumed s = 260 \<and>
    unat (g_produced s) = 324 \<and> rb_contents (g_rx s) = map pattern [260..<324] \<and>
    g_produced s + g_dropped s = g_ticks s \<and> unat (m_high_water s) \<le> 64"
proof -
  obtain t1 where t1: "demo_config dev t = Some t1"
    using demo_config_returns [OF assms(1)] by blast
  obtain s1 t2 k1 where s1: "consume_loop dev ints (demo_start rx, t1, 0) = Some (s1, t2, k1)" "demo_inv (At_count, s1)" "m_consumed s1 = 260"
    using consume_loop_ends [OF assms(1,2) demo_start_inv [OF assms(3)]] by blast
  obtain s2 t3 k2 where s2: "stall_phase dev ints (s1, t2, k1) = Some (s2, t3, k2)" "stalled s2"
    using stall_phase_returns [OF assms(1,2) s1(2,3), of t2 k1] by auto
  have i: "demo_inv (At_count, s2)" and n: "m_consumed s2 = 260" "length (rb_contents (g_rx s2)) = 64"
    using s2(2) by (simp_all add: stalled_def)
  have f: "m_errors s2 = 0" "g_produced s2 + g_dropped s2 = g_ticks s2" "unat (m_high_water s2) \<le> 64"
    "rb_contents (g_rx s2) = map pattern [unat (m_consumed s2)..<unat (g_produced s2)]"
    using i by (simp_all add: demo_inv_def word_le_nat_alt RB_CAPACITY_def)
  have p: "unat (g_produced s2) = 324"
    using demo_inv_produced(2) [OF i] n by (simp del: length_rb_contents)
  have "serial_only ints k = []" for k
    by (rule serial_only_silent [OF ticking_unserved [OF assms(2)]])
  then obtain t4 where "result_phase dev (serial_only ints) (s2, t3, k2) = Some (0, s2, t4)"
    using result_phase_returns [OF assms(1) _ f(1), of "serial_only ints" t3 k2] by auto
  then show ?thesis
    using t1 s1(1) s2(1) f n(1) p by (simp add: example04_def)
qed

text \<open>A timer that interrupts before every other access.\<close>

definition every_other :: "nat \<Rightarrow> irq list" where
  "every_other k = (if even k then [Tick_irq] else [])"

theorem example04_passes_witness:
  "\<exists>s t. example04 uart_idle every_other (ring_at 7) [] = Some (0, s, t) \<and> unat (g_produced s) = 324"
proof -
  have "\<exists>k \<ge> m. every_other k \<noteq> []" for m
    by (rule exI [of _ "2 * m"]) (simp add: every_other_def)
  then have "ticking every_other"
    by (auto simp: ticking_def every_other_def)
  moreover have "length (rb_buf (ring_at 7)) = 64"
    by (simp add: ring_at_def)
  ultimately show ?thesis
    using example04_passes [OF uart_idle_ready, of every_other "ring_at 7" "[]"] by blast
qed

end
