(* ===== verification/Spsc_Access.thy ===== *)
theory Spsc_Access
  imports Spsc_Demo Transitions
begin

text \<open>
  The consumer loop of \<open>src/code/qemu-cortex-m/04-spsc-ring-buffer/main.c\<close> one access to a shared
  variable at a time: the timer and the serial interrupt may come between any two accesses inside
  \<open>rb_count\<close> and \<open>rb_get\<close>. The handlers themselves are not interrupted by \<open>main\<close>. The loop so
  split refines the one of theory \<open>Spsc_Demo\<close>, where both calls are single steps: \<open>rb_count\<close> takes
  effect at its load of \<open>head\<close>, \<open>rb_get\<close> at its comparison with \<open>head\<close> when the ring is empty and at
  its store to \<open>tail\<close> otherwise.
\<close>

section \<open>The loop\<close>

text \<open>\<open>A_Loop\<close> is the head of the loop, \<open>A_Head h\<close> comes after \<open>rb_count\<close> has loaded \<open>head\<close>, and
  \<open>A_Get depth c\<close> is inside \<open>rb_get\<close>, with the program counter of a consumer.\<close>

datatype access_pc = A_Loop | A_Head u32 | A_Get u32 consumer

definition note_depth :: "u32 \<Rightarrow> spsc_demo \<Rightarrow> spsc_demo" where
  "note_depth depth s = (if depth > m_high_water s then s\<lparr>m_high_water := depth\<rparr> else s)"

lemma note_depth_fields [simp]:
  "g_rx (note_depth d s) = g_rx s" "g_produced (note_depth d s) = g_produced s"
  "g_dropped (note_depth d s) = g_dropped s" "g_ticks (note_depth d s) = g_ticks s"
  "m_consumed (note_depth d s) = m_consumed s" "m_errors (note_depth d s) = m_errors s"
  "m_expected (note_depth d s) = m_expected s"
  by (simp_all add: note_depth_def)

definition note_byte :: "u8 \<Rightarrow> spsc_demo \<Rightarrow> spsc_demo" where
  "note_byte b s = s\<lparr>m_errors := (if b \<noteq> m_expected s then m_errors s + 1 else m_errors s),
     m_expected := ucast (65 + (m_consumed s + 1) mod 26), m_consumed := m_consumed s + 1\<rparr>"

definition publish_tail :: "u32 \<Rightarrow> spsc_demo \<Rightarrow> spsc_demo" where
  "publish_tail ix s = s\<lparr>g_rx := (g_rx s)\<lparr>rb_tail := ix + 1\<rparr>\<rparr>"

inductive access_step :: "u8 set \<Rightarrow> access_pc \<times> spsc_demo \<Rightarrow> access_pc \<times> spsc_demo \<Rightarrow> bool" for keys where
  tick: "demo_tick s = Some s' \<Longrightarrow> access_step keys (pc, s) (pc, s')"
| typed: "b \<in> keys \<Longrightarrow> demo_typed b s = Some s' \<Longrightarrow> access_step keys (pc, s) (pc, s')"
| load_head: "m_consumed s < 260 \<Longrightarrow> access_step keys (A_Loop, s) (A_Head (rb_head (g_rx s)), s)"
| load_tail: "depth = h - rb_tail (g_rx s) \<Longrightarrow>
     access_step keys (A_Head h, s) (A_Get depth C_Idle, note_depth depth s)"
| get_tail: "access_step keys (A_Get depth C_Idle, s) (A_Get depth (C_Tail (rb_tail (g_rx s))), s)"
| get_empty: "rb_head (g_rx s) = ix \<Longrightarrow> access_step keys (A_Get depth (C_Tail ix), s) (A_Loop, s)"
| get_some: "rb_head (g_rx s) \<noteq> ix \<Longrightarrow>
     access_step keys (A_Get depth (C_Tail ix), s) (A_Get depth (C_Some ix), s)"
| get_read: "arr_get (rb_buf (g_rx s)) (rb_slot ix) = Some v \<Longrightarrow>
     access_step keys (A_Get depth (C_Some ix), s) (A_Get depth (C_Read ix v), s)"
| get_publish: "access_step keys (A_Get depth (C_Read ix v), s) (A_Loop, note_byte v (publish_tail ix s))"

section \<open>What the loop knows of the ring\<close>

fun pc_consumer :: "access_pc \<Rightarrow> consumer" where
  "pc_consumer (A_Get depth c) = c"
| "pc_consumer _ = C_Idle"

definition access_inv :: "access_pc \<times> spsc_demo \<Rightarrow> bool" where
  "access_inv c \<longleftrightarrow> (case c of (pc, s) \<Rightarrow> rb_inv (g_rx s) \<and> cons_ok (g_rx s) (pc_consumer pc))"

text \<open>A producer's call leaves the consumer's knowledge true.\<close>

lemma rb_put_cons_ok:
  assumes "rb_inv rb" and "cons_ok rb c" and "rb_put rb b = Some (rb', ok)"
  shows "rb_inv rb' \<and> cons_ok rb' c \<and> rb_tail rb' = rb_tail rb"
proof (cases ok)
  case False
  then show ?thesis
    using assms by (auto simp: rb_put_def Let_def split: if_splits bind_splits)
next
  case True
  let ?rb = "rb\<lparr>rb_buf := (rb_buf rb)[rb_slot (rb_head rb) := b]\<rparr>"
  have room: "unat (rb_count rb) < 64" and rb': "rb' = ?rb\<lparr>rb_head := rb_head ?rb + 1\<rparr>"
    using True assms(3) by (auto simp: rb_put_def Let_def rb_count_lt arr_set_eq_Some split: if_splits bind_splits)
  have "unat (rb_count ?rb) < 64" "cons_ok ?rb c" "rb_inv ?rb"
    using room rb_store [of rb b] cons_ok_store [OF assms(2) room, of b] assms(1) by (simp_all add: rb_inv_def)
  then show ?thesis
    using cons_ok_publish [of ?rb c] rb_publish(2) [of ?rb "rb_buf ?rb ! rb_slot (rb_head ?rb)"] rb' by simp
qed

lemma handlers_cons_ok:
  assumes "rb_inv (g_rx s)" and "cons_ok (g_rx s) c" and "demo_tick s = Some s' \<or> demo_typed b s = Some s'"
  shows "rb_inv (g_rx s') \<and> cons_ok (g_rx s') c \<and> rb_tail (g_rx s') = rb_tail (g_rx s)"
proof -
  have "\<exists>x ok. rb_put (g_rx s) x = Some (g_rx s', ok)"
    using assms(3)
  proof
    assume "demo_tick s = Some s'"
    then show ?thesis
      by (simp add: demo_tick_def Let_def split: bind_splits if_splits) fastforce+
  next
    assume "demo_typed b s = Some s'"
    then show ?thesis
      by (simp add: demo_typed_def split: bind_splits if_splits) fastforce+
  qed
  then show ?thesis
    using rb_put_cons_ok [OF assms(1,2)] by blast
qed

lemma access_step_inv: "access_step keys c c' \<Longrightarrow> access_inv c \<Longrightarrow> access_inv c'"
proof (induction rule: access_step.induct)
  case (tick s s' pc)
  then show ?case
    using handlers_cons_ok [of s "pc_consumer pc" s'] by (auto simp: access_inv_def)
next
  case (typed b s s' pc)
  then show ?case
    using handlers_cons_ok [of s "pc_consumer pc" s' b] by (auto simp: access_inv_def)
next
  case (get_publish depth ix v s)
  then show ?case
    using rb_consume(2) [of "g_rx s"] by (simp add: access_inv_def note_byte_def publish_tail_def)
qed (auto simp: access_inv_def note_depth_def rb_count_def arr_get_eq_Some)

section \<open>The loop refines the one whose calls are single steps\<close>

definition access_abs :: "access_pc \<times> spsc_demo \<Rightarrow> main_pc \<times> spsc_demo" where
  "access_abs c = (case c of (pc, s) \<Rightarrow> (case pc of
     A_Loop \<Rightarrow> (At_count, s)
   | A_Head h \<Rightarrow> (At_get (h - rb_tail (g_rx s)), note_depth (h - rb_tail (g_rx s)) s)
   | A_Get depth _ \<Rightarrow> (At_get depth, s)))"

lemma handlers_note_depth:
  "demo_tick s = Some s' \<Longrightarrow> demo_tick (note_depth d s) = Some (note_depth d s')"
  "demo_typed b s = Some s' \<Longrightarrow> demo_typed b (note_depth d s) = Some (note_depth d s')"
  by (auto simp: demo_tick_def demo_typed_def note_depth_def Let_def split: bind_splits if_splits)

lemma handler_abs:
  assumes "access_inv (pc, s)" and "demo_tick s = Some s' \<or> b \<in> keys \<and> demo_typed b s = Some s'"
  shows "demo_step keys (access_abs (pc, s)) (access_abs (pc, s'))"
proof -
  have "rb_tail (g_rx s') = rb_tail (g_rx s)"
    using handlers_cons_ok [of s C_Idle s' b] assms by (auto simp: access_inv_def)
  then show ?thesis
    using assms(2) by (auto simp: access_abs_def split: access_pc.split intro: demo_step.intros handlers_note_depth)
qed

lemma access_step_abs:
  "access_step keys c c' \<Longrightarrow> access_inv c \<Longrightarrow>
   access_abs c' = access_abs c \<or> demo_step keys (access_abs c) (access_abs c')"
proof (induction rule: access_step.induct)
  case (tick s s' pc)
  then show ?case
    using handler_abs by blast
next
  case (typed b s s' pc)
  then show ?case
    using handler_abs by blast
next
  case (load_head s)
  then have "demo_step keys (At_count, s) (At_get (rb_count (g_rx s)), note_depth (rb_count (g_rx s)) s)"
    by (intro demo_step.count) (simp_all add: demo_count_def note_depth_def Let_def)
  then show ?case
    by (simp add: access_abs_def rb_count_def)
next
  case (get_empty s ix depth)
  then have "demo_get s = Some s"
    by (simp add: demo_get_def demo_take_def access_inv_def rb_get_def Let_def)
  then show ?case
    by (auto simp: access_abs_def intro: demo_step.get)
next
  case (get_publish depth ix v s)
  then have k: "ix = rb_tail (g_rx s)" "rb_head (g_rx s) \<noteq> ix" "v = rb_buf (g_rx s) ! rb_slot ix"
      "length (rb_buf (g_rx s)) = 64"
    by (auto simp: access_inv_def rb_count_def rb_inv_def)
  then have "demo_get s = Some (note_byte v (publish_tail ix s))"
    using rb_slot_bound [of ix]
    by (simp add: demo_get_def demo_take_def rb_get_def mem note_byte_def publish_tail_def Let_def)
  then show ?case
    by (auto simp: access_abs_def intro: demo_step.get)
qed (auto simp: access_abs_def)

interpretation accesses: forward_simulation "access_step keys" access_inv "demo_step keys" access_abs for keys
  by unfold_locales (fact access_step_inv, fact access_step_abs)

interpretation loop: invariant_system "demo_step {}" demo_inv
  by unfold_locales (fact demo_step_inv)

lemma demo_reach_run: "(demo_step keys)\<^sup>*\<^sup>* c c' \<Longrightarrow> demo_reach keys rx c \<Longrightarrow> demo_reach keys rx c'"
  by (induction rule: rtranclp_induct) (auto intro: demo_reach.step)

lemma access_start:
  assumes "length (rb_buf rx) = 64"
  shows "access_inv (A_Loop, demo_start rx)" "access_abs (A_Loop, demo_start rx) = (At_count, demo_start rx)"
  using assms by (simp_all add: access_inv_def access_abs_def demo_start_def rb_init_def rb_inv_def rb_count_def)

lemma access_reach:
  assumes "(access_step keys)\<^sup>*\<^sup>* (A_Loop, demo_start rx) c" and "length (rb_buf rx) = 64"
  shows "demo_reach keys rx (access_abs c)" "access_inv c"
  using accesses.run_follows [OF assms(1) access_start(1) [OF assms(2)]]
    accesses.run_inv [OF assms(1) access_start(1) [OF assms(2)]]
  by (simp_all add: access_start(2) [OF assms(2)] demo_reach_run [OF _ demo_reach.start])

section \<open>Properties\<close>

text \<open>Interrupts between the single accesses of \<open>rb_count\<close> and \<open>rb_get\<close> do nothing that interrupts
  between the calls could not do: every state the split loop reaches, with any characters typed,
  is one of the loop whose calls are indivisible, and no access in it leaves the buffer.\<close>

theorem access_linearizes:
  assumes "(access_step keys)\<^sup>*\<^sup>* (A_Loop, demo_start rx) (pc, s)" and "length (rb_buf rx) = 64"
  shows "demo_reach keys rx (access_abs (pc, s)) \<and>
    demo_tick s \<noteq> None \<and> demo_typed b s \<noteq> None \<and>
    (case pc of A_Get depth (C_Some ix) \<Rightarrow> arr_get (rb_buf (g_rx s)) (rb_slot ix) \<noteq> None | _ \<Rightarrow> True)"
proof -
  have i: "rb_inv (g_rx s)"
    using access_reach(2) [OF assms] by (simp add: access_inv_def)
  have put: "rb_put (g_rx s) x \<noteq> None" for x
    using i by (cases rule: rb.put_cases [where x = x]) auto
  have "demo_tick s \<noteq> None" "demo_typed b s \<noteq> None"
    using put by (simp_all add: demo_tick_def demo_typed_def Let_def split: bind_split)
  moreover have "arr_get (rb_buf (g_rx s)) (rb_slot ix) \<noteq> None" for ix
    using i rb_slot_bound [of ix] by (simp add: rb_inv_def arr_get_def)
  ultimately show ?thesis
    using access_reach(1) [OF assms] by (auto split: access_pc.split consumer.split)
qed

lemma access_load_first:
  "(access_step keys)\<^sup>*\<^sup>* (A_Loop, demo_start rx) (A_Head 0, demo_start rx)"
  using access_step.load_head [of "demo_start rx" keys] by (auto simp: demo_start_def rb_init_def)

theorem access_linearizes_witness:
  "demo_reach {120} (ring_at 7) (access_abs (A_Head 0, demo_start (ring_at 7)))"
  using access_linearizes [OF access_load_first] by (auto simp: ring_at_def)

text \<open>C13. As long as nothing is typed the consumer of example 04 sees the alphabet in order wherever the
  timer interrupts the single accesses of its ring operations: no ordering error, every tick is
  either produced or counted as dropped, a depth it computes is at most the capacity, and a byte
  it has loaded but not yet released is the one it expects.\<close>

theorem access_in_order:
  assumes "(access_step {})\<^sup>*\<^sup>* (A_Loop, demo_start rx) (pc, s)" and "length (rb_buf rx) = 64"
  shows "m_errors s = 0 \<and> rb_contents (g_rx s) = map pattern [unat (m_consumed s)..<unat (g_produced s)] \<and>
    g_produced s + g_dropped s = g_ticks s \<and> unat (m_high_water s) \<le> 64 \<and>
    (case pc of A_Get depth (C_Read ix v) \<Rightarrow> v = m_expected s | _ \<Rightarrow> True)"
proof -
  have i: "demo_inv (access_abs (pc, s))"
    using loop.run_inv [OF accesses.run_follows [OF assms(1) access_start(1) [OF assms(2)]]] demo_start_inv [OF assms(2)]
    by (simp add: access_start(2) [OF assms(2)])
  have "m_high_water s \<le> m_high_water (note_depth d s)" for d
    by (simp add: note_depth_def less_imp_le)
  then have "m_high_water s \<le> RB_CAPACITY"
    using i by (cases pc) (auto simp: access_abs_def demo_inv_def intro: order_trans)
  moreover have "v = m_expected s" if "pc = A_Get depth (C_Read ix v)" for depth ix v
  proof -
    have k: "rb_inv (g_rx s)" "rb_count (g_rx s) \<noteq> 0" "v = rb_buf (g_rx s) ! rb_slot (rb_tail (g_rx s))"
      using access_reach(2) [OF assms] that by (simp_all add: access_inv_def)
    have "v = hd (rb_contents (g_rx s))"
      using rb_consume(1) [OF k(1,2)] k(3) by simp
    moreover have "unat (m_consumed s) < unat (g_produced s)" "rb_contents (g_rx s) = map pattern [unat (m_consumed s)..<unat (g_produced s)]"
      using i that rb_consume(1) [OF k(1,2)] by (auto simp: access_abs_def demo_inv_def upt_eq_Cons_conv simp del: length_rb_contents)
    ultimately show ?thesis
      using i that by (simp add: access_abs_def demo_inv_def upt_conv_Cons)
  qed
  ultimately show ?thesis
    using i by (cases pc) (auto simp: access_abs_def demo_inv_def word_le_nat_alt RB_CAPACITY_def
        split: consumer.split)
qed

text \<open>A run with the timer between the accesses: before the loop, between the loads of \<open>head\<close> and
  \<open>tail\<close> in \<open>rb_count\<close>, and between the load of the byte and the store to \<open>tail\<close> in \<open>rb_get\<close>.\<close>

definition run_at :: "u8 list \<Rightarrow> u32 \<Rightarrow> u32 \<Rightarrow> spsc_demo" where
  "run_at bs n high = \<lparr>g_rx = \<lparr>rb_buf = fold (\<lambda>i buf. buf[i := bs ! i]) [0..<length bs] (replicate 64 0), rb_head = n, rb_tail = 0\<rparr>,
     g_produced = n, g_dropped = 0, g_ticks = n, m_consumed = 0, m_errors = 0, m_expected = 65,
     m_high_water = high\<rparr>"

lemma run_at_ticks:
  "demo_tick (run_at [] 0 high) = Some (run_at [65] 1 high)"
  "demo_tick (run_at [65] 1 high) = Some (run_at [65, 66] 2 high)"
  "demo_tick (run_at [65, 66] 2 high) = Some (run_at [65, 66, 67] 3 high)"
proof -
  have le: "\<not> (64 :: u32) \<le> 1"
    by (simp only: word_le_nat_alt unat_numeral unat_1) simp
  show "demo_tick (run_at [] 0 high) = Some (run_at [65] 1 high)"
    "demo_tick (run_at [65] 1 high) = Some (run_at [65, 66] 2 high)"
    "demo_tick (run_at [65, 66] 2 high) = Some (run_at [65, 66, 67] 3 high)"
    by (simp_all add: demo_tick_def run_at_def rb_put_def Let_def RB_CAPACITY_def rb_slot_def rb_count_def
        arr_set_def upt_rec le flip: numeral_2_eq_2)
qed

lemma access_interrupted_run:
  "(access_step {})\<^sup>*\<^sup>* (A_Loop, demo_start (ring_at 7)) (A_Get 1 (C_Read 0 65), run_at [65, 66, 67] 3 1)"
proof -
  note step = rtranclp.rtrancl_into_rtrancl
  have "(access_step {})\<^sup>*\<^sup>* (A_Loop, run_at [] 0 0) (A_Loop, run_at [65] 1 0)"
    using access_step.tick [OF run_at_ticks(1)] by (intro r_into_rtranclp)
  from step [OF this access_step.load_head] have
    "(access_step {})\<^sup>*\<^sup>* (A_Loop, run_at [] 0 0) (A_Head 1, run_at [65] 1 0)"
    by (simp add: run_at_def)
  from step [OF step [OF this access_step.tick [OF run_at_ticks(2)]] access_step.load_tail [OF refl]] have
    "(access_step {})\<^sup>*\<^sup>* (A_Loop, run_at [] 0 0) (A_Get 1 C_Idle, run_at [65, 66] 2 1)"
    by (simp add: run_at_def note_depth_def)
  from step [OF this access_step.get_tail] have
    "(access_step {})\<^sup>*\<^sup>* (A_Loop, run_at [] 0 0) (A_Get 1 (C_Tail 0), run_at [65, 66] 2 1)"
    by (simp add: run_at_def)
  from step [OF this access_step.get_some] have
    "(access_step {})\<^sup>*\<^sup>* (A_Loop, run_at [] 0 0) (A_Get 1 (C_Some 0), run_at [65, 66] 2 1)"
    by (simp add: run_at_def)
  from step [OF step [OF this access_step.get_read [of _ _ 65]] access_step.tick [OF run_at_ticks(3)]] have
    "(access_step {})\<^sup>*\<^sup>* (A_Loop, run_at [] 0 0) (A_Get 1 (C_Read 0 65), run_at [65, 66, 67] 3 1)"
    by (simp add: run_at_def arr_get_def rb_slot_def upt_rec)
  moreover have "demo_start (ring_at 7) = run_at [] 0 0"
    by (simp add: demo_start_def run_at_def ring_at_def rb_init_def)
  ultimately show ?thesis
    by simp
qed

theorem access_in_order_witness:
  "\<exists>s s'. (access_step {})\<^sup>*\<^sup>* (A_Loop, demo_start (ring_at 7)) (A_Get 1 (C_Read 0 65), s) \<and>
     g_ticks s = 3 \<and> m_expected s = 65 \<and>
     access_step {} (A_Get 1 (C_Read 0 65), s) (A_Loop, s') \<and> m_consumed s' = 1 \<and>
     m_errors s' = 0 \<and> rb_contents (g_rx s') = [66, 67]"
proof -
  let ?s = "run_at [65, 66, 67] 3 1"
  let ?s' = "note_byte 65 (publish_tail 0 ?s)"
  note run = access_interrupted_run
  have step: "access_step {} (A_Get 1 (C_Read 0 65), ?s) (A_Loop, ?s')"
    by (rule access_step.get_publish)
  have len: "length (rb_buf (ring_at 7)) = 64"
    by (simp add: ring_at_def)
  have "m_consumed ?s' = 1" "g_produced ?s' = 3" "g_ticks ?s = 3"
    by (simp_all add: note_byte_def publish_tail_def run_at_def)
  moreover have "[1..<3] = [1, 2 :: nat]"
    by (simp add: upt_rec)
  ultimately show ?thesis
    using access_in_order [OF run len] access_in_order [OF rtranclp.rtrancl_into_rtrancl [OF run step] len] run step
    by (intro exI [of _ ?s] exI [of _ ?s']) (simp add: pattern_def)
qed

end
