(* ===== verification/Spsc_Uart.thy ===== *)
theory Spsc_Uart
  imports Spsc_Demo Uart_Rx
begin

unbundle bit_operations_syntax

text \<open>
  Typed characters through the receive handler of \<open>src/code/qemu-cortex-m/04-spsc-ring-buffer/main.c\<close>:
  the second instance of \<open>byte_handler\<close>, whose body is the ring's producer.
\<close>

definition typed_body :: "u8 \<Rightarrow> spsc_demo \<Rightarrow> (spsc_demo \<times> u8 list) option" where
  "typed_body b s = map_option (\<lambda>s. (s, [])) (demo_typed b s)"

text \<open>One character goes in the ring if there is room and is counted as dropped otherwise.\<close>

lemma demo_typed_effect:
  assumes "rb_inv (g_rx s)"
  shows "\<exists>s'. demo_typed b s = Some s' \<and> rb_inv (g_rx s') \<and>
    rb_contents (g_rx s') = rb_contents (g_rx s) @ take (64 - length (rb_contents (g_rx s))) [b] \<and>
    g_dropped s' = g_dropped s + of_nat (1 - (64 - length (rb_contents (g_rx s))))"
  using assms
proof (cases rule: rb.put_cases [where x = b])
  case (1 rx)
  then have "64 - length (rb_contents (g_rx s)) > 0"
    by (simp del: length_rb_contents)
  then show ?thesis
    using 1 by (cases "64 - length (rb_contents (g_rx s))") (auto simp: demo_typed_def simp del: length_rb_contents)
next
  case 2
  then show ?thesis
    using assms by (auto simp: demo_typed_def simp del: length_rb_contents)
qed

interpretation typist: byte_handler demo_uart_isr demo_drain
  "\<lambda>dev b st. map_option (\<lambda>s. (s, snd st)) (demo_typed b (fst st))" typed_body "\<lambda>s. rb_inv (g_rx s)"
proof
  fix dev s t
  show "demo_uart_isr dev (s, t) = demo_drain dev (s, reg_write UART0_ICR 0xFFFF t)"
    by (simp add: demo_uart_isr_def)
  show "demo_drain dev (s, t) = (case reg_read dev UART0_FR t of (v, t) \<Rightarrow>
      if v AND UART_FR_RXFE = 0
      then case reg_read dev UART0_DR t of (v, t) \<Rightarrow>
        map_option (\<lambda>s'. (s', snd (s, t))) (demo_typed (ucast (v AND 0xFF)) (fst (s, t))) \<bind> demo_drain dev
      else Some (s, t))"
    by (subst demo_drain.simps) (auto simp: reg_read_def split: bind_split)
next
  fix dev :: device and s :: spsc_demo and b t
  assume "rb_inv (g_rx s)"
  then obtain s' where "demo_typed b s = Some s'" "rb_inv (g_rx s')"
    using demo_typed_effect by blast
  then show "\<exists>s' out evs. typed_body b s = Some (s', out) \<and> rb_inv (g_rx s') \<and>
      map_option (\<lambda>s'. (s', snd (s, t))) (demo_typed b (fst (s, t))) = Some (s', t @ evs) \<and>
      uart_only evs \<and> writes_to UART0_DR evs = map ucast out"
    by (intro exI [of _ s'] exI [of _ "[]"]) (simp add: typed_body_def)
qed

lemma absorb_typed:
  assumes "rb_inv (g_rx s)" and "absorb typed_body bs s = Some (s', out)"
  shows "out = [] \<and> rb_contents (g_rx s') = rb_contents (g_rx s) @ take (64 - length (rb_contents (g_rx s))) bs \<and>
    g_dropped s' = g_dropped s + of_nat (length bs - (64 - length (rb_contents (g_rx s))))"
  using assms
proof (induction bs arbitrary: s out)
  case (Cons b bs)
  obtain s1 where s1: "demo_typed b s = Some s1" "rb_inv (g_rx s1)"
      "rb_contents (g_rx s1) = rb_contents (g_rx s) @ take (64 - length (rb_contents (g_rx s))) [b]"
      "g_dropped s1 = g_dropped s + of_nat (1 - (64 - length (rb_contents (g_rx s))))"
    using demo_typed_effect [OF Cons.prems(1)] by blast
  then obtain out1 where r: "absorb typed_body bs s1 = Some (s', out1)" "out = out1"
    using Cons.prems(2) typed_body_def [of b s] by (auto split: bind_splits)
  note ih = Cons.IH [OF s1(2) r(1)]
  show ?case
  proof (cases "64 - length (rb_contents (g_rx s))")
    case 0
    then show ?thesis
      using ih s1(3,4) r(2) by (simp del: length_rb_contents)
  next
    case (Suc n)
    then have "64 - length (rb_contents (g_rx s1)) = n"
      unfolding s1(3) by (simp del: length_rb_contents)
    then show ?thesis
      using ih s1(3,4) r(2) Suc by (simp del: length_rb_contents)
  qed
qed simp

text \<open>The handler puts the typed characters in the ring in the order in which they were typed, as many
  as fit, and counts exactly the others as dropped; it takes every character that had come in
  when it started.\<close>

theorem typed_in_order:
  assumes "uart_ready dev" and "rb_inv (g_rx s)" and "rx_stream dev t arrived bs"
  shows "\<exists>s' evs. demo_uart_isr dev (s, t) = Some (s', t @ evs) \<and> arrived [] \<le> rx_taken evs \<and>
    rx_taken evs \<le> arrived evs \<and> writes_to UART0_DR evs = [] \<and>
    rb_contents (g_rx s') = rb_contents (g_rx s) @ take (64 - unat (rb_count (g_rx s))) (take (rx_taken evs) bs) \<and>
    g_dropped s' = g_dropped s + of_nat (length (take (rx_taken evs) bs) - (64 - unat (rb_count (g_rx s))))"
proof -
  obtain s' out evs where r: "handler_runs (demo_uart_isr dev) 1 (s, t) = Some (s', t @ evs)"
      "arrived [] \<le> rx_taken evs" "rx_taken evs \<le> arrived evs"
      "absorb typed_body (take (rx_taken evs) bs) s = Some (s', out)" "writes_to UART0_DR evs = map ucast out"
    using typist.serves [OF assms(1-3), of "[]" 1] by auto
  then show ?thesis
    using absorb_typed [OF assms(2) r(4)] by (intro exI [of _ s'] exI [of _ evs]) (simp split: bind_splits)
qed

theorem typed_in_order_witness:
  "\<exists>s t. demo_uart_isr (burst_port [120, 121]) (demo_start (ring_at 7), []) = Some (s, t) \<and> rb_contents (g_rx s) = [120, 121]"
proof -
  have s: "rb_inv (g_rx (demo_start (ring_at 7)))" "rb_contents (g_rx (demo_start (ring_at 7))) = []"
      "rb_count (g_rx (demo_start (ring_at 7))) = 0"
    by (simp_all add: demo_start_def rb_init_def rb_inv_def rb_contents_def rb_count_def ring_at_def)
  obtain s' evs where r: "demo_uart_isr (burst_port [120, 121]) (demo_start (ring_at 7), []) = Some (s', evs)"
      "rx_taken evs = 2" "rb_contents (g_rx s') = take 64 (take (rx_taken evs) [120, 121])"
    using typed_in_order [OF burst_port_ready s(1) burst_port_stream, of "[120, 121]"] s(2,3) by auto
  then show ?thesis
    by auto
qed

end
