(* ===== verification/Hardfault.thy ===== *)
theory Hardfault
  imports Uart
begin

unbundle bit_operations_syntax

text \<open>
  The fault decoder of \<open>src/code/qemu-cortex-m/05-hardfault-decoder/main.c\<close>: \<open>hardfault_report\<close>
  prints the stacked frame and the causes the fault status registers give. What it reads from the
  core, \<open>ipsr\<close>, the frame and \<open>EXC_RETURN\<close>, are its arguments.
\<close>

section \<open>The decoder\<close>

definition SCB_CFSR :: u32 where "SCB_CFSR = 0xE000ED28"
definition SCB_HFSR :: u32 where "SCB_HFSR = 0xE000ED2C"
definition SCB_MMFAR :: u32 where "SCB_MMFAR = 0xE000ED34"
definition SCB_BFAR :: u32 where "SCB_BFAR = 0xE000ED38"

record exception_frame =
  xf_r0 :: u32
  xf_r1 :: u32
  xf_r2 :: u32
  xf_r3 :: u32
  xf_r12 :: u32
  xf_lr :: u32
  xf_pc :: u32
  xf_psr :: u32

definition report :: "device \<Rightarrow> string \<Rightarrow> u32 \<Rightarrow> io_trace \<Rightarrow> io_trace option" where
  "report dev label v t = do {
     t \<leftarrow> uart_puts dev (cstr ''  '') t;
     t \<leftarrow> uart_puts dev (cstr label) t;
     t \<leftarrow> uart_puts dev (cstr '' = '') t;
     t \<leftarrow> uart_put_hex32 dev v t;
     uart_puts dev (cline '''') t
   }"

text \<open>\<open>if (reg & (1u << n)) uart_puts(s)\<close>, and the lines that add a fault address.\<close>

definition flag_line :: "device \<Rightarrow> u32 \<Rightarrow> nat \<Rightarrow> string \<Rightarrow> io_trace \<Rightarrow> io_trace option" where
  "flag_line dev reg n s t = (if reg AND push_bit n 1 \<noteq> 0 then uart_puts dev (cline s) t else Some t)"

definition address_line :: "device \<Rightarrow> u32 \<Rightarrow> nat \<Rightarrow> string \<Rightarrow> u32 \<Rightarrow> io_trace \<Rightarrow> io_trace option" where
  "address_line dev reg n s a t =
     (if reg AND push_bit n 1 \<noteq> 0
      then do {
        t \<leftarrow> uart_puts dev (cstr s) t;
        let (v, t) = reg_read dev a t;
        t \<leftarrow> uart_put_hex32 dev v t;
        uart_puts dev (cline '''') t
      }
      else Some t)"

definition fault_name :: "device \<Rightarrow> u32 \<Rightarrow> io_trace \<Rightarrow> io_trace option" where
  "fault_name dev ipsr t =
     (let n = ipsr AND 0x1FF in
      if n = 3 then uart_puts dev (cstr ''HardFault'') t
      else if n = 4 then uart_puts dev (cstr ''MemManage'') t
      else if n = 5 then uart_puts dev (cstr ''BusFault'') t
      else if n = 6 then uart_puts dev (cstr ''UsageFault'') t
      else do { t \<leftarrow> uart_puts dev (cstr ''exception #'') t; uart_put_u32 dev n t })"

definition print_frame :: "device \<Rightarrow> exception_frame \<Rightarrow> u32 \<Rightarrow> io_trace \<Rightarrow> io_trace option" where
  "print_frame dev frame exc_return t = do {
     t \<leftarrow> uart_puts dev (cstr (CHR 0x0A # ''Stacked frame (recovered from '')) t;
     t \<leftarrow> uart_puts dev (cstr (if exc_return AND 0x4 \<noteq> 0 then ''PSP'' else ''MSP'')) t;
     t \<leftarrow> uart_puts dev (cline ''):'') t;
     t \<leftarrow> report dev ''PC (faulting instr)'' (xf_pc frame) t;
     t \<leftarrow> report dev ''LR (caller)        '' (xf_lr frame) t;
     t \<leftarrow> report dev ''xPSR               '' (xf_psr frame) t;
     t \<leftarrow> report dev ''r0                 '' (xf_r0 frame) t;
     t \<leftarrow> report dev ''r1                 '' (xf_r1 frame) t;
     t \<leftarrow> report dev ''r2                 '' (xf_r2 frame) t;
     t \<leftarrow> report dev ''r3                 '' (xf_r3 frame) t;
     t \<leftarrow> report dev ''r12                '' (xf_r12 frame) t;
     t \<leftarrow> uart_puts dev (cstr (CHR 0x0A # ''EXC_RETURN = '')) t;
     t \<leftarrow> uart_put_hex32 dev exc_return t;
     uart_puts dev (cline (if exc_return AND 0x8 \<noteq> 0 then ''  (returning to thread mode)''
       else ''  (returning to handler mode - nested)'')) t
   }"

definition print_status :: "device \<Rightarrow> io_trace \<Rightarrow> io_trace option" where
  "print_status dev t = do {
     let (hfsr, t) = reg_read dev SCB_HFSR t;
     let (cfsr, t) = reg_read dev SCB_CFSR t;
     t \<leftarrow> uart_puts dev (cstr (CHR 0x0A # ''HFSR = '')) t;
     t \<leftarrow> uart_put_hex32 dev hfsr t;
     t \<leftarrow> uart_puts dev (cline '''') t;
     t \<leftarrow> flag_line dev hfsr 30 ''  FORCED: a configurable fault escalated. Read CFSR.'' t;
     t \<leftarrow> flag_line dev hfsr 1 ''  VECTTBL: fault while reading the vector table.'' t;
     t \<leftarrow> uart_puts dev (cstr (CHR 0x0A # ''CFSR = '')) t;
     t \<leftarrow> uart_put_hex32 dev cfsr t;
     t \<leftarrow> uart_puts dev (cline '''') t;
     t \<leftarrow> flag_line dev cfsr 0 ''  IACCVIOL:  instruction fetch from a no-execute region'' t;
     t \<leftarrow> flag_line dev cfsr 1 ''  DACCVIOL:  data access violated the MPU'' t;
     t \<leftarrow> flag_line dev cfsr 3 ''  MUNSTKERR: fault while unstacking on exception return'' t;
     t \<leftarrow> flag_line dev cfsr 4 ''  MSTKERR:   fault while stacking on exception entry'' t;
     t \<leftarrow> address_line dev cfsr 7 ''  MMFAR valid -> '' SCB_MMFAR t;
     t \<leftarrow> flag_line dev cfsr 8 ''  IBUSERR:   bus error on an instruction fetch'' t;
     t \<leftarrow> flag_line dev cfsr 9 ''  PRECISERR: bus error, PC above is exact'' t;
     t \<leftarrow> flag_line dev cfsr 10 (''  IMPRECISERR: buffered write failed later - PC is NOT exact.'' @ [CHR 0x0A] @
       ''               Add a DSB after suspect writes to make it precise.'') t;
     t \<leftarrow> flag_line dev cfsr 11 ''  UNSTKERR:  bus fault while unstacking'' t;
     t \<leftarrow> flag_line dev cfsr 12 ''  STKERR:    bus fault while stacking - classic stack overflow'' t;
     t \<leftarrow> address_line dev cfsr 15 ''  BFAR valid -> '' SCB_BFAR t;
     t \<leftarrow> flag_line dev cfsr 16 ''  UNDEFINSTR: undefined instruction (often a bad function pointer)'' t;
     t \<leftarrow> flag_line dev cfsr 17 ''  INVSTATE:   tried to execute in ARM state - LSB of a pointer was 0'' t;
     t \<leftarrow> flag_line dev cfsr 18 ''  INVPC:      bad EXC_RETURN or corrupted stacked PC'' t;
     t \<leftarrow> flag_line dev cfsr 19 ''  NOCP:       coprocessor access - FPU used but not enabled'' t;
     t \<leftarrow> flag_line dev cfsr 24 ''  UNALIGNED:  unaligned access with UNALIGN_TRP set'' t;
     flag_line dev cfsr 25 ''  DIVBYZERO:  divide by zero with DIV_0_TRP set'' t
   }"

text \<open>The result is the status handed to \<open>semihost_exit\<close>.\<close>

definition hardfault_report ::
    "device \<Rightarrow> bool \<Rightarrow> exception_frame \<Rightarrow> u32 \<Rightarrow> u32 \<Rightarrow> io_trace \<Rightarrow> (int \<times> io_trace) option" where
  "hardfault_report dev g_expect_fault frame exc_return ipsr t = do {
     t \<leftarrow> uart_puts dev (cstr (CHR 0x0A # ''*** FAULT: '')) t;
     t \<leftarrow> fault_name dev ipsr t;
     t \<leftarrow> uart_puts dev (cline '' ***'') t;
     t \<leftarrow> print_frame dev frame exc_return t;
     t \<leftarrow> print_status dev t;
     t \<leftarrow> uart_puts dev (cline (CHR 0x0A # ''Next step on a real board:'')) t;
     t \<leftarrow> uart_puts dev (cstr ''  arm-none-eabi-addr2line -e firmware.elf '') t;
     t \<leftarrow> uart_put_hex32 dev (xf_pc frame) t;
     t \<leftarrow> uart_puts dev (cline '''') t;
     if g_expect_fault
     then do {
       t \<leftarrow> uart_puts dev (cline (CHR 0x0A # ''(this fault was deliberate - test passed)'')) t;
       Some (0, t)
     }
     else Some (1, t)
   }"

section \<open>What it prints\<close>

text \<open>\<open>emits\<close> is \<open>prints\<close> for routines that also read other registers; nothing but the data register
  is written. A register \<open>holds\<close> a value when every read gives it, as the fault status
  registers do until they are written.\<close>

definition dr_writes_only :: "io_trace \<Rightarrow> bool" where
  "dr_writes_only t \<longleftrightarrow> (\<forall>e \<in> set t. case e of Rd _ _ \<Rightarrow> True | Wr a _ \<Rightarrow> a = UART0_DR | Wr8 _ _ \<Rightarrow> False)"

lemma dr_writes_only_simps [simp]: "dr_writes_only []" "dr_writes_only (s @ t) \<longleftrightarrow> dr_writes_only s \<and> dr_writes_only t"
  "dr_writes_only (Rd a v # t) \<longleftrightarrow> dr_writes_only t"
  by (auto simp: dr_writes_only_def)

interpretation reading: trace_class dr_writes_only
  by unfold_locales simp_all

definition emits :: "device \<Rightarrow> (io_trace \<Rightarrow> io_trace option) \<Rightarrow> u8 list \<Rightarrow> bool" where
  "emits dev f out \<longleftrightarrow> outputs dr_writes_only f out"

definition holds :: "device \<Rightarrow> u32 \<Rightarrow> u32 \<Rightarrow> bool" where
  "holds dev a v \<longleftrightarrow> (\<forall>t. dev t a = v)"

lemma emits_runs:
  assumes "emits dev f out"
  obtains evs where "f t = Some (t @ evs)" "dr_writes_only evs" "writes_to UART0_DR evs = map ucast out"
  using assms unfolding emits_def by (rule reading.runs)

lemma prints_emits: "prints dev f out \<Longrightarrow> emits dev f out"
  unfolding prints_iff emits_def outputs_def dr_writes_only_def uart_only_def by (fastforce split: io_event.split)

lemma emits_bind: "emits dev f a \<Longrightarrow> emits dev g b \<Longrightarrow> emits dev (\<lambda>t. f t \<bind> g) (a @ b)"
  unfolding emits_def by (rule reading.sequence)

lemma emits_read:
  assumes "holds dev a v" and "emits dev (g v) out"
  shows "emits dev (\<lambda>t. let (v, t) = reg_read dev a t in g v t) out"
  unfolding emits_def outputs_def
proof
  fix t
  obtain e where "g v (t @ [Rd a v]) = Some ((t @ [Rd a v]) @ e)" "dr_writes_only e" "writes_to UART0_DR e = map ucast out"
    using emits_runs [OF assms(2)] by blast
  then show "\<exists>evs. (let (v, t) = reg_read dev a t in g v t) = Some (t @ evs) \<and> dr_writes_only evs \<and>
      writes_to UART0_DR evs = map ucast out"
    using assms(1) by (intro exI [of _ "Rd a v # e"]) (simp add: reg_read_def holds_def)
qed

text \<open>The text of a status register: the lines of its set bits, in the order of a table.\<close>

definition flag_text :: "u32 \<Rightarrow> (nat \<times> u8 list) list \<Rightarrow> u8 list" where
  "flag_text v table = concat (map snd (filter (\<lambda>(n, _). bit v n) table))"

lemma flag_text_simps [simp]:
  "flag_text v [] = []"
  "flag_text v ((n, s) # table) = (if bit v n then s else []) @ flag_text v table"
  by (simp_all add: flag_text_def)

definition hex_text :: "u32 \<Rightarrow> u8 list" where
  "hex_text v = [48, 120] @ map hex_char (nibbles 8 (unat v))"

definition ended :: "u8 list \<Rightarrow> u8 list" where
  "ended s = s @ [13, 10]"

definition cfsr_table :: "u32 \<Rightarrow> u32 \<Rightarrow> (nat \<times> u8 list) list" where
  "cfsr_table mmfar bfar =
     [(0, ended (wire ''  IACCVIOL:  instruction fetch from a no-execute region'')),
      (1, ended (wire ''  DACCVIOL:  data access violated the MPU'')),
      (3, ended (wire ''  MUNSTKERR: fault while unstacking on exception return'')),
      (4, ended (wire ''  MSTKERR:   fault while stacking on exception entry'')),
      (7, ended (wire ''  MMFAR valid -> '' @ hex_text mmfar)),
      (8, ended (wire ''  IBUSERR:   bus error on an instruction fetch'')),
      (9, ended (wire ''  PRECISERR: bus error, PC above is exact'')),
      (10, ended (wire (''  IMPRECISERR: buffered write failed later - PC is NOT exact.'' @ [CHR 0x0A] @
         ''               Add a DSB after suspect writes to make it precise.''))),
      (11, ended (wire ''  UNSTKERR:  bus fault while unstacking'')),
      (12, ended (wire ''  STKERR:    bus fault while stacking - classic stack overflow'')),
      (15, ended (wire ''  BFAR valid -> '' @ hex_text bfar)),
      (16, ended (wire ''  UNDEFINSTR: undefined instruction (often a bad function pointer)'')),
      (17, ended (wire ''  INVSTATE:   tried to execute in ARM state - LSB of a pointer was 0'')),
      (18, ended (wire ''  INVPC:      bad EXC_RETURN or corrupted stacked PC'')),
      (19, ended (wire ''  NOCP:       coprocessor access - FPU used but not enabled'')),
      (24, ended (wire ''  UNALIGNED:  unaligned access with UNALIGN_TRP set'')),
      (25, ended (wire ''  DIVBYZERO:  divide by zero with DIV_0_TRP set''))]"

definition hfsr_table :: "(nat \<times> u8 list) list" where
  "hfsr_table =
     [(30, ended (wire ''  FORCED: a configurable fault escalated. Read CFSR.'')),
      (1, ended (wire ''  VECTTBL: fault while reading the vector table.''))]"

definition status_text :: "u32 \<Rightarrow> u32 \<Rightarrow> u32 \<Rightarrow> u32 \<Rightarrow> u8 list" where
  "status_text hfsr cfsr mmfar bfar =
     wire (CHR 0x0A # ''HFSR = '') @ hex_text hfsr @ [13, 10] @ flag_text hfsr hfsr_table @
     wire (CHR 0x0A # ''CFSR = '') @ hex_text cfsr @ [13, 10] @ flag_text cfsr (cfsr_table mmfar bfar)"

lemma emits_cong: "emits dev f a \<Longrightarrow> a = b \<Longrightarrow> emits dev f b"
  by simp

lemma emits_cstr: "uart_ready dev \<Longrightarrow> CHR 0x00 \<notin> set s \<Longrightarrow> emits dev (uart_puts dev (cstr s)) (wire s)"
  by (intro prints_emits prints_cstr)

lemma emits_cline: "uart_ready dev \<Longrightarrow> CHR 0x00 \<notin> set s \<Longrightarrow> emits dev (uart_puts dev (cline s)) (ended (wire s))"
  unfolding ended_def by (intro prints_emits prints_cline)

lemma emits_hex32: "uart_ready dev \<Longrightarrow> emits dev (uart_put_hex32 dev v) (hex_text v)"
  unfolding hex_text_def by (intro prints_emits prints_hex32)

lemma emits_u32: "uart_ready dev \<Longrightarrow> emits dev (uart_put_u32 dev v) (map digit_char (decimal (unat v)))"
  by (intro prints_emits prints_u32)

lemma ended_empty: "ended (wire '''') = [13, 10]"
  by (simp add: ended_def wire_def crlf_def)

lemma emits_flag:
  assumes "uart_ready dev" and "CHR 0x00 \<notin> set s"
  shows "emits dev (flag_line dev v n s) (if bit v n then ended (wire s) else [])"
proof -
  have "flag_line dev v n s = (if bit v n then uart_puts dev (cline s) else Some)"
    unfolding flag_line_def and_bit_nonzero by (simp add: fun_eq_iff)
  then show ?thesis
    using emits_cline [OF assms] prints_emits [OF prints_none] by simp
qed

lemma emits_address:
  assumes "uart_ready dev" and "CHR 0x00 \<notin> set s" and "holds dev a x"
  shows "emits dev (address_line dev v n s a) (if bit v n then ended (wire s @ hex_text x) else [])"
proof (cases "bit v n")
  case True
  then have f: "address_line dev v n s a = (\<lambda>t. uart_puts dev (cstr s) t \<bind> (\<lambda>t.
      let (v, t) = reg_read dev a t in uart_put_hex32 dev v t \<bind> uart_puts dev (cline '''')))"
    using True unfolding address_line_def and_bit_nonzero by (simp add: fun_eq_iff)
  show ?thesis
    unfolding f
    by (rule emits_cong, (rule emits_bind emits_cstr emits_hex32 emits_cline emits_read [OF assms(3)] assms(1,2))+)
      (simp_all add: True ended_empty ended_def [of "wire s @ hex_text x"])
next
  case False
  then have "address_line dev v n s a = Some"
    unfolding address_line_def and_bit_nonzero by (simp add: fun_eq_iff)
  then show ?thesis
    using False prints_emits [OF prints_none] by simp
qed

lemma emits_status:
  assumes "uart_ready dev" and "holds dev SCB_HFSR hfsr" and "holds dev SCB_CFSR cfsr"
    and "holds dev SCB_MMFAR mmfar" and "holds dev SCB_BFAR bfar"
  shows "emits dev (print_status dev) (status_text hfsr cfsr mmfar bfar)"
  unfolding print_status_def [abs_def]
  by (rule emits_cong, (rule emits_bind emits_read [OF assms(2)] emits_read [OF assms(3)] emits_flag emits_cstr
        emits_cline emits_hex32 emits_address assms | (rule notI, simp; fail))+)
    (simp add: status_text_def hfsr_table_def cfsr_table_def ended_empty split del: if_split cong: if_cong)

text \<open>The rest of the text.\<close>

definition line :: "string \<Rightarrow> u8 list" where
  "line s = ended (wire s)"

definition exception_text :: "u32 \<Rightarrow> u8 list" where
  "exception_text ipsr =
     (case map_of [(3, ''HardFault''), (4, ''MemManage''), (5, ''BusFault''), (6, ''UsageFault'')] (unat ipsr mod 512) of
        Some s \<Rightarrow> wire s
      | None \<Rightarrow> wire ''exception #'' @ map digit_char (decimal (unat ipsr mod 512)))"

definition report_text :: "string \<Rightarrow> u32 \<Rightarrow> u8 list" where
  "report_text label v = wire ''  '' @ wire label @ wire '' = '' @ hex_text v @ [13, 10]"

definition frame_text :: "exception_frame \<Rightarrow> u32 \<Rightarrow> u8 list" where
  "frame_text frame exc_return =
     wire (CHR 0x0A # ''Stacked frame (recovered from '') @ wire (if bit exc_return 2 then ''PSP'' else ''MSP'') @ line ''):'' @
     report_text ''PC (faulting instr)'' (xf_pc frame) @ report_text ''LR (caller)        '' (xf_lr frame) @
     report_text ''xPSR               '' (xf_psr frame) @ report_text ''r0                 '' (xf_r0 frame) @
     report_text ''r1                 '' (xf_r1 frame) @ report_text ''r2                 '' (xf_r2 frame) @
     report_text ''r3                 '' (xf_r3 frame) @ report_text ''r12                '' (xf_r12 frame) @
     wire (CHR 0x0A # ''EXC_RETURN = '') @ hex_text exc_return @
     line (if bit exc_return 3 then ''  (returning to thread mode)'' else ''  (returning to handler mode - nested)'')"

lemma emits_line: "uart_ready dev \<Longrightarrow> CHR 0x00 \<notin> set s \<Longrightarrow> emits dev (uart_puts dev (cline s)) (line s)"
  unfolding line_def by (rule emits_cline)

lemma line_empty: "line '''' = [13, 10]"
  by (simp add: line_def ended_empty)

lemma ipsr_number: "unat (ipsr AND 0x1FF) = unat ipsr mod 512" for ipsr :: u32
proof -
  have "(0x1FF :: u32) = mask 9"
    by (simp add: mask_eq_exp_minus_1)
  then have "unat (ipsr AND 0x1FF) = unat (take_bit 9 ipsr)"
    by (simp only: take_bit_eq_mask)
  also have "\<dots> = unat ipsr mod 512"
    by (simp only: unsigned_take_bit_eq) (simp add: take_bit_eq_mod)
  finally show ?thesis .
qed

lemma emits_name:
  assumes "uart_ready dev"
  shows "emits dev (fault_name dev ipsr) (exception_text ipsr)"
proof -
  let ?n = "ipsr AND 0x1FF"
  have eq: "?n = v \<longleftrightarrow> unat ipsr mod 512 = unat v" for v
    unfolding ipsr_number [symmetric] by (simp add: word_unat_eq_iff)
  have f: "fault_name dev ipsr =
      (if ?n = 3 then uart_puts dev (cstr ''HardFault'') else if ?n = 4 then uart_puts dev (cstr ''MemManage'')
       else if ?n = 5 then uart_puts dev (cstr ''BusFault'') else if ?n = 6 then uart_puts dev (cstr ''UsageFault'')
       else (\<lambda>t. uart_puts dev (cstr ''exception #'') t \<bind> uart_put_u32 dev ?n))"
    by (simp add: fun_eq_iff fault_name_def Let_def)
  have num: "emits dev (\<lambda>t. uart_puts dev (cstr ''exception #'') t \<bind> uart_put_u32 dev ?n)
      (wire ''exception #'' @ map digit_char (decimal (unat ipsr mod 512)))"
    unfolding ipsr_number [symmetric] by (intro emits_bind emits_cstr emits_u32 assms) simp
  show ?thesis
    unfolding f eq using num emits_cstr [OF assms] by (simp add: exception_text_def)
qed

lemma emits_report:
  assumes "uart_ready dev" and "CHR 0x00 \<notin> set s"
  shows "emits dev (report dev s v) (report_text s v)"
  unfolding report_def [abs_def] report_text_def
  by (rule emits_cong, (rule emits_bind emits_cstr emits_hex32 emits_line assms | (rule notI, simp; fail))+)
    (simp add: line_empty)

lemma emits_frame:
  assumes "uart_ready dev"
  shows "emits dev (print_frame dev frame exc_return) (frame_text frame exc_return)"
proof -
  have b: "exc_return AND 0x4 \<noteq> 0 \<longleftrightarrow> bit exc_return 2" "exc_return AND 0x8 \<noteq> 0 \<longleftrightarrow> bit exc_return 3"
    using and_bit_nonzero [of exc_return 2] and_bit_nonzero [of exc_return 3] by (simp_all add: push_bit_eq_mult)
  have n: "CHR 0x00 \<notin> set (if c then ''PSP'' else ''MSP'')"
    "CHR 0x00 \<notin> set (if c then ''  (returning to thread mode)'' else ''  (returning to handler mode - nested)'')" for c
    by simp_all
  show ?thesis
    unfolding print_frame_def [abs_def] b frame_text_def
    by (intro emits_bind emits_cstr emits_line emits_report emits_hex32 n assms) simp_all
qed

definition fault_text :: "exception_frame \<Rightarrow> u32 \<Rightarrow> u32 \<Rightarrow> u32 \<Rightarrow> u32 \<Rightarrow> u32 \<Rightarrow> u32 \<Rightarrow> u8 list" where
  "fault_text frame exc_return ipsr hfsr cfsr mmfar bfar =
     wire (CHR 0x0A # ''*** FAULT: '') @ exception_text ipsr @ line '' ***'' @ frame_text frame exc_return @
     status_text hfsr cfsr mmfar bfar @ line (CHR 0x0A # ''Next step on a real board:'') @
     wire ''  arm-none-eabi-addr2line -e firmware.elf '' @ hex_text (xf_pc frame) @ [13, 10]"

lemma hardfault_report_text:
  assumes "uart_ready dev" and "holds dev SCB_HFSR hfsr" and "holds dev SCB_CFSR cfsr"
    and "holds dev SCB_MMFAR mmfar" and "holds dev SCB_BFAR bfar"
  shows "\<exists>evs. hardfault_report dev expected frame exc_return ipsr t = Some (if expected then 0 else 1, t @ evs) \<and>
    dr_writes_only evs \<and> writes_to UART0_DR evs = map ucast
      (fault_text frame exc_return ipsr hfsr cfsr mmfar bfar @
       (if expected then line (CHR 0x0A # ''(this fault was deliberate - test passed)'') else []))"
proof -
  let ?body = "\<lambda>t. uart_puts dev (cstr (CHR 0x0A # ''*** FAULT: '')) t \<bind> (\<lambda>t. fault_name dev ipsr t \<bind>
     (\<lambda>t. uart_puts dev (cline '' ***'') t \<bind> (\<lambda>t. print_frame dev frame exc_return t \<bind> (\<lambda>t. print_status dev t \<bind>
     (\<lambda>t. uart_puts dev (cline (CHR 0x0A # ''Next step on a real board:'')) t \<bind>
     (\<lambda>t. uart_puts dev (cstr ''  arm-none-eabi-addr2line -e firmware.elf '') t \<bind>
     (\<lambda>t. uart_put_hex32 dev (xf_pc frame) t \<bind> uart_puts dev (cline ''''))))))))"
  have body: "emits dev ?body (fault_text frame exc_return ipsr hfsr cfsr mmfar bfar)"
    unfolding fault_text_def line_empty [symmetric]
    by (intro emits_bind emits_cstr emits_line emits_name emits_frame emits_status emits_hex32 assms) simp_all
  have ok: "emits dev (uart_puts dev (cline (CHR 0x0A # ''(this fault was deliberate - test passed)'')))
      (line (CHR 0x0A # ''(this fault was deliberate - test passed)''))"
    by (intro emits_line assms) simp
  have step: "hardfault_report dev expected frame exc_return ipsr t = ?body t \<bind> (\<lambda>t.
      if expected then uart_puts dev (cline (CHR 0x0A # ''(this fault was deliberate - test passed)'')) t \<bind> (\<lambda>t. Some (0, t))
      else Some (1, t))"
    unfolding hardfault_report_def by (simp only: bind_assoc)
  obtain e where e: "?body t = Some (t @ e)" "dr_writes_only e"
    "writes_to UART0_DR e = map ucast (fault_text frame exc_return ipsr hfsr cfsr mmfar bfar)"
    using emits_runs [OF body] by blast
  obtain e' where e': "uart_puts dev (cline (CHR 0x0A # ''(this fault was deliberate - test passed)'')) (t @ e) = Some ((t @ e) @ e')"
    "dr_writes_only e'" "writes_to UART0_DR e' = map ucast (line (CHR 0x0A # ''(this fault was deliberate - test passed)''))"
    using emits_runs [OF ok] by blast
  show ?thesis
  proof (cases expected)
    case True
    then show ?thesis
      unfolding step e(1) bind.bind_lunit using e' e(2,3)
      by (intro exI [of _ "e @ e'"]) simp
  next
    case False
    then show ?thesis
      unfolding step e(1) bind.bind_lunit using e(2,3) by (intro exI [of _ e]) simp
  qed
qed

section \<open>Properties\<close>

text \<open>C36. The decoder reports what the fault registers say: on a port that makes room it prints the
  exception's name or number, the eight stacked registers, and one line for each set status bit
  it knows, none for a clear one, with the fault addresses the registers hold; it writes no
  other register and hands the host status 0 exactly when the fault was expected.\<close>

theorem hardfault_report_decodes:
  assumes "uart_ready dev" and "holds dev SCB_HFSR hfsr" and "holds dev SCB_CFSR cfsr"
    and "holds dev SCB_MMFAR mmfar" and "holds dev SCB_BFAR bfar"
  shows "\<exists>evs. hardfault_report dev expected frame exc_return ipsr t = Some (if expected then 0 else 1, t @ evs) \<and>
    dr_writes_only evs \<and> writes_to UART0_DR evs = map ucast
      (fault_text frame exc_return ipsr hfsr cfsr mmfar bfar @
       (if expected then line (CHR 0x0A # ''(this fault was deliberate - test passed)'') else []))"
  using assms by (rule hardfault_report_text)

text \<open>A division by zero: usage fault, status bit 25.\<close>

definition divided_by_zero :: device where
  "divided_by_zero t a = (if a = SCB_CFSR then 0x02000000 else 0)"

definition stopped_frame :: exception_frame where
  "stopped_frame = \<lparr>xf_r0 = 100, xf_r1 = 0, xf_r2 = 0, xf_r3 = 0, xf_r12 = 0, xf_lr = 0x201, xf_pc = 0x1F4, xf_psr = 0x61000000\<rparr>"

theorem hardfault_report_decodes_witness:
  "\<exists>evs. hardfault_report divided_by_zero True stopped_frame 0xFFFFFFF9 6 [] = Some (0, evs) \<and> dr_writes_only evs"
proof -
  have r: "uart_ready divided_by_zero"
    by (auto simp: uart_ready_def gives_way_def divided_by_zero_def tx_full_def uart_regs SCB_CFSR_def)
  have h: "holds divided_by_zero SCB_HFSR 0" "holds divided_by_zero SCB_CFSR 0x02000000"
    "holds divided_by_zero SCB_MMFAR 0" "holds divided_by_zero SCB_BFAR 0"
    by (simp_all add: holds_def divided_by_zero_def SCB_HFSR_def SCB_CFSR_def SCB_MMFAR_def SCB_BFAR_def)
  show ?thesis
    using hardfault_report_decodes [OF r h, of True stopped_frame "0xFFFFFFF9" 6 "[]"] by auto
qed

end
