(* ===== verification/Hardfault_Main.thy ===== *)
theory Hardfault_Main
  imports Hardfault Startup
begin

unbundle bit_operations_syntax

text \<open>
  The program of \<open>src/code/qemu-cortex-m/05-hardfault-decoder/main.c\<close>: it enables the fault traps,
  provokes the fault it was built for, and the entry code hands the stacked frame to the decoder.
  What the provoking instruction does is up to the core, a parameter: it raises no fault (\<open>None\<close>), or
  enters the handler with \<open>EXC_RETURN\<close>, the frames the two stack pointers point to, and \<open>ipsr\<close>.
\<close>

section \<open>The program\<close>

datatype which_fault = FAULT_UNDEFINED_INSTRUCTION | FAULT_BAD_FUNCTION_POINTER | FAULT_DIVIDE_BY_ZERO |
  FAULT_UNALIGNED_ACCESS | FAULT_STACK_OVERFLOW | FAULT_UNMAPPED_ADDRESS

type_synonym core = "which_fault \<Rightarrow> io_trace \<Rightarrow> (u32 \<times> exception_frame \<times> exception_frame \<times> u32) option"

definition SCB_SHCSR :: u32 where "SCB_SHCSR = 0xE000ED24"
definition SCB_CCR :: u32 where "SCB_CCR = 0xE000ED14"

text \<open>\<open>tst lr, #4\<close> chooses between the main and the process stack.\<close>

definition fault_trampoline ::
    "device \<Rightarrow> bool \<Rightarrow> u32 \<Rightarrow> exception_frame \<Rightarrow> exception_frame \<Rightarrow> u32 \<Rightarrow> io_trace \<Rightarrow> (int \<times> io_trace) option" where
  "fault_trampoline dev g_expect_fault lr msp psp ipsr t =
     hardfault_report dev g_expect_fault (if lr AND 4 = 0 then msp else psp) lr ipsr t"

text \<open>The handlers of the program: all four fault vectors are the one entry. \<open>hard_fault_only\<close> is the program
  with the first of the four aliases alone.\<close>

definition fault_handlers :: "'h \<Rightarrow> vector \<rightharpoonup> 'h" where
  "fault_handlers entry = [HardFault_Handler \<mapsto> entry, MemManage_Handler \<mapsto> entry,
     BusFault_Handler \<mapsto> entry, UsageFault_Handler \<mapsto> entry]"

definition hard_fault_only :: "'h \<Rightarrow> vector \<rightharpoonup> 'h" where
  "hard_fault_only entry = [HardFault_Handler \<mapsto> entry]"

fun announce :: "device \<Rightarrow> which_fault \<Rightarrow> io_trace \<Rightarrow> io_trace option" where
  "announce dev FAULT_UNDEFINED_INSTRUCTION t = do {
     t \<leftarrow> uart_puts dev (cline (CHR 0x0A # ''Executing an undefined instruction.'')) t;
     uart_puts dev (cline (''Expect UNDEFINSTR. This is what a corrupted function'' @ [CHR 0x0A] @
       ''pointer or a jump into erased flash (0xFFFF) looks like.'')) t
   }"
| "announce dev FAULT_BAD_FUNCTION_POINTER t = do {
     t \<leftarrow> uart_puts dev (cline (CHR 0x0A # ''Calling a function pointer with bit 0 clear.'')) t;
     uart_puts dev (cline (''Expect INVSTATE: Cortex-M is Thumb-only, so the low bit of'' @ [CHR 0x0A] @
       ''every code address must be 1. Forgetting the |1 when you'' @ [CHR 0x0A] @
       ''build a jump table by hand lands you exactly here.'')) t
   }"
| "announce dev FAULT_DIVIDE_BY_ZERO t = do {
     t \<leftarrow> uart_puts dev (cline (CHR 0x0A # ''Dividing by zero with DIV_0_TRP set.'')) t;
     uart_puts dev (cline (''Expect DIVBYZERO. Without DIV_0_TRP this quietly yields 0'' @ [CHR 0x0A] @
       ''and you chase the wrong bug for a day.'')) t
   }"
| "announce dev FAULT_UNALIGNED_ACCESS t = do {
     t \<leftarrow> uart_puts dev (cline (CHR 0x0A # ''Unaligned 32-bit load with UNALIGN_TRP set.'')) t;
     uart_puts dev (cline (''Expect UNALIGNED. Classic when you cast a byte pointer'' @ [CHR 0x0A] @
       ''mid-packet to uint32_t* to pull a length field out.'')) t
   }"
| "announce dev FAULT_STACK_OVERFLOW t = do {
     t \<leftarrow> uart_puts dev (cline (CHR 0x0A # ''Recursing until the stack runs into .bss.'')) t;
     uart_puts dev (cline (''Expect STKERR, or silent corruption on a part with no MPU'' @ [CHR 0x0A] @
       ''guard region - which is why you set one up.'')) t
   }"
| "announce dev FAULT_UNMAPPED_ADDRESS t = do {
     t \<leftarrow> uart_puts dev (cline (CHR 0x0A # ''Reading unmapped address 0xE0000000.'')) t;
     uart_puts dev (cline (''Expect PRECISERR + BFAR. QEMU does not model this - on a'' @ [CHR 0x0A] @
       ''real part it faults immediately.'')) t
   }"

definition fault_setup :: "device \<Rightarrow> which_fault \<Rightarrow> io_trace \<Rightarrow> io_trace option" where
  "fault_setup dev which t = do {
     t \<leftarrow> uart_init dev 115200 t;
     t \<leftarrow> uart_puts dev (cline (CHR 0x0A # ''=== HardFault decoder ==='')) t;
     let t = reg_set dev SCB_SHCSR (push_bit 16 1 OR push_bit 17 1 OR push_bit 18 1) t;
     let t = reg_set dev SCB_CCR (push_bit 4 1 OR push_bit 3 1) t;
     announce dev which t
   }"

definition example05 :: "device \<Rightarrow> core \<Rightarrow> which_fault \<Rightarrow> io_trace \<Rightarrow> (int \<times> io_trace) option" where
  "example05 dev core which t = do {
     t \<leftarrow> fault_setup dev which t;
     case core which t of
       Some (lr, msp, psp, ipsr) \<Rightarrow> fault_trampoline dev True lr msp psp ipsr t
     | None \<Rightarrow> do {
         t \<leftarrow> uart_puts dev (cline ''*** did not fault - unexpected ***'') t;
         Some (1, t)
       }
   }"

section \<open>It is entered\<close>

lemma fault_entries:
  "3 \<le> n \<Longrightarrow> n \<le> 6 \<Longrightarrow>
     g_vectors ! n = [HardFault_Handler, MemManage_Handler, BusFault_Handler, UsageFault_Handler] ! (n - 3)"
  by (auto simp: g_vectors_def le_Suc_eq numeral_eq_Suc)

lemma other_entries:
  "list_all (\<lambda>n. n \<in> {3, 4, 5, 6} \<or>
     g_vectors ! n \<notin> {HardFault_Handler, MemManage_Handler, BusFault_Handler, UsageFault_Handler}) [0..<39]"
  by (simp add: g_vectors_def upt_conv_Cons)

text \<open>The vector table leads every fault to the decoder: exceptions 3 to 6 all enter the one trampoline.
  With \<open>HardFault_Handler\<close> alone replaced, an enabled configurable fault (4 to 6) never reaches the
  decoder but parks in \<open>Default_Handler\<close>, as the comment above the aliases warns; and an exception
  the program has no handler for parks there too.\<close>

theorem faults_reach_decoder:
  "take_exception (fault_handlers (fault_trampoline dev expect lr msp psp ipsr)) n t =
      (if n \<in> {3..6} then hardfault_report dev expect (if lr AND 4 = 0 then msp else psp) lr ipsr t else None) \<and>
    take_exception (hard_fault_only (fault_trampoline dev expect lr msp psp ipsr)) n t =
      (if n = 3 then hardfault_report dev expect (if lr AND 4 = 0 then msp else psp) lr ipsr t else None)"
proof -
  consider "n = 3" | "n = 4" | "n = 5" | "n = 6" | (other) "n < 3 \<or> 7 \<le> n" "n < 39" | (outside) "39 \<le> n"
    by linarith
  then show ?thesis
  proof cases
    case other
    have "g_vectors ! n \<notin> {HardFault_Handler, MemManage_Handler, BusFault_Handler, UsageFault_Handler}"
      using other_entries [unfolded list_all_iff, rule_format, of n] other
      by (auto simp del: upt_Suc)
    then show ?thesis
      using other by (auto simp: fault_handlers_def hard_fault_only_def intro!: take_exception_unhandled)
  next
    case outside
    then show ?thesis
      by (simp add: take_exception_def arr_get_def g_vectors_entries)
  qed (simp_all add: take_exception_def linked_handler_def fault_handlers_def hard_fault_only_def fault_entries
      g_vectors_entries mem Default_Handler_parks fault_trampoline_def)
qed

section \<open>It reports its fault\<close>

lemma fault_setup_returns:
  assumes "uart_ready dev"
  shows "\<exists>r. fault_setup dev which t = Some r \<and> True"
proof -
  obtain t1 where init: "uart_init dev 115200 t = Some t1"
    by (rule uart_init_115200)
  note lines = prints_then [OF prints_cline [OF assms]]
  have two: "\<exists>r. uart_puts dev (cline a) t \<bind> uart_puts dev (cline b) = Some r \<and> True"
    if "CHR 0x00 \<notin> set a" "CHR 0x00 \<notin> set b" for a b t
    using prints_runs [OF prints_bind [OF prints_cline [OF assms that(1)] prints_cline [OF assms that(2)]], of t]
    by blast
  have "\<exists>r. announce dev which t = Some r \<and> True" for t
    by (cases which; simp only: announce.simps; rule two) simp_all
  then show ?thesis
    unfolding fault_setup_def init bind.bind_lunit by (intro lines) (simp_all add: Let_def)
qed

text \<open>If the core faults, the decoder prints the frame of the stack that \<open>EXC_RETURN\<close> names and what
  the status registers say, and the program passes; if it does not, it exits with status 1.\<close>

theorem example05_reports:
  assumes "uart_ready dev" and "holds dev SCB_HFSR hfsr" and "holds dev SCB_CFSR cfsr"
    and "holds dev SCB_MMFAR mmfar" and "holds dev SCB_BFAR bfar"
  shows "\<exists>t1. fault_setup dev which t = Some t1 \<and>
    (case core which t1 of
       None \<Rightarrow> \<exists>t'. example05 dev core which t = Some (1, t')
     | Some (lr, msp, psp, ipsr) \<Rightarrow> \<exists>evs. example05 dev core which t = Some (0, t1 @ evs) \<and>
         dr_writes_only evs \<and> writes_to UART0_DR evs = map ucast
           (fault_text (if lr AND 4 = 0 then msp else psp) lr ipsr hfsr cfsr mmfar bfar @
            line (CHR 0x0A # ''(this fault was deliberate - test passed)'')))"
proof -
  obtain t1 where t1: "fault_setup dev which t = Some t1"
    using fault_setup_returns [OF assms(1)] by blast
  show ?thesis
  proof (cases "core which t1")
    case None
    have "\<exists>t'. uart_puts dev (cline ''*** did not fault - unexpected ***'') t1 = Some t'"
      using prints_runs [OF prints_cline [OF assms(1), of "''*** did not fault - unexpected ***''"], of t1] by auto
    then show ?thesis
      using t1 None by (auto simp: example05_def)
  next
    case (Some f)
    obtain lr msp psp ipsr where f: "f = (lr, msp, psp, ipsr)"
      by (cases f)
    then show ?thesis
      using t1 Some hardfault_report_text [OF assms, of True "if lr AND 4 = 0 then msp else psp" lr ipsr t1]
      by (simp add: example05_def fault_trampoline_def)
  qed
qed

end
