(* ===== verification/Stack_Overflow.thy ===== *)
theory Stack_Overflow
  imports Startup
begin

unbundle bit_operations_syntax

text \<open>
  The recursion that overruns the stack in \<open>src/code/qemu-cortex-m/05-hardfault-decoder/main.c\<close>. A
  call needs the 256 bytes of its array and \<open>saved\<close> bytes for what the compiler saves; the stack
  grows down from \<open>sp\<close>, and a frame that would reach below \<open>lim\<close>, the start of the memory, faults.
  \<open>keep\<close> gives the value each call reads from the volatile \<open>g_keep_going\<close>.
\<close>

section \<open>The recursion\<close>

text \<open>\<open>Inl (depth, m)\<close> is a fault on entry to the call of that depth, \<open>Inr m\<close> the return.\<close>

function blow_the_stack :: "(u32 \<Rightarrow> u32) \<Rightarrow> nat \<Rightarrow> nat \<Rightarrow> nat \<Rightarrow> u32 \<Rightarrow> ram \<Rightarrow> u32 \<times> ram + ram" where
  "blow_the_stack keep saved lim sp depth m =
     (if sp < lim + (256 + saved) then Inl (depth, m)
      else let frame = sp - (256 + saved);
               m = m(of_nat frame := depth)
        in if keep depth \<noteq> 0 then blow_the_stack keep saved lim frame (depth + 1) m else Inr m)"
  by auto
termination
  by (relation "measure (\<lambda>(keep, saved, lim, sp, depth, m). sp)") auto

declare blow_the_stack.simps [simp del]

section \<open>Where it ends\<close>

text \<open>The calls that fit, and the array of each.\<close>

definition calls_that_fit :: "nat \<Rightarrow> nat \<Rightarrow> nat \<Rightarrow> nat" where
  "calls_that_fit saved lim sp = (sp - lim) div (256 + saved)"

definition frame_of :: "nat \<Rightarrow> nat \<Rightarrow> nat \<Rightarrow> nat" where
  "frame_of saved sp k = sp - Suc k * (256 + saved)"

lemma blow_fits:
  assumes "\<And>d. keep d \<noteq> 0" and "lim \<le> sp"
  shows "\<exists>m'. blow_the_stack keep saved lim sp depth m = Inl (depth + of_nat (calls_that_fit saved lim sp), m') \<and>
    (sp < 2 ^ 32 \<longrightarrow>
      (\<forall>k < calls_that_fit saved lim sp. m' (of_nat (frame_of saved sp k)) = depth + of_nat k) \<and>
      (\<forall>a. unat a < lim \<or> sp \<le> unat a \<longrightarrow> m' a = m a))"
  using assms(2)
proof (induction "calls_that_fit saved lim sp" arbitrary: sp depth m)
  case 0
  then have "sp < lim + (256 + saved)"
    by (auto simp: calls_that_fit_def div_eq_0_iff)
  then show ?case
    using 0 by (subst blow_the_stack.simps) simp
next
  case (Suc n)
  let ?f = "256 + saved"
  let ?sp = "sp - ?f"
  have room: "\<not> sp < lim + ?f"
    using Suc.hyps(2) by (auto simp: calls_that_fit_def)
  have n: "calls_that_fit saved lim ?sp = n"
  proof -
    have "sp - lim = ?f + (?sp - lim)"
      using room by linarith
    then have "(sp - lim) div ?f = (?f + (?sp - lim)) div ?f"
      by (rule arg_cong)
    also have "\<dots> = (?sp - lim) div ?f + 1"
      by (rule div_add_self1) simp
    finally show ?thesis
      using Suc.hyps(2) unfolding calls_that_fit_def by linarith
  qed
  have le: "lim \<le> ?sp"
    using room by linarith
  let ?m = "m(of_nat ?sp := depth)"
  obtain m' where m': "blow_the_stack keep saved lim ?sp (depth + 1) ?m = Inl (depth + 1 + of_nat n, m')"
      "?sp < 2 ^ 32 \<longrightarrow> (\<forall>k < n. m' (of_nat (frame_of saved ?sp k)) = depth + 1 + of_nat k) \<and>
        (\<forall>a. unat a < lim \<or> ?sp \<le> unat a \<longrightarrow> m' a = ?m a)"
    using Suc.hyps(1) [OF n [symmetric] le, unfolded n, of "depth + 1" ?m] by (elim exE conjE) (rule that)
  have step: "blow_the_stack keep saved lim sp depth m = blow_the_stack keep saved lim ?sp (depth + 1) ?m"
    using room assms(1) by (subst blow_the_stack.simps) (simp add: Let_def)
  have frames: "m' (of_nat (frame_of saved sp k)) = depth + of_nat k" if "sp < 2 ^ 32" "k < Suc n" for k
  proof (cases k)
    case 0
    have u: "unat (of_nat ?sp :: u32) = ?sp"
      using that(1) by (simp add: unat_of_nat take_bit_nat_eq_self)
    then show ?thesis
      using m'(2) that(1) 0 by (simp add: frame_of_def)
  next
    case (Suc j)
    then have "frame_of saved sp k = frame_of saved ?sp j"
      by (simp add: frame_of_def)
    then show ?thesis
      using m'(2) that Suc by simp
  qed
  have outside: "m' a = m a" if "sp < 2 ^ 32" "unat a < lim \<or> sp \<le> unat a" for a
  proof -
    have "unat (of_nat ?sp :: u32) = ?sp"
      using that(1) by (simp add: unat_of_nat take_bit_nat_eq_self del: of_nat_diff)
    then have "a \<noteq> of_nat ?sp"
      using that(2) room le by (metis not_le diff_less_mono2 add_gr_0 diff_less less_le_trans zero_less_numeral)
    then show ?thesis
      using m'(2) that by auto
  qed
  show ?case
    unfolding Suc.hyps(2) [symmetric] step m'(1) using frames outside by (intro exI [of _ m']) simp
qed

section \<open>Properties\<close>

text \<open>While \<open>g_keep_going\<close> reads nonzero the recursion never returns: it faults after exactly the
  calls that fit between the stack pointer and the start of memory. Until then it has written one
  word every frame on the way down, so any object in between that is as large as a frame, the
  \<open>.data\<close> and \<open>.bss\<close> of the program included, has been overwritten without a fault.\<close>

theorem stack_overflow_overwrites:
  assumes "\<And>d. keep d \<noteq> 0" and "lim \<le> lo" and "lo + (256 + saved) \<le> sp" and "sp < 2 ^ 32"
  shows "\<exists>m' a k. blow_the_stack keep saved lim sp 0 m = Inl (of_nat (calls_that_fit saved lim sp), m') \<and>
    lo \<le> unat a \<and> unat a < lo + (256 + saved) \<and> k < calls_that_fit saved lim sp \<and> m' a = of_nat k"
proof -
  let ?f = "256 + saved"
  obtain m' where m': "blow_the_stack keep saved lim sp 0 m = Inl (of_nat (calls_that_fit saved lim sp), m')"
      "\<And>k. k < calls_that_fit saved lim sp \<Longrightarrow> m' (of_nat (frame_of saved sp k)) = of_nat k"
    using blow_fits [of keep lim sp saved 0 m, OF assms(1)] assms(2-4) by auto
  define k where "k = (sp - lo) div ?f - 1"
  have pos: "1 \<le> (sp - lo) div ?f"
    using assms(3) by (simp add: Suc_le_eq div_greater_zero_iff)
  then have k: "Suc k = (sp - lo) div ?f"
    by (simp add: k_def)
  have "Suc k * ?f \<le> sp - lo" "sp - lo < Suc k * ?f + ?f"
    unfolding k using div_mult_mod_eq [of "sp - lo" ?f] mod_less_divisor [of ?f "sp - lo"] by linarith+
  then have a: "lo \<le> frame_of saved sp k" "frame_of saved sp k < lo + ?f"
    using assms(3) unfolding frame_of_def by linarith+
  have "(sp - lo) div ?f \<le> (sp - lim) div ?f"
    using assms(2) by (intro div_le_mono) simp
  then have "k < calls_that_fit saved lim sp"
    using k by (simp add: calls_that_fit_def)
  moreover have "unat (of_nat (frame_of saved sp k) :: u32) = frame_of saved sp k"
    using assms(4) by (simp add: unat_of_nat take_bit_nat_eq_self frame_of_def)
  ultimately show ?thesis
    using m' a by (intro exI [of _ m'] exI [of _ "of_nat (frame_of saved sp k)"] exI [of _ k]) simp
qed

theorem stack_overflow_overwrites_witness:
  "\<exists>m'. blow_the_stack (\<lambda>_. 1) 16 0x20000000 0x20010000 0 (\<lambda>_. 0) = Inl (240, m')"
  using stack_overflow_overwrites [of "\<lambda>_. 1" "0x20000000" "0x20000000" 16 "0x20010000" "\<lambda>_. 0"]
  by (auto simp: calls_that_fit_def)

end
